(* ===== verification/Go_Prelude.thy ===== *)
theory Go_Prelude
  imports Main "HOL-Library.Word" "HOL-Library.Signed_Division"
begin

section \<open>The Go language as the models use it\<close>

text \<open>
  What every component shares: addresses of heap objects, points in time and durations
  with Go's saturating differences, outcomes of calls that may panic, the part of the
  program state the Go runtime keeps (a clock and an allocator), and the collections of
  theorems the component proofs are automated with.

  Time is counted in nanoseconds. \<open>time.Time\<close> is an unbounded point in time and
  \<open>time.Duration\<close> an \<open>int\<close> that stands for a signed 64-bit value; the two
  operations that could leave the 64-bit range, \<open>time.Since\<close> and
  \<open>time.Until\<close>, saturate as the standard library documents it. Time passes only in
  calls that block or run foreign code, never between two statements of the modelled code.
\<close>

named_theorems frame "an operation leaves a field of the state unchanged"
named_theorems unfold_ops "definitions of operations, for symbolic execution"

type_synonym addr = nat
type_synonym time = int
type_synonym duration = int

subsection \<open>Durations\<close>

definition max_duration :: duration where
  "max_duration = 2 ^ 63 - 1"

definition min_duration :: duration where
  "min_duration = - (2 ^ 63)"

definition valid_duration :: "duration \<Rightarrow> bool" where
  "valid_duration d \<longleftrightarrow> min_duration \<le> d \<and> d \<le> max_duration"

text \<open>\<open>t.Sub(u)\<close>: the difference, or the extreme duration where it does not fit.\<close>

definition time_sub :: "time \<Rightarrow> time \<Rightarrow> duration" where
  "time_sub t u = max min_duration (min max_duration (t - u))"

definition time_since :: "time \<Rightarrow> time \<Rightarrow> duration" where
  "time_since clock t = time_sub clock t"

definition time_until :: "time \<Rightarrow> time \<Rightarrow> duration" where
  "time_until clock t = time_sub t clock"

definition second :: duration where
  "second = 1000000000"

definition minute :: duration where
  "minute = 60 * second"

lemma valid_time_sub [simp, intro]: "valid_duration (time_sub t u)"
  by (simp add: valid_duration_def time_sub_def min_duration_def max_duration_def)

lemma time_sub_exact: "valid_duration (t - u) \<Longrightarrow> time_sub t u = t - u"
  by (simp add: valid_duration_def time_sub_def)

lemma time_sub_self [simp]: "time_sub t t = 0"
  by (simp add: time_sub_def min_duration_def max_duration_def)

lemma time_sub_mono: "t \<le> t' \<Longrightarrow> time_sub t u \<le> time_sub t' u"
  by (auto simp: time_sub_def)

lemma time_sub_le_iff:
  "valid_duration d \<Longrightarrow> d < max_duration \<Longrightarrow> time_sub t u \<le> d \<longleftrightarrow> t - u \<le> d"
  by (auto simp: time_sub_def valid_duration_def min_def max_def)

lemma time_sub_nonneg: "u \<le> t \<Longrightarrow> 0 \<le> time_sub t u"
  by (simp add: time_sub_def min_duration_def max_duration_def)

subsection \<open>Calls that may panic\<close>

text \<open>
  A Go call either returns or panics with a value. The type of the panic values is a
  parameter here; the error component instantiates it.
\<close>

datatype ('p, 'a) outcome = Panic 'p | Ret 'a

fun panics :: "('p, 'a) outcome \<Rightarrow> bool" where
  "panics (Panic _) = True"
| "panics (Ret _) = False"

lemma panics_iff: "panics r \<longleftrightarrow> (\<exists>p. r = Panic p)"
  by (cases r) auto

subsection \<open>The state of the runtime\<close>

text \<open>
  \<open>now\<close> is what \<open>time.Now()\<close> reads, \<open>next_addr\<close> the address the next
  allocation gets. Every component extends this record with the state it keeps.
\<close>

record go_world =
  now :: time
  next_addr :: addr

definition alloc :: "'z go_world_scheme \<Rightarrow> addr \<times> 'z go_world_scheme" where
  "alloc w = (next_addr w, w\<lparr>next_addr := Suc (next_addr w)\<rparr>)"

lemma fst_alloc [simp]: "fst (alloc w) = next_addr w"
  by (simp add: alloc_def)

lemma now_alloc [simp, frame]: "now (snd (alloc w)) = now w"
  by (simp add: alloc_def)

lemma next_addr_alloc [simp]: "next_addr (snd (alloc w)) = Suc (next_addr w)"
  by (simp add: alloc_def)

subsection \<open>Lists and maps\<close>

lemma map_filter_Some_eq_map [simp]: "List.map_filter (\<lambda>x. Some (f x)) xs = map f xs"
  by (induction xs) (simp_all add: List.map_filter_simps)

lemma set_map_filter: "set (List.map_filter f xs) = {y. \<exists>x \<in> set xs. f x = Some y}"
  by (induction xs) (auto simp: List.map_filter_simps split: option.splits)

lemma map_filter_if [simp]: "List.map_filter (\<lambda>x. if P x then Some x else None) xs = filter P xs"
  by (induction xs) (simp_all add: List.map_filter_simps)

subsection \<open>Goroutines\<close>

text \<open>
  Code that blocks or runs beside other goroutines is a step relation; its reachable states
  and an invariant its steps keep are the same for all of them.
\<close>

inductive reach :: "('s \<Rightarrow> bool) \<Rightarrow> ('s \<Rightarrow> 's \<Rightarrow> bool) \<Rightarrow> 's \<Rightarrow> bool" for start step where
  reach_start: "start s \<Longrightarrow> reach start step s"
| reach_step: "reach start step s \<Longrightarrow> step s t \<Longrightarrow> reach start step t"

locale step_invariant =
  fixes start :: "'s \<Rightarrow> bool" and step :: "'s \<Rightarrow> 's \<Rightarrow> bool" and inv :: "'s \<Rightarrow> bool"
  assumes inv_start: "start s \<Longrightarrow> inv s"
    and inv_step: "inv s \<Longrightarrow> step s t \<Longrightarrow> inv t"
begin

lemma reach_inv: "reach start step s \<Longrightarrow> inv s"
  by (induction rule: reach.induct) (auto intro: inv_start inv_step)

lemma steps_inv: "step\<^sup>*\<^sup>* s t \<Longrightarrow> inv s \<Longrightarrow> inv t"
  by (induction rule: rtranclp_induct) (auto intro: inv_step)

end

lemma reach_steps: "step\<^sup>*\<^sup>* s t \<Longrightarrow> reach start step s \<Longrightarrow> reach start step t"
  by (induction rule: rtranclp_induct) (auto intro: reach.intros)

end
