(* ===== verification/Go_Errors.thy ===== *)
theory Go_Errors
  imports Go_Prelude
begin

section \<open>Errors: \<open>errors/errors.go\<close>\<close>

text \<open>
  The package wraps an error in the struct \<open>Error\<close> and derives specific errors from
  it with \<open>fmt.Errorf\<close>. An error is a pointer: it carries the address that Go's
  \<open>==\<close> compares, so two errors with the same message are different errors.
  Modelled here: the error values the code meets, the scan of formats by \<open>fmt.Errorf\<close>
  (flags, argument indexes, widths, precisions, missing and surplus arguments, what is
  wrapped) with the text of the plain verbs \<open>%w\<close>, \<open>%s\<close>, \<open>%v\<close>, \<open>%T\<close> and \<open>%%\<close> (the text of
  other verbs and of modified ones is not that of Go), \<open>errors.Is\<close> and \<open>errors.As\<close>
  of the standard library with their calls back into the methods of \<open>Error\<close>, and every
  function and method of the package, with \<open>errors.Join\<close>. The re-exported checkers of Kubernetes errors are in
  \<open>Error_Checks\<close>.
\<close>

subsection \<open>Error values\<close>

text \<open>\<open>type Error struct\<close>: a pointer to it is its address and the wrapped error, nil allowed.\<close>

datatype 'e Error = Error (Error_addr: addr) (Error_err: "'e option")

text \<open>
  The dynamic types an \<open>error\<close> has here: \<open>errors.New\<close>, the error types of other packages
  that wrap nothing (with the name of the type, such as the status errors of Kubernetes),
  the results of \<open>fmt.Errorf\<close> with no, one or several \<open>%w\<close>, the
  results of \<open>errors.Join\<close>, the errors of the Go runtime (compared by value) and \<open>*Error\<close>.
\<close>

datatype err =
    ErrorString addr string
  | ForeignError addr string string
  | RuntimeError string
  | WrapError addr string "err option"
  | WrapErrors addr string "err list"
  | JoinErrors addr "err list"
  | ErrorPtr "err Error"

fun err_ref :: "err \<Rightarrow> addr + string" where
  "err_ref (ErrorString a _) = Inl a"
| "err_ref (ForeignError a _ _) = Inl a"
| "err_ref (RuntimeError m) = Inr m"
| "err_ref (WrapError a _ _) = Inl a"
| "err_ref (WrapErrors a _ _) = Inl a"
| "err_ref (JoinErrors a _) = Inl a"
| "err_ref (ErrorPtr p) = Inl (Error_addr p)"

definition err_eq :: "err \<Rightarrow> err \<Rightarrow> bool" where
  "err_eq e t \<longleftrightarrow> err_ref e = err_ref t"

lemma err_eq_refl [simp]: "err_eq e e"
  by (simp add: err_eq_def)

text \<open>
  The \<open>Error()\<close> method of an error. \<open>None\<close> is the nil dereference of an
  \<open>Error\<close> that wraps nil. Joined errors print one per line.
\<close>

fun lines_text :: "string option list \<Rightarrow> string option" where
  "lines_text [] = Some []"
| "lines_text [m] = m"
| "lines_text (m # n # ms) =
     (case (m, lines_text (n # ms)) of
        (Some t, Some ts) \<Rightarrow> Some (t @ [CHR 0x0A] @ ts)
      | _ \<Rightarrow> None)"

fun err_text :: "err \<Rightarrow> string option" where
  "err_text (ErrorString _ m) = Some m"
| "err_text (ForeignError _ _ m) = Some m"
| "err_text (RuntimeError m) = Some m"
| "err_text (WrapError _ m _) = Some m"
| "err_text (WrapErrors _ m _) = Some m"
| "err_text (JoinErrors _ es) = lines_text (map err_text es)"
| "err_text (ErrorPtr (Error _ None)) = None"
| "err_text (ErrorPtr (Error _ (Some e))) = err_text e"

subsection \<open>\<open>fmt.Errorf\<close>\<close>

text \<open>
  An argument of type \<open>any\<close>: nil, an error, a string, or another value with the name
  of its type and its default rendering.
\<close>

datatype go_arg = ANil | AErr err | AStr string | AVal string string

fun as_error :: "go_arg \<Rightarrow> err option" where
  "as_error (AErr e) = Some e"
| "as_error _ = None"

fun err_type :: "err \<Rightarrow> string" where
  "err_type (ErrorString _ _) = ''*errors.errorString''"
| "err_type (ForeignError _ t _) = t"
| "err_type (RuntimeError _) = ''runtime.Error''"
| "err_type (WrapError _ _ _) = ''*fmt.wrapError''"
| "err_type (WrapErrors _ _ _) = ''*fmt.wrapErrors''"
| "err_type (JoinErrors _ _) = ''*errors.joinError''"
| "err_type (ErrorPtr _) = ''*errors.Error''"

fun arg_type :: "go_arg \<Rightarrow> string" where
  "arg_type ANil = ''<nil>''"
| "arg_type (AErr e) = err_type e"
| "arg_type (AStr _) = ''string''"
| "arg_type (AVal t _) = t"

definition nil_deref :: string where
  "nil_deref = ''runtime error: invalid memory address or nil pointer dereference''"

text \<open>A formatted error; \<open>fmt\<close> catches the panic of its \<open>Error()\<close> method.\<close>

definition err_format :: "char \<Rightarrow> err \<Rightarrow> string" where
  "err_format verb e =
     (case err_text e of
        Some m \<Rightarrow> m
      | None \<Rightarrow> ''%!'' @ [verb] @ ''(PANIC=Error method: '' @ nil_deref @ '')'')"

fun arg_value :: "go_arg \<Rightarrow> string" where
  "arg_value ANil = ''<nil>''"
| "arg_value (AErr e) = err_format CHR ''v'' e"
| "arg_value (AStr s) = s"
| "arg_value (AVal _ v) = v"

definition bad_verb :: "char \<Rightarrow> go_arg \<Rightarrow> string" where
  "bad_verb verb a =
     ''%!'' @ [verb] @ ''('' @
       (if a = ANil then ''<nil>'' else arg_type a @ ''='' @ arg_value a) @ '')''"

definition arg_text :: "char \<Rightarrow> go_arg \<Rightarrow> string" where
  "arg_text verb a =
     (if verb = CHR ''T'' then arg_type a
      else if verb = CHR ''v'' then arg_value a
      else if verb = CHR ''w'' then
        (case a of AErr e \<Rightarrow> err_format CHR ''v'' e | _ \<Rightarrow> bad_verb verb a)
      else if verb = CHR ''s'' then
        (case a of
           ANil \<Rightarrow> bad_verb verb a
         | AErr e \<Rightarrow> err_format verb e
         | AStr s \<Rightarrow> s
         | AVal _ v \<Rightarrow> v)
      else bad_verb verb a)"

text \<open>
  The scan of a format (\<open>doPrintf\<close>). A directive is \<open>%\<close>, flags, an optional argument index
  \<open>[n]\<close>, an optional width and, after a dot, an optional precision (a number, or \<open>*\<close> to
  take it from an argument), each with an optional index, and a verb. The scan yields the
  pieces of the text, where arguments are named by their position, the position after the
  last one used, and whether an index was given anywhere. Numbers beyond a million are
  refused, and the rest of what is scanned is skipped.
\<close>

definition is_digit :: "char \<Rightarrow> bool" where
  "is_digit c \<longleftrightarrow> c \<in> set ''0123456789''"

fun parsenum :: "nat option \<Rightarrow> string \<Rightarrow> nat option \<times> string" where
  "parsenum n [] = (n, [])"
| "parsenum n (c # cs) =
     (if \<not> is_digit c then (n, c # cs)
      else case n of
        None \<Rightarrow> parsenum (Some (of_char c - 48)) cs
      | Some m \<Rightarrow> if m > 1000000 then (None, []) else parsenum (Some (10 * m + of_char c - 48)) cs)"

text \<open>
  An index: the new position (indices count from one), the rest, whether a number was found,
  and whether it names one of the \<open>n\<close> arguments. A bracket that is not closed is skipped.
\<close>

definition arg_number :: "nat \<Rightarrow> nat \<Rightarrow> string \<Rightarrow> nat \<times> string \<times> bool \<times> bool" where
  "arg_number n k cs =
     (if cs = [] \<or> hd cs \<noteq> CHR ''['' then (k, cs, False, True)
      else if length cs < 3 \<or> CHR '']'' \<notin> set (tl cs) then (k, tl cs, False, False)
      else
        let rest = tl (dropWhile (\<lambda>c. c \<noteq> CHR '']'') cs)
        in case parsenum None (takeWhile (\<lambda>c. c \<noteq> CHR '']'') (tl cs)) of
             (Some i, []) \<Rightarrow> if 1 \<le> i \<and> i \<le> n then (i - 1, rest, True, True) else (k, rest, True, False)
           | _ \<Rightarrow> (k, rest, False, False))"

text \<open>
  What stands between \<open>%\<close> and the verb. \<open>modified\<close>: flags, width or precision are given;
  \<open>good\<close>: every index was; \<open>reordered\<close>: there is an index.
\<close>

record directive =
  d_modified :: bool
  d_good :: bool
  d_reordered :: bool
  d_stars :: nat
  d_arg :: nat
  d_rest :: string

definition indexed :: "string \<Rightarrow> bool" where
  "indexed cs \<longleftrightarrow> cs \<noteq> [] \<and> hd cs = CHR ''[''"

definition starred :: "string \<Rightarrow> bool" where
  "starred cs \<longleftrightarrow> cs \<noteq> [] \<and> hd cs = CHR ''*''"

text \<open>A width or a precision: whether it is a star, the next position, the rest, and whether a number is given.\<close>

definition star_or_num :: "nat \<Rightarrow> nat \<Rightarrow> string \<Rightarrow> bool \<times> nat \<times> string \<times> bool" where
  "star_or_num n k cs =
     (if starred cs then (True, if k < n then Suc k else k, tl cs, False)
      else case parsenum None cs of (num, rest) \<Rightarrow> (False, k, rest, num \<noteq> None))"

definition scan_directive :: "nat \<Rightarrow> nat \<Rightarrow> string \<Rightarrow> directive" where
  "scan_directive n k cs =
     (let cs0 = dropWhile (\<lambda>c. c \<in> set ''#0+- '') cs;
          (k1, cs1, found1, good1) = arg_number n k cs0;
          (star2, k2, cs2, num2) = star_or_num n k1 cs1;
          found2 = (found1 \<and> \<not> star2);
          dot = (cs2 \<noteq> [] \<and> hd cs2 = CHR ''.'');
          (k3, cs3, found3, good3) = (if dot then arg_number n k2 (tl cs2) else (k2, cs2, found2, True));
          (star4, k4, cs4, num4) = (if dot then star_or_num n k3 cs3 else (False, k3, cs3, False));
          found4 = (found3 \<and> \<not> star4);
          (k5, cs5, found5, good5) = (if found4 then (k4, cs4, True, True) else arg_number n k4 cs4)
      in \<lparr>d_modified = (cs0 \<noteq> cs \<or> star2 \<or> num2 \<or> dot),
          d_good = (good1 \<and> \<not> (found1 \<and> \<not> star2 \<and> num2) \<and> \<not> (dot \<and> found2) \<and> good3 \<and> good5),
          d_reordered = (indexed cs0 \<or> dot \<and> indexed (tl cs2) \<or> \<not> found4 \<and> indexed cs4),
          d_stars = (if star2 then 1 else 0) + (if star4 then 1 else 0),
          d_arg = k5, d_rest = cs5\<rparr>)"

text \<open>
  A piece: text, the place of a \<open>*\<close> (which prints only a complaint), or the argument at a
  position under a verb, plain or modified by flags, width or precision.
\<close>

datatype piece = Lit string | Star | Verb bool char nat

definition verb_piece :: "nat \<Rightarrow> directive \<Rightarrow> char \<Rightarrow> piece \<times> nat" where
  "verb_piece n d v =
     (if v = CHR ''%'' then (Lit ''%'', d_arg d)
      else if \<not> d_good d then (Lit (''%!'' @ [v] @ ''(BADINDEX)''), d_arg d)
      else if d_arg d \<ge> n then (Lit (''%!'' @ [v] @ ''(MISSING)''), d_arg d)
      else (Verb (d_modified d) v (d_arg d), Suc (d_arg d)))"

lemma parsenum_length: "length (snd (parsenum n cs)) \<le> length cs"
  by (induction n cs rule: parsenum.induct) (auto split: option.split)

lemma arg_number_length: "arg_number n k cs = (k', cs', found, good) \<Longrightarrow> length cs' \<le> length cs"
  using length_dropWhile_le [of "\<lambda>c. c \<noteq> CHR '']''" cs]
  by (auto simp: arg_number_def Let_def split: if_splits prod.splits option.splits list.splits)

lemma star_or_num_length: "star_or_num n k cs = (star, k', cs', num) \<Longrightarrow> length cs' \<le> length cs"
  using parsenum_length [of None cs] by (auto simp: star_or_num_def split: if_splits prod.splits)

lemma scan_directive_length: "length (d_rest (scan_directive n k cs)) \<le> length cs"
proof -
  have "length (dropWhile (\<lambda>c. c \<in> set ''#0+- '') cs) \<le> length cs" by (rule length_dropWhile_le)
  then show ?thesis
    unfolding scan_directive_def Let_def
    by (auto split: prod.split if_splits dest!: arg_number_length star_or_num_length)
qed

function scan :: "nat \<Rightarrow> nat \<Rightarrow> string \<Rightarrow> piece list \<times> nat \<times> bool" where
  "scan n k [] = ([], k, False)"
| "scan n k (c # cs) =
     (if c \<noteq> CHR ''%'' then
        (case scan n k cs of (ps, k', re) \<Rightarrow> (Lit [c] # ps, k', re))
      else
        let d = scan_directive n k cs; stars = replicate (d_stars d) Star
        in case d_rest d of
             [] \<Rightarrow> (stars @ [Lit ''%!(NOVERB)''], d_arg d, d_reordered d)
           | v # rest \<Rightarrow>
               (case verb_piece n d v of (p, k1) \<Rightarrow>
                  case scan n k1 rest of (ps, k', re) \<Rightarrow> (stars @ p # ps, k', d_reordered d \<or> re)))"
  by pat_completeness auto
termination
proof (relation "measure (\<lambda>(n, k, cs). length cs)")
  fix n k and c :: char and cs d stars v rest x p k1
  assume "d = scan_directive n k cs" "d_rest d = v # rest"
  with scan_directive_length [of n k cs] show "((n, k1, rest), n, k, c # cs) \<in> measure (\<lambda>(n, k, cs). length cs)" by simp
qed simp_all

declare scan.simps(2) [simp del]

text \<open>
  The text of a piece; \<open>plain_piece\<close> says where it is the text of Go: flags, widths and
  precisions are not carried out, and verbs other than \<open>%w\<close>, \<open>%s\<close>, \<open>%v\<close> and \<open>%T\<close> are all
  rendered as bad verbs. What a format wraps does not depend on the text.
\<close>

fun piece_text :: "go_arg list \<Rightarrow> piece \<Rightarrow> string" where
  "piece_text as (Lit t) = t"
| "piece_text as Star = []"
| "piece_text as (Verb _ v i) = arg_text v (as ! i)"

fun plain_piece :: "piece \<Rightarrow> bool" where
  "plain_piece (Lit _) \<longleftrightarrow> True"
| "plain_piece Star \<longleftrightarrow> False"
| "plain_piece (Verb modified v _) \<longleftrightarrow> \<not> modified \<and> v \<in> set ''wsvT''"

definition extra_arg :: "go_arg \<Rightarrow> string" where
  "extra_arg a = (if a = ANil then ''<nil>'' else arg_type a @ ''='' @ arg_value a)"

fun extra_args :: "go_arg list \<Rightarrow> string" where
  "extra_args [] = []"
| "extra_args [a] = extra_arg a"
| "extra_args (a # b # as) = extra_arg a @ '', '' @ extra_args (b # as)"

text \<open>Arguments left over are reported, unless an index was given.\<close>

definition surplus :: "go_arg list \<Rightarrow> string" where
  "surplus rest = (if rest = [] then [] else ''%!(EXTRA '' @ extra_args rest @ '')'')"

definition render :: "go_arg list \<Rightarrow> piece list \<times> nat \<times> bool \<Rightarrow> string" where
  "render as s =
     (case s of (ps, k, re) \<Rightarrow> concat (map (piece_text as) ps) @ (if re then [] else surplus (drop k as)))"

definition sprintf :: "string \<Rightarrow> go_arg list \<Rightarrow> string" where
  "sprintf fmt as = render as (scan (length as) 0 fmt)"

text \<open>The positions under \<open>%w\<close>, sorted if there was an index.\<close>

fun wrap_positions :: "piece list \<Rightarrow> nat list" where
  "wrap_positions [] = []"
| "wrap_positions (Verb _ v i # ps) = (if v = CHR ''w'' then i # wrap_positions ps else wrap_positions ps)"
| "wrap_positions (_ # ps) = wrap_positions ps"

definition wrapped :: "piece list \<times> nat \<times> bool \<Rightarrow> nat list" where
  "wrapped s = (case s of (ps, k, re) \<Rightarrow> if re then sort (wrap_positions ps) else wrap_positions ps)"

definition errors_at :: "go_arg list \<Rightarrow> nat list \<Rightarrow> err list" where
  "errors_at as js = List.map_filter (\<lambda>i. as_error (as ! i)) js"

text \<open>\<open>Errorf\<close>: with several \<open>%w\<close> each argument is wrapped once.\<close>

definition errorf :: "addr \<Rightarrow> string \<Rightarrow> go_arg list \<Rightarrow> err" where
  "errorf a fmt as =
     (case wrapped (scan (length as) 0 fmt) of
        [] \<Rightarrow> ErrorString a (sprintf fmt as)
      | [i] \<Rightarrow> WrapError a (sprintf fmt as) (as_error (as ! i))
      | i # j # js \<Rightarrow> WrapErrors a (sprintf fmt as) (errors_at as (remdups_adj (i # j # js))))"

subsection \<open>\<open>errors.Is\<close> and \<open>errors.As\<close>\<close>

text \<open>
  \<open>errors.Is\<close> compares the error, then asks the error's own \<open>Is\<close> method where it
  has one, then unwraps. \<open>Error\<close> has such a method, which starts \<open>errors.Is\<close> again
  on the wrapped error, so the two are mutually recursive.
\<close>

function errors_Is :: "err option \<Rightarrow> err option \<Rightarrow> bool"
  and Error_Is :: "err Error \<Rightarrow> err option \<Rightarrow> bool"
where
  "errors_Is None t = (t = None)"
| "errors_Is (Some e) None = False"
| "errors_Is (Some (ErrorString a m)) (Some t) = err_eq (ErrorString a m) t"
| "errors_Is (Some (ForeignError a ty m)) (Some t) = err_eq (ForeignError a ty m) t"
| "errors_Is (Some (RuntimeError m)) (Some t) = err_eq (RuntimeError m) t"
| "errors_Is (Some (WrapError a m None)) (Some t) = err_eq (WrapError a m None) t"
| "errors_Is (Some (WrapError a m (Some e))) (Some t) =
     (err_eq (WrapError a m (Some e)) t \<or> errors_Is (Some e) (Some t))"
| "errors_Is (Some (WrapErrors a m es)) (Some t) =
     (err_eq (WrapErrors a m es) t \<or> (\<exists>e \<in> set es. errors_Is (Some e) (Some t)))"
| "errors_Is (Some (JoinErrors a es)) (Some t) =
     (err_eq (JoinErrors a es) t \<or> (\<exists>e \<in> set es. errors_Is (Some e) (Some t)))"
| "errors_Is (Some (ErrorPtr (Error a None))) (Some t) =
     (err_eq (ErrorPtr (Error a None)) t \<or> Error_Is (Error a None) (Some t))"
| "errors_Is (Some (ErrorPtr (Error a (Some e)))) (Some t) =
     (err_eq (ErrorPtr (Error a (Some e))) t \<or> Error_Is (Error a (Some e)) (Some t)
       \<or> errors_Is (Some e) (Some t))"
| "Error_Is (Error a None) t = (t = None)"
| "Error_Is (Error a (Some e)) t = errors_Is (Some e) t"
  by pat_completeness auto
termination
  by (relation "measure (case_sum (\<lambda>(e, t). size_option size e) (\<lambda>(p, t). size_Error size p))")
    (auto simp: less_Suc_eq_le intro!: size_list_estimation')

text \<open>
  \<open>errors.As\<close> for a target type given by the predicate \<open>P\<close> on dynamic types: the
  first error in the same order that has the type.
\<close>

fun first_some :: "('a \<Rightarrow> 'b option) \<Rightarrow> 'a list \<Rightarrow> 'b option" where
  "first_some f [] = None"
| "first_some f (x # xs) = (case f x of Some y \<Rightarrow> Some y | None \<Rightarrow> first_some f xs)"

lemma first_some_cong [fundef_cong]:
  "xs = ys \<Longrightarrow> (\<And>x. x \<in> set ys \<Longrightarrow> f x = g x) \<Longrightarrow> first_some f xs = first_some g ys"
  by (induction ys arbitrary: xs) (auto split: option.splits)

function errors_As :: "(err \<Rightarrow> bool) \<Rightarrow> err option \<Rightarrow> err option"
  and Error_As :: "(err \<Rightarrow> bool) \<Rightarrow> err Error \<Rightarrow> err option"
where
  "errors_As P None = None"
| "errors_As P (Some (ErrorString a m)) =
     (if P (ErrorString a m) then Some (ErrorString a m) else None)"
| "errors_As P (Some (ForeignError a ty m)) =
     (if P (ForeignError a ty m) then Some (ForeignError a ty m) else None)"
| "errors_As P (Some (RuntimeError m)) =
     (if P (RuntimeError m) then Some (RuntimeError m) else None)"
| "errors_As P (Some (WrapError a m x)) =
     (if P (WrapError a m x) then Some (WrapError a m x) else errors_As P x)"
| "errors_As P (Some (WrapErrors a m es)) =
     (if P (WrapErrors a m es) then Some (WrapErrors a m es)
      else first_some (\<lambda>e. errors_As P (Some e)) es)"
| "errors_As P (Some (JoinErrors a es)) =
     (if P (JoinErrors a es) then Some (JoinErrors a es)
      else first_some (\<lambda>e. errors_As P (Some e)) es)"
| "errors_As P (Some (ErrorPtr (Error a x))) =
     (if P (ErrorPtr (Error a x)) then Some (ErrorPtr (Error a x))
      else case Error_As P (Error a x) of
        Some r \<Rightarrow> Some r
      | None \<Rightarrow> errors_As P x)"
| "Error_As P (Error a x) = errors_As P x"
  by pat_completeness auto
termination
  by (relation "measure (case_sum (\<lambda>(P, e). size_option size e) (\<lambda>(P, p). size_Error size p))")
    (auto simp: less_Suc_eq_le intro!: size_list_estimation')

subsection \<open>The functions and methods of the package\<close>

definition New :: "addr \<Rightarrow> addr \<Rightarrow> string \<Rightarrow> err Error" where
  "New a b msg = Error a (Some (ErrorString b msg))"

definition Wrap :: "addr \<Rightarrow> err option \<Rightarrow> err Error" where
  "Wrap a e = Error a e"

definition Error_Unwrap :: "err Error \<Rightarrow> err option" where
  "Error_Unwrap e = Error_err e"

definition Error_Error :: "err Error \<Rightarrow> (go_arg, string) outcome" where
  "Error_Error e =
     (case Option.bind (Error_err e) err_text of
        None \<Rightarrow> Panic (AErr (RuntimeError nil_deref))
      | Some m \<Rightarrow> Ret m)"

definition Error_String :: "err Error \<Rightarrow> (go_arg, string) outcome" where
  "Error_String e =
     (case Option.bind (Error_err e) err_text of
        None \<Rightarrow> Panic (AErr (RuntimeError nil_deref))
      | Some m \<Rightarrow> Ret m)"

text \<open>
  The method \<open>New\<close>: the receiver goes in front of the arguments and \<open>%w - \<close> in front
  of the message. The method \<open>Wrap\<close> reads its last argument first; with no argument
  the index is \<open>-1\<close> and the runtime panics.
\<close>

definition Error_New :: "addr \<Rightarrow> err Error \<Rightarrow> string \<Rightarrow> go_arg list \<Rightarrow> err" where
  "Error_New a e msg args = errorf a (''%w - '' @ msg) (AErr (ErrorPtr e) # args)"

definition Error_Wrap ::
  "addr \<Rightarrow> err Error \<Rightarrow> string \<Rightarrow> go_arg list \<Rightarrow> (go_arg, err option) outcome" where
  "Error_Wrap a e msg args =
     (if args = [] then Panic (AErr (RuntimeError ''runtime error: index out of range [-1]''))
      else if last args = ANil then Ret None
      else Ret (Some (Error_New a e msg args)))"

text \<open>The errors the controller package declares at the top level, at fixed addresses.\<close>

definition ErrQueue :: "err Error" where
  "ErrQueue = New 0 1 ''queue''"

definition ErrMaxRetries :: err where
  "ErrMaxRetries = Error_New 2 ErrQueue ''max retries'' []"

definition ErrController :: "err Error" where
  "ErrController = New 3 4 ''controller''"

definition ErrPanic :: "err Error" where
  "ErrPanic = New 5 6 ''panic''"

definition first_free :: addr where
  "first_free = 7"

text \<open>\<open>Join\<close>: nil errors are discarded, and nothing left is nil.\<close>

definition errors_Join :: "addr \<Rightarrow> err option list \<Rightarrow> err option" where
  "errors_Join a errs = (case List.map_filter (\<lambda>e. e) errs of [] \<Rightarrow> None | e # es \<Rightarrow> Some (JoinErrors a (e # es)))"

subsection \<open>The tree of wrapped errors\<close>

text \<open>
  The reference for \<open>errors.Is\<close> and \<open>errors.As\<close>: the errors reachable by unwrapping,
  in the order the standard library documents (depth first, each error before what it
  wraps).
\<close>

function err_tree :: "err \<Rightarrow> err list" where
  "err_tree (ErrorString a m) = [ErrorString a m]"
| "err_tree (ForeignError a ty m) = [ForeignError a ty m]"
| "err_tree (RuntimeError m) = [RuntimeError m]"
| "err_tree (WrapError a m None) = [WrapError a m None]"
| "err_tree (WrapError a m (Some e)) = WrapError a m (Some e) # err_tree e"
| "err_tree (WrapErrors a m es) = WrapErrors a m es # concat (map err_tree es)"
| "err_tree (JoinErrors a es) = JoinErrors a es # concat (map err_tree es)"
| "err_tree (ErrorPtr (Error a None)) = [ErrorPtr (Error a None)]"
| "err_tree (ErrorPtr (Error a (Some e))) = ErrorPtr (Error a (Some e)) # err_tree e"
  by pat_completeness auto
termination
  by (relation "measure size") (auto simp: less_Suc_eq_le intro!: size_list_estimation')

lemma find_append:
  "List.find P (xs @ ys) = (case List.find P xs of Some x \<Rightarrow> Some x | None \<Rightarrow> List.find P ys)"
  by (induction xs) auto

lemma find_concat_map:
  "List.find P (concat (map f xs)) = first_some (\<lambda>x. List.find P (f x)) xs"
  by (induction xs) (auto simp: find_append split: option.splits)

lemma Error_Is_iff: "Error_Is (Error a x) (Some t) = errors_Is x (Some t)"
  by (cases x) simp_all

lemma errors_Is_iff_tree:
  "errors_Is (Some e) (Some t) \<longleftrightarrow> (\<exists>x \<in> set (err_tree e). err_eq x t)"
  by (induction e rule: err_tree.induct) auto

lemma errors_Is_self [simp]: "errors_Is (Some e) (Some e)"
  by (cases e rule: err_tree.cases) simp_all

lemma first_some_errors_As:
  "(\<And>e. e \<in> set es \<Longrightarrow> errors_As P (Some e) = List.find P (err_tree e)) \<Longrightarrow>
     first_some (\<lambda>e. errors_As P (Some e)) es = List.find P (concat (map err_tree es))"
  unfolding find_concat_map by (intro first_some_cong) auto

lemma errors_As_eq_find: "errors_As P (Some e) = List.find P (err_tree e)"
proof (induction e rule: err_tree.induct)
  case (6 a m es)
  then show ?case by (simp add: first_some_errors_As)
next
  case (7 a es)
  then show ?case by (simp add: first_some_errors_As)
qed (auto split: option.splits)

subsection \<open>What \<open>Error.New\<close> builds\<close>

text \<open>Scanning text, \<open>%%\<close> and a plain verb, so that \<open>simp\<close> runs the formats of the code.\<close>

lemma scan_text [simp]:
  "c \<noteq> CHR ''%'' \<Longrightarrow> scan n k (c # cs) = (case scan n k cs of (ps, k', re) \<Rightarrow> (Lit [c] # ps, k', re))"
  by (simp add: scan.simps(2))

lemma scan_directive_plain:
  assumes "v \<notin> set ''#0+- [*.''" and "\<not> is_digit v"
  shows "scan_directive n k (v # cs) =
    \<lparr>d_modified = False, d_good = True, d_reordered = False, d_stars = 0, d_arg = k, d_rest = v # cs\<rparr>"
  using assms by (simp add: scan_directive_def arg_number_def star_or_num_def indexed_def starred_def)

lemma scan_percent [simp]:
  "scan n k (CHR ''%'' # CHR ''%'' # cs) = (case scan n k cs of (ps, k', re) \<Rightarrow> (Lit ''%'' # ps, k', re))"
  by (subst scan.simps(2)) (simp add: scan_directive_plain is_digit_def verb_piece_def)

lemma scan_verb [simp]:
  assumes "v \<in> set ''wsvT''"
  shows "scan n k (CHR ''%'' # v # cs) =
    (if k < n then (case scan n (Suc k) cs of (ps, k', re) \<Rightarrow> (Verb False v k # ps, k', re))
     else (case scan n k cs of (ps, k', re) \<Rightarrow> (Lit (''%!'' @ [v] @ ''(MISSING)'') # ps, k', re)))"
proof -
  have "v \<notin> set ''#0+- [*.''" "\<not> is_digit v" "v \<noteq> CHR ''%''" using assms by (auto simp: is_digit_def)
  then show ?thesis
    by (subst scan.simps(2)) (simp add: scan_directive_plain verb_piece_def split: prod.split)
qed

text \<open>The message of \<open>base.New(msg, args...)\<close> is scanned behind the base, which is argument 0.\<close>

definition message_scan :: "string \<Rightarrow> go_arg list \<Rightarrow> piece list \<times> nat \<times> bool" where
  "message_scan msg args = scan (Suc (length args)) 1 msg"

lemma scan_New:
  "scan (length (x # args)) 0 (''%w - '' @ msg) =
     (case message_scan msg args of (ps, k, re) \<Rightarrow>
       (Verb False CHR ''w'' 0 # Lit '' '' # Lit ''-'' # Lit '' '' # ps, k, re))"
  by (simp add: message_scan_def split: prod.split)

lemma sprintf_New:
  "sprintf (''%w - '' @ msg) (AErr e # args) =
     err_format CHR ''v'' e @ '' - '' @ render (AErr e # args) (message_scan msg args)"
  unfolding sprintf_def scan_New by (cases "message_scan msg args") (simp add: render_def arg_text_def)

lemma sort_zero: "sort (0 # xs) = (0 :: nat) # sort xs"
proof -
  have "insort 0 ys = (0 :: nat) # ys" for ys by (cases ys) simp_all
  then show ?thesis by simp
qed

text \<open>The errors given to a \<open>%w\<close> of the message, besides the base, each once.\<close>

definition wrapped_errors :: "err Error \<Rightarrow> string \<Rightarrow> go_arg list \<Rightarrow> err list" where
  "wrapped_errors e msg args =
     errors_at (AErr (ErrorPtr e) # args) (tl (remdups_adj (0 # wrapped (message_scan msg args))))"

lemma wrapped_New: "wrapped (scan (length (x # args)) 0 (''%w - '' @ msg)) = 0 # wrapped (message_scan msg args)"
  unfolding scan_New by (cases "message_scan msg args") (simp add: wrapped_def sort_zero del: sort_key_simps)

lemma remdups_adj_Cons_hd: "remdups_adj (x # xs) = x # tl (remdups_adj (x # xs))"
  by (induction xs) auto

lemma Error_New_cases:
  "Error_New a e msg args =
     (let text = err_format CHR ''v'' (ErrorPtr e) @ '' - '' @
            render (AErr (ErrorPtr e) # args) (message_scan msg args)
      in if wrapped (message_scan msg args) = [] then WrapError a text (Some (ErrorPtr e))
         else WrapErrors a text (ErrorPtr e # wrapped_errors e msg args))"
proof (cases "wrapped (message_scan msg args)")
  case Nil
  then show ?thesis unfolding Error_New_def errorf_def wrapped_New sprintf_New by simp
next
  case (Cons i js)
  have "errors_at (AErr (ErrorPtr e) # args) (remdups_adj (0 # i # js)) = ErrorPtr e # wrapped_errors e msg args"
    unfolding wrapped_errors_def Cons
    using arg_cong [OF remdups_adj_Cons_hd [of 0 "i # js"], of "errors_at (AErr (ErrorPtr e) # args)"]
    by (simp only: errors_at_def List.map_filter_simps nth_Cons_0 as_error.simps option.case)
  with Cons show ?thesis unfolding Error_New_def errorf_def wrapped_New sprintf_New by (simp del: remdups_adj.simps)
qed

lemma no_wrapped_errors: "wrapped (message_scan msg args) = [] \<Longrightarrow> wrapped_errors e msg args = []"
  by (simp add: wrapped_errors_def errors_at_def List.map_filter_simps)

lemma err_ref_Error_New [simp]: "err_ref (Error_New a e msg args) = Inl a"
  by (simp add: Error_New_cases Let_def)

lemma err_text_Error_New:
  "err_text (Error_New a e msg args) =
     Some (err_format CHR ''v'' (ErrorPtr e) @ '' - '' @ render (AErr (ErrorPtr e) # args) (message_scan msg args))"
  by (simp add: Error_New_cases Let_def)

lemma errors_Is_Error_New:
  "errors_Is (Some (Error_New a e msg args)) (Some t) \<longleftrightarrow>
     err_ref t = Inl a \<or> errors_Is (Some (ErrorPtr e)) (Some t) \<or>
     (\<exists>x \<in> set (wrapped_errors e msg args). errors_Is (Some x) (Some t))"
  by (auto simp: Error_New_cases Let_def no_wrapped_errors err_eq_def)

lemma errors_Is_Error_New_base [simp]: "errors_Is (Some (Error_New a e msg args)) (Some (ErrorPtr e))"
  by (simp add: errors_Is_Error_New)

lemma err_format_New [simp]: "err_format verb (ErrorPtr (New a b msg)) = msg"
  by (simp add: err_format_def New_def)

lemmas run_format = message_scan_def wrapped_errors_def wrapped_def errors_at_def List.map_filter_simps

subsection \<open>Formats without argument indexes\<close>

text \<open>Text, \<open>%%\<close> and the plain verbs.\<close>

fun plain_format :: "string \<Rightarrow> bool" where
  "plain_format [] \<longleftrightarrow> True"
| "plain_format [c] \<longleftrightarrow> c \<noteq> CHR ''%''"
| "plain_format (c # v # cs) \<longleftrightarrow>
     (if c \<noteq> CHR ''%'' then plain_format (v # cs) else v \<in> set ''%wsvT'' \<and> plain_format cs)"

text \<open>With one more argument in front the same pieces name the arguments one position later.\<close>

fun later :: "piece \<Rightarrow> piece" where
  "later (Verb m v i) = Verb m v (Suc i)"
| "later p = p"

lemma plain_format_cases [consumes 1, case_names empty char percent verb]:
  assumes "plain_format msg"
  obtains "msg = []"
  | c cs where "msg = c # cs" "c \<noteq> CHR ''%''" "plain_format cs"
  | cs where "msg = CHR ''%'' # CHR ''%'' # cs" "plain_format cs"
  | v cs where "msg = CHR ''%'' # v # cs" "v \<in> set ''wsvT''" "plain_format cs"
  using assms by (cases msg rule: plain_format.cases) (auto split: if_splits)

lemma plain_scan_later:
  "plain_format msg \<Longrightarrow> scan n k msg = (ps, k', re) \<Longrightarrow>
     \<not> re \<and> scan (Suc n) (Suc k) msg = (map later ps, Suc k', False)"
proof (induction msg arbitrary: k ps k' re rule: length_induct)
  case (1 msg)
  from "1.prems"(1) show ?case
  proof (cases rule: plain_format_cases)
    case empty
    with "1.prems" show ?thesis by simp
  next
    case (char c cs)
    obtain qs l r where s: "scan n k cs = (qs, l, r)" by (metis prod_cases3)
    with "1.IH" [rule_format, of cs k qs l r] char "1.prems" show ?thesis by auto
  next
    case (percent cs)
    obtain qs l r where s: "scan n k cs = (qs, l, r)" by (metis prod_cases3)
    with "1.IH" [rule_format, of cs k qs l r] percent "1.prems" show ?thesis by auto
  next
    case (verb v cs)
    obtain qs l r where s: "scan n (if k < n then Suc k else k) cs = (qs, l, r)" by (metis prod_cases3)
    with "1.IH" [rule_format, of cs _ qs l r] verb "1.prems" show ?thesis
      by (cases "k < n") (simp_all only: scan_verb if_True if_False prod.case Suc_less_eq not_less_eq, auto)
  qed
qed

lemma piece_text_later [simp]: "piece_text (x # as) (later p) = piece_text as p"
  by (cases p) simp_all

lemma wrap_positions_later: "wrap_positions (map later ps) = map Suc (wrap_positions ps)"
  by (induction ps rule: wrap_positions.induct) auto

lemma plain_message:
  assumes "plain_format msg"
  shows "render (x # args) (message_scan msg args) = sprintf msg args"
    and "wrapped (message_scan msg args) = map Suc (wrapped (scan (length args) 0 msg))"
proof -
  obtain ps k re where s: "scan (length args) 0 msg = (ps, k, re)" by (metis prod_cases3)
  with plain_scan_later [OF assms s] have "message_scan msg args = (map later ps, Suc k, False)" "\<not> re"
    by (simp_all add: message_scan_def)
  with s show "render (x # args) (message_scan msg args) = sprintf msg args"
    "wrapped (message_scan msg args) = map Suc (wrapped (scan (length args) 0 msg))"
    by (simp_all add: render_def sprintf_def wrapped_def wrap_positions_later comp_def)
qed

text \<open>The positions under \<open>%w\<close> only grow, so none is dropped as a repetition.\<close>

lemma plain_wrap_positions:
  "plain_format msg \<Longrightarrow> scan n k msg = (ps, k', re) \<Longrightarrow>
     sorted (wrap_positions ps) \<and> distinct (wrap_positions ps) \<and> (\<forall>i \<in> set (wrap_positions ps). k \<le> i)"
proof (induction msg arbitrary: k ps k' re rule: length_induct)
  case (1 msg)
  from "1.prems"(1) show ?case
  proof (cases rule: plain_format_cases)
    case empty
    with "1.prems" show ?thesis by simp
  next
    case (char c cs)
    obtain qs l r where s: "scan n k cs = (qs, l, r)" by (metis prod_cases3)
    with "1.IH" [rule_format, OF _ char(3) s] char "1.prems" show ?thesis by auto
  next
    case (percent cs)
    obtain qs l r where s: "scan n k cs = (qs, l, r)" by (metis prod_cases3)
    with "1.IH" [rule_format, of cs k qs l r] percent "1.prems" show ?thesis by auto
  next
    case (verb v cs)
    obtain qs l r where s: "scan n (if k < n then Suc k else k) cs = (qs, l, r)" by (metis prod_cases3)
    from "1.IH" [rule_format, OF _ verb(3) s] verb(1)
    have IH: "sorted (wrap_positions qs)" "distinct (wrap_positions qs)" "\<forall>i \<in> set (wrap_positions qs). k \<le> i"
      "\<forall>i \<in> set (wrap_positions qs). (if k < n then Suc k else k) \<le> i" by (auto split: if_splits)
    from "1.prems"(2) have "ps = (if k < n then Verb False v k else Lit (''%!'' @ [v] @ ''(MISSING)'')) # qs"
      using s by (simp add: verb(1) scan_verb [OF verb(2)] split: if_splits)
    with IH show ?thesis by (fastforce split: if_splits)
  qed
qed

lemma plain_not_reordered:
  assumes "plain_format msg"
  shows "\<exists>ps k. scan n l msg = (ps, k, False) \<and> distinct (wrap_positions ps)"
proof -
  obtain ps k re where s: "scan n l msg = (ps, k, re)" by (metis prod_cases3)
  with plain_scan_later [OF assms s] plain_wrap_positions [OF assms s] show ?thesis by simp
qed

lemma errors_at_later: "errors_at (x # args) (map Suc js) = errors_at args js"
  by (induction js) (auto simp: errors_at_def List.map_filter_simps split: option.split)

lemma plain_wrapped_errors:
  assumes "plain_format msg"
  shows "wrapped_errors e msg args = errors_at args (wrapped (scan (length args) 0 msg))"
proof -
  let ?js = "wrapped (scan (length args) 0 msg)"
  have "distinct ?js" using plain_not_reordered [OF assms, of "length args" 0] by (auto simp: wrapped_def)
  then have "distinct (0 # map Suc ?js)" by (auto simp: distinct_map)
  then have "remdups_adj (0 # map Suc ?js) = 0 # map Suc ?js" by (rule remdups_adj_distinct)
  then show ?thesis unfolding wrapped_errors_def plain_message(2) [OF assms] by (simp only: list.sel errors_at_later)
qed

subsection \<open>Argument indexes\<close>




subsection \<open>What \<open>Join\<close> builds\<close>

lemma map_filter_nil: "List.map_filter (\<lambda>e. e) errs = [] \<longleftrightarrow> list_all (\<lambda>e. e = None) errs"
  by (induction errs) (auto simp: List.map_filter_simps split: option.splits)

lemma Join_cases:
  "errors_Join a errs =
     (if list_all (\<lambda>e. e = None) errs then None else Some (JoinErrors a (List.map_filter (\<lambda>e. e) errs)))"
  by (auto simp: errors_Join_def map_filter_nil [symmetric] split: list.split)

lemma first_some_nil: "list_all (\<lambda>e. e = None) errs \<Longrightarrow> first_some (errors_As P) errs = None"
  by (induction errs) auto

lemma Join_As:
  "errors_As P (errors_Join a errs) =
     (if errors_Join a errs \<noteq> None \<and> P (JoinErrors a (List.map_filter (\<lambda>e. e) errs))
      then errors_Join a errs else first_some (errors_As P) errs)"
proof -
  have "first_some (\<lambda>e. errors_As P (Some e)) (List.map_filter (\<lambda>e. e) errs) = first_some (errors_As P) errs"
    by (induction errs) (auto simp: List.map_filter_simps split: option.splits)
  then show ?thesis by (simp add: Join_cases first_some_nil)
qed

subsection \<open>Properties\<close>

text \<open>
  C30. The recursion of \<open>errors.Is\<close> and \<open>errors.As\<close> through the methods \<open>Is\<close> and
  \<open>As\<close> of \<open>Error\<close> decides exactly what the standard library promises for the tree of
  wrapped errors: \<open>Is\<close> finds the target in the tree, \<open>As\<close> returns the first error of
  the tree that has the type; the extra descent through the methods changes neither.
\<close>

theorem Error_Is_As_reference:
  "Error_Is (Error a (Some e)) (Some t) = list_ex (\<lambda>x. err_eq x t) (err_tree e) \<and>
   errors_Is (Some (ErrorPtr (Error a (Some e)))) (Some t) =
     (err_ref t = Inl a \<or> Error_Is (Error a (Some e)) (Some t)) \<and>
   Error_As P (Error a (Some e)) = List.find P (err_tree e)"
  by (auto simp: errors_Is_iff_tree errors_As_eq_find list_ex_iff err_eq_def)

text \<open>
  C32. An error made with \<open>base.New(msg, args...)\<close> matches under \<open>errors.Is\<close> exactly itself,
  what the base matches, and what an error given for a \<open>%w\<close> of the message matches, for
  every format. If the format consists of text, \<open>%%\<close> and the verbs \<open>%w\<close>, \<open>%s\<close>, \<open>%v\<close> and
  \<open>%T\<close>, the error prints as the text of the base, a hyphen and the message that \<open>fmt\<close> makes
  of the format and the arguments alone, with missing and surplus arguments reported there,
  and it wraps what that format wraps alone.
\<close>

theorem Error_New_text_and_chain:
  "errors_Is (Some (Error_New a e msg args)) (Some t) =
     (err_ref t = Inl a \<or> errors_Is (Some (ErrorPtr e)) (Some t) \<or>
      list_ex (\<lambda>x. errors_Is (Some x) (Some t)) (wrapped_errors e msg args)) \<and>
   (plain_format msg \<longrightarrow>
      err_text (Error_New a e msg args) = Some (err_format CHR ''v'' (ErrorPtr e) @ '' - '' @ sprintf msg args) \<and>
      wrapped_errors e msg args = errors_at args (wrapped (scan (length args) 0 msg)))"
  by (simp add: err_text_Error_New errors_Is_Error_New list_ex_iff plain_message(1) plain_wrapped_errors)


subsection \<open>Witnesses\<close>

theorem Error_New_text_and_chain_witness:
  "err_text (Error_New 9 ErrQueue ''item %s: %w'' [AStr ''a'', AErr (ErrorString 8 ''gone'')]) =
     Some ''queue - item a: gone'' \<and>
   wrapped_errors ErrQueue ''item %s: %w'' [AStr ''a'', AErr (ErrorString 8 ''gone'')] = [ErrorString 8 ''gone'']"
  using Error_New_text_and_chain [of 9 ErrQueue "''item %s: %w''" "[AStr ''a'', AErr (ErrorString 8 ''gone'')]" ErrMaxRetries]
  by (simp add: ErrQueue_def sprintf_def render_def surplus_def run_format arg_text_def err_format_def [of _ "ErrorString 8 ''gone''"])


end
