(* ===== verification/Kube_Objects.thy ===== *)
theory Kube_Objects
  imports Go_Errors
begin

section \<open>Resources as the controller sees them\<close>

text \<open>
  The values of Go's \<open>any\<close> that reach the controller package, cut down to what its code
  observes: the dynamic type's name, whether the type implements \<open>runtime.Object\<close>,
  whether it implements \<open>metav1.ObjectMetaAccessor\<close> and, if so, the metadata its
  \<open>GetObjectMeta()\<close> returns (which may be nil), and an identity for the rest of the
  value. \<open>cache.DeletedFinalStateUnknown\<close>, the tombstone the informer delivers for a
  deletion it did not observe, wraps another value.
\<close>

record owner_ref =
  oref_uid :: string
  oref_name :: string

record object_meta =
  meta_namespace :: string
  meta_name :: string
  meta_version :: string
  meta_generation :: int
  meta_owners :: "owner_ref list"
  meta_managed :: "string list"

datatype any =
    Nil_any
  | Value (value_type: string) (value_object: bool) (value_meta: "object_meta option option")
      (value_rest: nat)
  | Tombstone string any

text \<open>\<open>obj.(metav1.ObjectMetaAccessor)\<close>: \<open>None\<close> if the assertion fails.\<close>

fun as_accessor :: "any \<Rightarrow> object_meta option option" where
  "as_accessor (Value _ _ acc _) = acc"
| "as_accessor _ = None"

text \<open>\<open>obj.(runtime.Object)\<close>.\<close>

fun as_object :: "any \<Rightarrow> any option" where
  "as_object (Value t True acc r) = Some (Value t True acc r)"
| "as_object _ = None"

text \<open>\<open>%T\<close> of a value.\<close>

fun any_type :: "any \<Rightarrow> string" where
  "any_type Nil_any = ''<nil>''"
| "any_type (Value t _ _ _) = t"
| "any_type (Tombstone _ _) = ''cache.DeletedFinalStateUnknown''"

fun arg_of_any :: "any \<Rightarrow> go_arg" where
  "arg_of_any Nil_any = ANil"
| "arg_of_any v = AVal (any_type v) []"

definition arg_of_err :: "err option \<Rightarrow> go_arg" where
  "arg_of_err e = (case e of None \<Rightarrow> ANil | Some e \<Rightarrow> AErr e)"

lemma arg_of_err_simps [simp]:
  "arg_of_err None = ANil" "arg_of_err (Some e) = AErr e"
  by (simp_all add: arg_of_err_def)

lemma arg_of_err_eq_ANil [simp]: "arg_of_err e = ANil \<longleftrightarrow> e = None"
  by (cases e) simp_all

lemma as_object_SomeD [dest]: "as_object v = Some u \<Longrightarrow> u = v"
  by (cases v rule: as_object.cases) auto

subsection \<open>Example resources\<close>

text \<open>Concrete resources at which the witnesses of the development evaluate.\<close>

definition example_meta :: "string \<Rightarrow> string \<Rightarrow> object_meta" where
  "example_meta name ver =
     \<lparr>meta_namespace = ''default'', meta_name = name, meta_version = ver,
      meta_generation = 1, meta_owners = [], meta_managed = []\<rparr>"

definition example_pod :: "string \<Rightarrow> string \<Rightarrow> any" where
  "example_pod name ver = Value ''*v1.Pod'' True (Some (Some (example_meta name ver))) 0"

lemma example_meta_simps [simp]:
  "meta_namespace (example_meta name ver) = ''default''" "meta_name (example_meta name ver) = name"
  "meta_version (example_meta name ver) = ver" "meta_generation (example_meta name ver) = 1"
  "meta_owners (example_meta name ver) = []"
  by (simp_all add: example_meta_def)

lemma example_pod_simps [simp]:
  "as_accessor (example_pod name ver) = Some (Some (example_meta name ver))"
  "as_object (example_pod name ver) = Some (example_pod name ver)"
  "any_type (example_pod name ver) = ''*v1.Pod''"
  by (simp_all add: example_pod_def)

end
