(* ===== verification/Filters.thy ===== *)
theory Filters
  imports Kube_Objects
begin

section \<open>Event filters: \<open>controller/filter.go\<close>\<close>

text \<open>
  Filters decide whether a resource event is enqueued. A filter is a Go closure that may
  keep state (the self-write tracker does), so it is modelled as a function that also
  takes and returns the program state; a nil filter is \<open>None\<close>. The combinators
  \<open>And\<close>, \<open>Or\<close> and \<open>Not\<close> evaluate their filters in order and stop early, which the
  state makes visible. This theory holds the operations, the combinators and the two
  stateless filters; the tracker is in its own theory.
\<close>

subsection \<open>Operations\<close>

text \<open>\<open>type Op int\<close> with its three constants; other values of the type exist.\<close>

datatype op = Op (op_code: int)

definition OpAdd :: op where "OpAdd = Op 0"
definition OpUpdate :: op where "OpUpdate = Op 1"
definition OpDelete :: op where "OpDelete = Op 2"

instantiation op :: linorder
begin

definition less_eq_op :: "op \<Rightarrow> op \<Rightarrow> bool" where
  "less_eq_op a b \<longleftrightarrow> op_code a \<le> op_code b"

definition less_op :: "op \<Rightarrow> op \<Rightarrow> bool" where
  "less_op a b \<longleftrightarrow> op_code a < op_code b"

instance
  by standard (auto simp: less_eq_op_def less_op_def op.expand)

end

lemma op_distinct [simp]:
  "OpAdd \<noteq> OpUpdate" "OpUpdate \<noteq> OpAdd" "OpAdd \<noteq> OpDelete" "OpDelete \<noteq> OpAdd"
  "OpUpdate \<noteq> OpDelete" "OpDelete \<noteq> OpUpdate"
  by (simp_all add: OpAdd_def OpUpdate_def OpDelete_def)

definition Op_String :: "op \<Rightarrow> string" where
  "Op_String oper =
     (if oper = OpAdd then ''add''
      else if oper = OpUpdate then ''update''
      else if oper = OpDelete then ''delete''
      else ''unknown'')"

subsection \<open>Filters and their combinators\<close>

type_synonym 's event_filter = "op \<Rightarrow> any \<Rightarrow> any \<Rightarrow> 's \<Rightarrow> bool \<times> 's"

fun And :: "'s event_filter option list \<Rightarrow> 's event_filter" where
  "And [] oper prev obj s = (True, s)"
| "And (None # fs) oper prev obj s = And fs oper prev obj s"
| "And (Some f # fs) oper prev obj s =
     (case f oper prev obj s of
        (False, s') \<Rightarrow> (False, s')
      | (True, s') \<Rightarrow> And fs oper prev obj s')"

fun Or :: "'s event_filter option list \<Rightarrow> 's event_filter" where
  "Or [] oper prev obj s = (False, s)"
| "Or (None # fs) oper prev obj s = Or fs oper prev obj s"
| "Or (Some f # fs) oper prev obj s =
     (case f oper prev obj s of
        (True, s') \<Rightarrow> (True, s')
      | (False, s') \<Rightarrow> Or fs oper prev obj s')"


subsection \<open>The stateless filters\<close>

text \<open>\<open>meta\<close>: the metadata of a resource, nil where it is not accessible.\<close>

definition meta :: "any \<Rightarrow> object_meta option" where
  "meta obj = (case as_accessor obj of Some m \<Rightarrow> m | None \<Rightarrow> None)"

definition GenerationChanged :: "'s event_filter" where
  "GenerationChanged oper prev obj s =
     (if oper \<noteq> OpUpdate then (True, s)
      else case (meta prev, meta obj) of
        (Some before, Some after) \<Rightarrow> (meta_generation before \<noteq> meta_generation after, s)
      | _ \<Rightarrow> (True, s))"

definition ResourceVersionChanged :: "'s event_filter" where
  "ResourceVersionChanged oper prev obj s =
     (if oper \<noteq> OpUpdate then (True, s)
      else case (meta prev, meta obj) of
        (Some before, Some after) \<Rightarrow> (meta_version before \<noteq> meta_version after, s)
      | _ \<Rightarrow> (True, s))"

subsection \<open>Algebra of the combinators\<close>

text \<open>Nil entries do not matter to \<open>And\<close> and \<open>Or\<close>.\<close>

definition non_nil :: "'s event_filter option list \<Rightarrow> 's event_filter list" where
  "non_nil fs = List.map_filter id fs"

lemma non_nil_simps [simp]:
  "non_nil [] = []" "non_nil (None # fs) = non_nil fs" "non_nil (Some f # fs) = f # non_nil fs"
  by (simp_all add: non_nil_def List.map_filter_simps)


lemma Or_non_nil: "Or fs oper prev obj s = Or (map Some (non_nil fs)) oper prev obj s"
  by (induction fs oper prev obj s rule: Or.induct) (auto split: prod.splits bool.splits)




subsection \<open>The contract of the filters of this package\<close>

text \<open>
  Every filter of the package promises that add and delete events always pass; the
  stateless ones also promise to leave the state alone.
\<close>

locale update_filter =
  fixes flt :: "'s event_filter"
  assumes pass_other: "oper \<noteq> OpUpdate \<Longrightarrow> fst (flt oper prev obj s)"
begin

lemma flt_other: "oper \<noteq> OpUpdate \<Longrightarrow> flt oper prev obj s = (True, snd (flt oper prev obj s))"
  using pass_other [of oper prev obj s] by (cases "flt oper prev obj s") simp

lemma And_other:
  "oper \<noteq> OpUpdate \<Longrightarrow>
     And (Some flt # fs) oper prev obj s = And fs oper prev obj (snd (flt oper prev obj s))"
  using pass_other [of oper prev obj s] by (auto split: prod.splits)

lemma Or_other:
  "oper \<noteq> OpUpdate \<Longrightarrow> Or (Some flt # fs) oper prev obj s = (True, snd (flt oper prev obj s))"
  using pass_other [of oper prev obj s] by (auto split: prod.splits)

end

locale pure_filter = update_filter +
  assumes pure: "snd (flt oper prev obj s) = s"
begin

lemma flt_eq: "flt oper prev obj s = (fst (flt oper prev obj s), s)"
  using pure [of oper prev obj s] by (cases "flt oper prev obj s") simp

lemma And_pure:
  "And (Some flt # fs) oper prev obj s =
     (if fst (flt oper prev obj s) then And fs oper prev obj s else (False, s))"
  by (subst And.simps(3), subst flt_eq) (auto split: bool.splits)

lemma And_idem: "And (Some flt # Some flt # fs) oper prev obj s = And (Some flt # fs) oper prev obj s"
  using And_pure by simp

end

interpretation generation: pure_filter "GenerationChanged :: 's event_filter"
  by unfold_locales (auto simp: GenerationChanged_def split: option.splits)

interpretation version: pure_filter "ResourceVersionChanged :: 's event_filter"
  by unfold_locales (auto simp: ResourceVersionChanged_def split: option.splits)

subsection \<open>Properties\<close>


text \<open>
  The two stateless filters drop an event exactly if it is an update between resources
  with metadata of which the generation or the resource version is unchanged; every other
  event reaches the rest of the conjunction in an unchanged state.
\<close>

lemma changed_filters_gate:
  "And (Some GenerationChanged # Some ResourceVersionChanged # fs) oper prev obj s =
     (if oper = OpUpdate \<and> meta prev \<noteq> None \<and> meta obj \<noteq> None \<and>
         (map_option meta_generation (meta prev) = map_option meta_generation (meta obj) \<or>
          map_option meta_version (meta prev) = map_option meta_version (meta obj))
      then (False, s) else And fs oper prev obj s)"
  unfolding generation.And_pure version.And_pure
  by (auto simp: GenerationChanged_def ResourceVersionChanged_def split: option.splits)

end
