(* ===== verification/Self_Write_Tracker.thy ===== *)
theory Self_Write_Tracker
  imports Filters
begin

section \<open>The self-write tracker: \<open>controller/filter.go\<close>\<close>

text \<open>
  \<open>SelfWriteTracker\<close> drops the update event that echoes a write of the controller itself.
  Its methods hold a mutex for the whole of their work on the map, so a run of concurrent
  calls is a sequence of atomic operations; that sequence, with the times at which
  \<open>time.Now()\<close> was read under the lock, is the history the properties speak about.
  Trackers are pointers: the state \<open>filter_world\<close> maps addresses to trackers, and the
  method value \<open>t.Filter\<close> is the closure \<open>tracker_filter\<close> over an address.
\<close>

subsection \<open>State and operations\<close>

record selfWriteEntry =
  entry_version :: string
  entry_timestamp :: time

record SelfWriteTracker =
  entries :: "string \<rightharpoonup> selfWriteEntry"
  ttl :: duration

definition NewSelfWriteTracker :: "duration \<Rightarrow> SelfWriteTracker" where
  "NewSelfWriteTracker d =
     \<lparr>entries = Map.empty, ttl = (if d \<le> 0 then 5 * minute else d)\<rparr>"

definition tracker_key :: "object_meta \<Rightarrow> string" where
  "tracker_key m = meta_namespace m @ ''/'' @ meta_name m"

text \<open>\<open>Mark\<close>, with the time read under the lock.\<close>

definition tracker_Mark :: "object_meta option \<Rightarrow> time \<Rightarrow> SelfWriteTracker \<Rightarrow> SelfWriteTracker" where
  "tracker_Mark obj clock t =
     (case obj of
        None \<Rightarrow> t
      | Some m \<Rightarrow> t\<lparr>entries := (entries t)(tracker_key m \<mapsto>
          \<lparr>entry_version = meta_version m, entry_timestamp = clock\<rparr>)\<rparr>)"

text \<open>\<open>Filter\<close>; the previous resource is ignored by the code.\<close>

definition tracker_Filter ::
  "op \<Rightarrow> any \<Rightarrow> time \<Rightarrow> SelfWriteTracker \<Rightarrow> bool \<times> SelfWriteTracker" where
  "tracker_Filter oper obj clock t =
     (if oper = OpDelete then
        (case meta obj of
           Some m \<Rightarrow> (True, t\<lparr>entries := (entries t)(tracker_key m := None)\<rparr>)
         | None \<Rightarrow> (True, t))
      else if oper \<noteq> OpUpdate then (True, t)
      else case meta obj of
        None \<Rightarrow> (True, t)
      | Some m \<Rightarrow>
         (case entries t (tracker_key m) of
            None \<Rightarrow> (True, t)
          | Some entry \<Rightarrow>
              if time_since clock (entry_timestamp entry) > ttl t then
                (True, t\<lparr>entries := (entries t)(tracker_key m := None)\<rparr>)
              else if entry_version entry = meta_version m then
                (False, t\<lparr>entries := (entries t)(tracker_key m := None)\<rparr>)
              else (True, t)))"

lemma ttl_Mark [simp]: "ttl (tracker_Mark obj clock t) = ttl t"
  by (simp add: tracker_Mark_def split: option.split)

lemma ttl_Filter [simp]: "ttl (snd (tracker_Filter oper obj clock t)) = ttl t"
  by (simp add: tracker_Filter_def split: option.split)

subsection \<open>Trackers as filters of a program state\<close>

record filter_world = go_world +
  trackers :: "addr \<Rightarrow> SelfWriteTracker"

definition mark :: "addr \<Rightarrow> object_meta option \<Rightarrow> 'z filter_world_scheme \<Rightarrow> 'z filter_world_scheme" where
  "mark a obj w = w\<lparr>trackers := (trackers w)(a := tracker_Mark obj (now w) (trackers w a))\<rparr>"

definition tracker_filter :: "addr \<Rightarrow> 'z filter_world_scheme event_filter" where
  "tracker_filter a oper prev obj w =
     (case tracker_Filter oper obj (now w) (trackers w a) of
        (pass, t) \<Rightarrow> (pass, w\<lparr>trackers := (trackers w)(a := t)\<rparr>))"

lemma tracker_Filter_other: "oper \<noteq> OpUpdate \<Longrightarrow> fst (tracker_Filter oper obj clock t)"
  by (auto simp: tracker_Filter_def split: option.splits)

text \<open>The interface \<open>Tracker\<close> and its implementation by the tracker at an address.\<close>

record 's tracker_ops =
  tr_Filter :: "'s event_filter"
  tr_Mark :: "object_meta option \<Rightarrow> 's \<Rightarrow> 's"

definition self_write_tracker :: "addr \<Rightarrow> 'z filter_world_scheme tracker_ops" where
  "self_write_tracker a = \<lparr>tr_Filter = tracker_filter a, tr_Mark = mark a\<rparr>"

lemma self_write_tracker_simps [simp]:
  "tr_Filter (self_write_tracker a) = tracker_filter a" "tr_Mark (self_write_tracker a) = mark a"
  by (simp_all add: self_write_tracker_def)

interpretation tracker: update_filter "tr_Filter (self_write_tracker a) :: 'z filter_world_scheme event_filter" for a
  by unfold_locales (simp add: tracker_filter_def tracker_Filter_other case_prod_beta)

subsection \<open>Keys\<close>

lemma append_sep_inject:
  assumes "c \<notin> set xs" and "c \<notin> set us"
  shows "xs @ c # ys = us @ c # vs \<longleftrightarrow> xs = us \<and> ys = vs"
  using assms by (auto simp: append_eq_append_conv2 append_eq_Cons_conv Cons_eq_append_conv)

lemma tracker_key_eq_iff:
  assumes "CHR ''/'' \<notin> set (meta_namespace m)" and "CHR ''/'' \<notin> set (meta_namespace m')"
  shows "tracker_key m = tracker_key m' \<longleftrightarrow>
    meta_namespace m = meta_namespace m' \<and> meta_name m = meta_name m'"
  using assms by (simp add: tracker_key_def append_sep_inject)

subsection \<open>Histories\<close>

datatype tracker_op =
    MarkOp "object_meta option" time
  | FilterOp op any time

fun tracker_step :: "SelfWriteTracker \<Rightarrow> tracker_op \<Rightarrow> bool \<times> SelfWriteTracker" where
  "tracker_step t (MarkOp obj clock) = (True, tracker_Mark obj clock t)"
| "tracker_step t (FilterOp oper obj clock) = tracker_Filter oper obj clock t"

fun tracker_run :: "SelfWriteTracker \<Rightarrow> tracker_op list \<Rightarrow> SelfWriteTracker" where
  "tracker_run t [] = t"
| "tracker_run t (x # xs) = tracker_run (snd (tracker_step t x)) xs"

text \<open>The number of events for a key that a run drops, and of writes to it that it marks.\<close>

fun concerns :: "string \<Rightarrow> tracker_op \<Rightarrow> bool" where
  "concerns k (MarkOp obj _) = (map_option tracker_key obj = Some k)"
| "concerns k (FilterOp _ obj _) = (map_option tracker_key (meta obj) = Some k)"

fun is_mark :: "string \<Rightarrow> tracker_op \<Rightarrow> bool" where
  "is_mark k (MarkOp obj _) = (map_option tracker_key obj = Some k)"
| "is_mark k (FilterOp _ _ _) = False"

definition is_drop :: "string \<Rightarrow> SelfWriteTracker \<Rightarrow> tracker_op \<Rightarrow> bool" where
  "is_drop k t x \<longleftrightarrow> concerns k x \<and> \<not> fst (tracker_step t x)"

fun drops :: "string \<Rightarrow> SelfWriteTracker \<Rightarrow> tracker_op list \<Rightarrow> nat" where
  "drops k t [] = 0"
| "drops k t (x # xs) = of_bool (is_drop k t x) + drops k (snd (tracker_step t x)) xs"

definition marks :: "string \<Rightarrow> tracker_op list \<Rightarrow> nat" where
  "marks k xs = length (filter (is_mark k) xs)"

definition pending :: "string \<Rightarrow> SelfWriteTracker \<Rightarrow> bool" where
  "pending k t \<longleftrightarrow> entries t k \<noteq> None"

lemma tracker_run_append: "tracker_run t (xs @ ys) = tracker_run (tracker_run t xs) ys"
  by (induction xs arbitrary: t) auto

lemma ttl_step [simp]: "ttl (snd (tracker_step t x)) = ttl t"
  by (cases x) auto

lemma ttl_run [simp]: "ttl (tracker_run t xs) = ttl t"
  by (induction xs arbitrary: t) auto

text \<open>Operations on other keys leave the entry of a key alone.\<close>

lemma entries_step_other:
  "\<not> concerns k x \<Longrightarrow> entries (snd (tracker_step t x)) k = entries t k"
  by (cases x) (auto simp: tracker_Mark_def tracker_Filter_def split: option.splits)

lemma entries_step_mark:
  "entries (snd (tracker_step t (MarkOp (Some m) clock))) (tracker_key m) =
     Some \<lparr>entry_version = meta_version m, entry_timestamp = clock\<rparr>"
  by (simp add: tracker_Mark_def)

text \<open>A dropped event consumes the entry; only \<open>Mark\<close> ever makes one.\<close>

lemma step_balance:
  "of_bool (is_drop k t x) + of_bool (pending k (snd (tracker_step t x))) \<le>
     (of_bool (is_mark k x) + of_bool (pending k t) :: nat)"
  by (cases x)
    (auto simp: is_drop_def pending_def tracker_Mark_def tracker_Filter_def split: option.splits)

lemma step_entry_origin:
  assumes "entries (snd (tracker_step t x)) k = Some e"
  shows "entries t k = Some e \<or>
    (\<exists>m clock. x = MarkOp (Some m) clock \<and> tracker_key m = k \<and>
       e = \<lparr>entry_version = meta_version m, entry_timestamp = clock\<rparr>)"
  using assms
  by (cases x) (auto simp: tracker_Mark_def tracker_Filter_def split: option.splits if_splits)

lemma marks_Nil [simp]: "marks k [] = 0"
  by (simp add: marks_def)

lemma marks_Cons: "marks k (x # xs) = of_bool (is_mark k x) + marks k xs"
  by (simp add: marks_def)

lemma drops_balance:
  "drops k t xs + of_bool (pending k (tracker_run t xs)) \<le> marks k xs + of_bool (pending k t)"
proof (induction xs arbitrary: t)
  case Nil
  then show ?case by simp
next
  case (Cons x xs)
  from Cons.IH [of "snd (tracker_step t x)"] step_balance [of k t x]
  show ?case by (simp only: drops.simps tracker_run.simps marks_Cons)
qed

text \<open>Where an entry comes from: the last mark of its key, with no deletion seen since.\<close>

fun is_delete :: "string \<Rightarrow> tracker_op \<Rightarrow> bool" where
  "is_delete k (MarkOp _ _) = False"
| "is_delete k (FilterOp oper obj _) =
     (oper = OpDelete \<and> map_option tracker_key (meta obj) = Some k)"

lemma step_entry_kept:
  assumes "entries (snd (tracker_step t x)) k = Some e" and "\<not> is_mark k x"
  shows "entries t k = Some e" and "\<not> is_delete k x"
  using assms
  by (cases x; auto simp: tracker_Mark_def tracker_Filter_def split: option.splits if_splits)+

lemma step_entry_marked:
  assumes "entries (snd (tracker_step t x)) k = Some e" and "is_mark k x"
  obtains m tm where "x = MarkOp (Some m) tm" and "tracker_key m = k"
    and "e = \<lparr>entry_version = meta_version m, entry_timestamp = tm\<rparr>"
  using assms by (cases x) (auto simp: tracker_Mark_def split: option.splits)

lemma entry_origin:
  assumes "entries (tracker_run t xs) k = Some e" and "entries t k = None"
  shows "\<exists>pre m tm post. xs = pre @ MarkOp (Some m) tm # post \<and> tracker_key m = k \<and>
    e = \<lparr>entry_version = meta_version m, entry_timestamp = tm\<rparr> \<and>
    list_all (\<lambda>x. \<not> is_mark k x \<and> \<not> is_delete k x) post"
  using assms(1)
proof (induction xs rule: rev_induct)
  case Nil
  with assms(2) show ?case by simp
next
  case (snoc x xs)
  then have entry: "entries (snd (tracker_step (tracker_run t xs) x)) k = Some e"
    by (simp add: tracker_run_append)
  show ?case
  proof (cases "is_mark k x")
    case True
    from step_entry_marked [OF entry True] obtain m tm where
      "x = MarkOp (Some m) tm" "tracker_key m = k"
      "e = \<lparr>entry_version = meta_version m, entry_timestamp = tm\<rparr>" .
    then show ?thesis by (intro exI [of _ xs] exI [of _ m] exI [of _ tm] exI [of _ "[]"]) simp
  next
    case False
    from step_entry_kept [OF entry False] snoc.IH obtain pre m tm post where
      "xs = pre @ MarkOp (Some m) tm # post" "tracker_key m = k"
      "e = \<lparr>entry_version = meta_version m, entry_timestamp = tm\<rparr>"
      "list_all (\<lambda>x. \<not> is_mark k x \<and> \<not> is_delete k x) (post @ [x])"
      using False by auto
    then show ?thesis by (intro exI [of _ pre] exI [of _ m] exI [of _ tm] exI [of _ "post @ [x]"]) simp
  qed
qed

lemma tracker_Filter_False:
  "\<not> fst (tracker_Filter oper obj clock t) \<longleftrightarrow>
     oper = OpUpdate \<and>
     (\<exists>m e. meta obj = Some m \<and> entries t (tracker_key m) = Some e \<and>
        time_since clock (entry_timestamp e) \<le> ttl t \<and> entry_version e = meta_version m)"
  by (auto simp: tracker_Filter_def split: option.splits)

text \<open>
  The operations that leave the entry of a marked write in place: everything on other keys,
  and on its own key an event that is no deletion and either no update, or an unexpired
  update to another version.
\<close>

fun keeps :: "object_meta \<Rightarrow> time \<Rightarrow> duration \<Rightarrow> tracker_op \<Rightarrow> bool" where
  "keeps m tm lim (MarkOp obj _) = (map_option tracker_key obj \<noteq> Some (tracker_key m))"
| "keeps m tm lim (FilterOp oper obj clock) =
     (case meta obj of
        None \<Rightarrow> True
      | Some m' \<Rightarrow> tracker_key m' \<noteq> tracker_key m \<or>
          (if oper = OpUpdate then time_since clock tm \<le> lim \<and> meta_version m' \<noteq> meta_version m
           else oper \<noteq> OpDelete))"

definition entry_of :: "object_meta \<Rightarrow> time \<Rightarrow> selfWriteEntry" where
  "entry_of m tm = \<lparr>entry_version = meta_version m, entry_timestamp = tm\<rparr>"

lemma step_keeps:
  assumes "entries t (tracker_key m) = Some (entry_of m tm)"
  shows "entries (snd (tracker_step t x)) (tracker_key m) = Some (entry_of m tm) \<longleftrightarrow>
    keeps m tm (ttl t) x \<or> x = MarkOp (Some m) tm \<or>
    (\<exists>m'. x = MarkOp (Some m') tm \<and> tracker_key m' = tracker_key m \<and> meta_version m' = meta_version m)"
  using assms
  by (cases x)
    (auto simp: tracker_Mark_def tracker_Filter_def entry_of_def split: option.splits if_splits)

lemma run_keeps:
  assumes "entries t (tracker_key m) = Some (entry_of m tm)" and "list_all (keeps m tm (ttl t)) xs"
  shows "entries (tracker_run t xs) (tracker_key m) = Some (entry_of m tm)"
  using assms
proof (induction xs arbitrary: t)
  case (Cons x xs)
  then have "entries (snd (tracker_step t x)) (tracker_key m) = Some (entry_of m tm)"
    by (subst step_keeps) auto
  with Cons show ?case by simp
qed simp

subsection \<open>Properties\<close>

text \<open>
  C1. The tracker only drops echoes: whenever, after any history of calls on a new tracker,
  \<open>Filter\<close> drops an event, the event is an update and the history holds a mark with the
  same key and resource version, not older than the tracker's time to live, that no later
  mark of the key replaced and no deletion of the key cleared.
\<close>

theorem tracker_drop_justified:
  assumes "\<not> fst (tracker_Filter oper obj clock (tracker_run (NewSelfWriteTracker d) xs))"
  shows "oper = OpUpdate \<and>
    (\<exists>m m' pre tm post. meta obj = Some m \<and> xs = pre @ MarkOp (Some m') tm # post \<and>
       tracker_key m' = tracker_key m \<and> meta_version m' = meta_version m \<and>
       time_since clock tm \<le> (if d \<le> 0 then 5 * minute else d) \<and>
       list_all (\<lambda>x. \<not> is_mark (tracker_key m) x \<and> \<not> is_delete (tracker_key m) x) post)"
proof -
  let ?t = "NewSelfWriteTracker d"
  from assms obtain m e where oper: "oper = OpUpdate" and m: "meta obj = Some m"
    and e: "entries (tracker_run ?t xs) (tracker_key m) = Some e"
    and age: "time_since clock (entry_timestamp e) \<le> ttl ?t"
    and ver: "entry_version e = meta_version m"
    by (auto simp: tracker_Filter_False)
  have "entries ?t (tracker_key m) = None" by (simp add: NewSelfWriteTracker_def)
  from entry_origin [OF e this] obtain pre m' tm post where
    "xs = pre @ MarkOp (Some m') tm # post" "tracker_key m' = tracker_key m"
    "e = \<lparr>entry_version = meta_version m', entry_timestamp = tm\<rparr>"
    "list_all (\<lambda>x. \<not> is_mark (tracker_key m) x \<and> \<not> is_delete (tracker_key m) x) post" by blast
  moreover have "ttl ?t = (if d \<le> 0 then 5 * minute else d)" by (simp add: NewSelfWriteTracker_def)
  ultimately show ?thesis using oper m age ver
    by (intro conjI exI [of _ m] exI [of _ m'] exI [of _ pre] exI [of _ tm] exI [of _ post]) simp_all
qed

text \<open>
  C24. One mark pays for at most one dropped event: over any history of calls on a new
  tracker, the events dropped for a key are no more than the marks of that key.
\<close>

theorem tracker_drops_bounded: "drops k (NewSelfWriteTracker d) xs \<le> marks k xs"
  using drops_balance [of k "NewSelfWriteTracker d" xs]
  by (simp add: pending_def NewSelfWriteTracker_def split: if_splits)

text \<open>
  An echo is dropped exactly once: after a mark, and after any calls that touch other
  keys, add the resource or report unexpired updates to other versions, the update event
  with the marked version is dropped if it comes within the time to live, and the same
  event passes when it is delivered again.
\<close>

lemma tracker_echo_dropped_once:
  assumes "meta obj = Some m'" and "tracker_key m' = tracker_key m"
    and "meta_version m' = meta_version m"
    and "list_all (keeps m tm (ttl t)) xs" and "time_since clock tm \<le> ttl t"
  shows "(let t' = tracker_run t (MarkOp (Some m) tm # xs);
              (pass, t'') = tracker_Filter OpUpdate obj clock t'
          in \<not> pass \<and> fst (tracker_Filter OpUpdate obj clock' t''))"
proof -
  let ?t = "snd (tracker_step t (MarkOp (Some m) tm))"
  have "entries ?t (tracker_key m) = Some (entry_of m tm)" by (simp add: tracker_Mark_def entry_of_def)
  moreover have "list_all (keeps m tm (ttl ?t)) xs" using assms(4) by (simp add: tracker_Mark_def)
  ultimately have "entries (tracker_run ?t xs) (tracker_key m) = Some (entry_of m tm)"
    by (rule run_keeps)
  with assms show ?thesis by (simp add: tracker_Filter_def entry_of_def)
qed

text \<open>
  C40. Two resources share a tracker entry exactly if namespace and name agree, for
  namespaces without the separating slash.
\<close>

theorem tracker_key_injective:
  assumes "CHR ''/'' \<notin> set (meta_namespace m)" and "CHR ''/'' \<notin> set (meta_namespace m')"
  shows "tracker_key m = tracker_key m' \<longleftrightarrow>
    meta_namespace m = meta_namespace m' \<and> meta_name m = meta_name m'"
  using assms by (rule tracker_key_eq_iff)

text \<open>
  The time to live is only looked at when an update of the key arrives: over any history
  without an operation on a key, whatever the times in it, the tracker keeps the key's entry.
  Entries are never swept, so an entry whose resource sees no further event stays.
\<close>

lemma tracker_entry_never_swept:
  assumes "list_all (\<lambda>x. \<not> concerns k x) xs"
  shows "entries (tracker_run t xs) k = entries t k"
  using assms by (induction xs arbitrary: t) (auto simp: entries_step_other)

subsection \<open>Witnesses\<close>

lemma meta_example_pod [simp]: "meta (example_pod name ver) = Some (example_meta name ver)"
  by (simp add: meta_def example_pod_def)

lemma tracker_key_example: "tracker_key (example_meta name ver) = ''default/'' @ name"
  by (simp add: tracker_key_def example_meta_def)

theorem tracker_drop_justified_witness:
  "\<exists>m m' pre tm post. meta (example_pod ''web'' ''7'') = Some m \<and>
     [MarkOp (Some (example_meta ''web'' ''7'')) 10] = pre @ MarkOp (Some m') tm # post \<and>
     tracker_key m' = tracker_key m \<and> meta_version m' = meta_version m \<and>
     time_since 20 tm \<le> 5 * minute"
proof -
  have "\<not> fst (tracker_Filter OpUpdate (example_pod ''web'' ''7'') 20
      (tracker_run (NewSelfWriteTracker 0) [MarkOp (Some (example_meta ''web'' ''7'')) 10]))"
    by (simp add: tracker_Filter_def tracker_Mark_def NewSelfWriteTracker_def time_since_def
        time_sub_def min_duration_def max_duration_def minute_def second_def)
  from tracker_drop_justified [OF this] show ?thesis by auto
qed

lemma tracker_echo_dropped_once_witness:
  "let t' = tracker_run (NewSelfWriteTracker second)
         [MarkOp (Some (example_meta ''web'' ''7'')) 10, FilterOp OpUpdate (example_pod ''web'' ''6'') 12];
       (pass, t'') = tracker_Filter OpUpdate (example_pod ''web'' ''7'') 20 t'
   in \<not> pass \<and> fst (tracker_Filter OpUpdate (example_pod ''web'' ''7'') 21 t'')"
  by (rule tracker_echo_dropped_once [of _ "example_meta ''web'' ''7''"])
    (simp_all add: NewSelfWriteTracker_def time_since_def
        time_sub_def min_duration_def max_duration_def second_def)

theorem tracker_key_injective_witness:
  "tracker_key (example_meta ''a'' ''1'') \<noteq> tracker_key (example_meta ''b'' ''1'')"
  using tracker_key_injective [of "example_meta ''a'' ''1''" "example_meta ''b'' ''1''"]
  by (simp add: example_meta_def)

end
