(* ===== verification/Recorders.thy ===== *)
theory Recorders
  imports Complex_Main Self_Write_Tracker
begin

section \<open>Metrics: \<open>controller/recorder.go\<close>\<close>

text \<open>
  The recorder counts queued events and measures how long events wait and how long they
  are processed. The Prometheus client is foreign code: what the recorder does to it is
  the list of calls \<open>prom\<close> in the state, and whether a registerer rejects a collector is
  the argument \<open>rejects\<close> (the error it gives, \<open>None\<close> for success) of the definitions that
  register. Durations are kept in nanoseconds, bucket bounds as rational numbers; the
  rounding of \<open>float64\<close> is not modelled. The \<open>Recorder\<close> interface is the record
  \<open>recorder_ops\<close> over a program state.
\<close>

subsection \<open>The interface\<close>

record 's recorder_ops =
  rec_AddEvent :: "string \<Rightarrow> bool \<Rightarrow> 's \<Rightarrow> 's"
  rec_GetEvent :: "string \<Rightarrow> time \<Rightarrow> 's \<Rightarrow> 's"
  rec_DoneEvent :: "string \<Rightarrow> bool \<Rightarrow> time \<Rightarrow> 's \<Rightarrow> 's"
  rec_RegisterLen :: "string \<Rightarrow> 's \<Rightarrow> (go_arg, 's) outcome"

subsection \<open>Configuration\<close>

record RecorderConfig =
  rc_Namespace :: string
  rc_Subsystem :: string
  rc_QueueBuckets :: "rat list"
  rc_ProcessBuckets :: "rat list"

definition default_queue_buckets :: "rat list" where
  "default_queue_buckets =
     [1/100, 5/100, 1/10, 25/100, 5/10, 1, 3, 10, 20, 60, 150, 300]"

definition default_process_buckets :: "rat list" where
  "default_process_buckets =
     [5/1000, 1/100, 25/1000, 5/100, 1/10, 25/100, 5/10, 1, 25/10, 5, 10, 30]"

definition defaults :: "RecorderConfig \<Rightarrow> RecorderConfig" where
  "defaults c =
     (let c1 = (if rc_QueueBuckets c = [] then c\<lparr>rc_QueueBuckets := default_queue_buckets\<rparr> else c)
      in if rc_ProcessBuckets c1 = [] then c1\<lparr>rc_ProcessBuckets := default_process_buckets\<rparr> else c1)"

subsection \<open>Collectors and the registry\<close>

datatype metric_kind = Counter | Histogram "rat list" | GaugeFunc

record collector =
  c_kind :: metric_kind
  c_namespace :: string
  c_subsystem :: string
  c_name :: string
  c_help :: string
  c_labels :: "string list"
  c_const :: "(string \<times> string) list"

text \<open>\<open>WithLabelValues(...).Inc()\<close> and \<open>WithLabelValues(...).Observe(...)\<close>.\<close>

datatype prom_call =
    Inc collector "string list"
  | Observe collector "string list" duration

record recorder_world = filter_world +
  prom :: "prom_call list"
  collectors :: "collector list"
  client_once :: bool
  client_metrics :: "(collector \<times> collector \<times> collector \<times> collector) option"

definition prom_do :: "prom_call \<Rightarrow> 'z recorder_world_scheme \<Rightarrow> 'z recorder_world_scheme" where
  "prom_do c w = w\<lparr>prom := prom w @ [c]\<rparr>"

text \<open>
  \<open>MustRegister\<close> registers one collector after the other and panics with the error of
  the first that is rejected; the ones before it stay registered.
\<close>

type_synonym registerer = "collector list \<Rightarrow> collector \<Rightarrow> err option"

fun MustRegister ::
  "registerer \<Rightarrow> collector list \<Rightarrow> 'z recorder_world_scheme \<Rightarrow> err option \<times> 'z recorder_world_scheme" where
  "MustRegister rejects [] w = (None, w)"
| "MustRegister rejects (c # cs) w =
     (case rejects (collectors w) c of
        Some e \<Rightarrow> (Some e, w)
      | None \<Rightarrow> MustRegister rejects cs (w\<lparr>collectors := collectors w @ [c]\<rparr>))"

subsection \<open>The default recorder\<close>

record DefaultRecorder =
  dr_namespace :: string
  dr_subsystem :: string
  dr_events :: collector
  dr_queue :: collector
  dr_process :: collector

definition counter_vec :: "RecorderConfig \<Rightarrow> string \<Rightarrow> string \<Rightarrow> string list \<Rightarrow> collector" where
  "counter_vec config name help labels =
     \<lparr>c_kind = Counter, c_namespace = rc_Namespace config, c_subsystem = rc_Subsystem config,
      c_name = name, c_help = help, c_labels = labels, c_const = []\<rparr>"

definition histogram_vec ::
  "RecorderConfig \<Rightarrow> string \<Rightarrow> string \<Rightarrow> rat list \<Rightarrow> string list \<Rightarrow> collector" where
  "histogram_vec config name help buckets labels =
     \<lparr>c_kind = Histogram buckets, c_namespace = rc_Namespace config,
      c_subsystem = rc_Subsystem config, c_name = name, c_help = help, c_labels = labels, c_const = []\<rparr>"

definition recorder_of :: "RecorderConfig \<Rightarrow> DefaultRecorder" where
  "recorder_of config =
     \<lparr>dr_namespace = rc_Namespace config, dr_subsystem = rc_Subsystem config,
      dr_events = counter_vec config ''queued_events_total'' ''Total number of events queued.''
        [''controller'', ''requeue''],
      dr_queue = histogram_vec config ''event_in_queue_duration_seconds''
        ''Duration of an event in the queue.'' (rc_QueueBuckets config) [''controller''],
      dr_process = histogram_vec config ''processed_event_duration_seconds''
        ''Duration of an event to be processed.'' (rc_ProcessBuckets config)
        [''controller'', ''success'']\<rparr>"

definition NewRecorder ::
  "registerer \<Rightarrow> RecorderConfig \<Rightarrow> 'z recorder_world_scheme
     \<Rightarrow> (go_arg, DefaultRecorder) outcome \<times> 'z recorder_world_scheme" where
  "NewRecorder rejects config w =
     (let r = recorder_of (defaults config)
      in case MustRegister rejects [dr_events r, dr_queue r, dr_process r] w of
           (Some e, w') \<Rightarrow> (Panic (AErr e), w')
         | (None, w') \<Rightarrow> (Ret r, w'))"

definition FormatBool :: "bool \<Rightarrow> string" where
  "FormatBool b = (if b then ''true'' else ''false'')"

definition AddEvent ::
  "DefaultRecorder \<Rightarrow> string \<Rightarrow> bool \<Rightarrow> 'z recorder_world_scheme \<Rightarrow> 'z recorder_world_scheme" where
  "AddEvent r name isRequeue w = prom_do (Inc (dr_events r) [name, FormatBool isRequeue]) w"

definition GetEvent ::
  "DefaultRecorder \<Rightarrow> string \<Rightarrow> time \<Rightarrow> 'z recorder_world_scheme \<Rightarrow> 'z recorder_world_scheme" where
  "GetEvent r name queued_at w =
     prom_do (Observe (dr_queue r) [name] (time_since (now w) queued_at)) w"

definition DoneEvent ::
  "DefaultRecorder \<Rightarrow> string \<Rightarrow> bool \<Rightarrow> time \<Rightarrow> 'z recorder_world_scheme \<Rightarrow> 'z recorder_world_scheme" where
  "DoneEvent r name success start w =
     prom_do (Observe (dr_process r) [name, FormatBool success] (time_since (now w) start)) w"

definition len_gauge :: "DefaultRecorder \<Rightarrow> string \<Rightarrow> collector" where
  "len_gauge r controller =
     \<lparr>c_kind = GaugeFunc, c_namespace = dr_namespace r, c_subsystem = dr_subsystem r,
      c_name = ''event_queue_length'', c_help = ''Length of the controller resource queue.'',
      c_labels = [], c_const = [(''controller'', controller)]\<rparr>"

definition RegisterLen ::
  "registerer \<Rightarrow> DefaultRecorder \<Rightarrow> string \<Rightarrow> 'z recorder_world_scheme
     \<Rightarrow> (go_arg, 'z recorder_world_scheme) outcome" where
  "RegisterLen rejects r controller w =
     (case MustRegister rejects [len_gauge r controller] w of
        (Some e, _) \<Rightarrow> Panic (AErr e)
      | (None, w') \<Rightarrow> Ret w')"

definition default_recorder ::
  "registerer \<Rightarrow> DefaultRecorder \<Rightarrow> 'z recorder_world_scheme recorder_ops" where
  "default_recorder rejects r =
     \<lparr>rec_AddEvent = AddEvent r, rec_GetEvent = GetEvent r, rec_DoneEvent = DoneEvent r,
      rec_RegisterLen = RegisterLen rejects r\<rparr>"

subsection \<open>Metrics of the Kubernetes client\<close>

definition clientLatency :: "RecorderConfig \<Rightarrow> string \<Rightarrow> string \<Rightarrow> collector" where
  "clientLatency config name help =
     histogram_vec config name help (rc_ProcessBuckets config) [''verb'', ''host'']"

definition clientResult :: "RecorderConfig \<Rightarrow> string \<Rightarrow> string \<Rightarrow> collector" where
  "clientResult config name help = counter_vec config name help [''code'', ''method'', ''host'']"

definition registerClientMetrics ::
  "registerer \<Rightarrow> RecorderConfig \<Rightarrow> 'z recorder_world_scheme
     \<Rightarrow> (go_arg, unit) outcome \<times> 'z recorder_world_scheme" where
  "registerClientMetrics rejects config w =
     (let config = defaults config;
          request = clientLatency config ''request_duration'' ''Duration of a request to the API server.'';
          throttle = clientLatency config ''throttle_duration''
            ''Duration a request is delayed by the client side rate limiter.'';
          result = clientResult config ''requests_total'' ''Total number of requests to the API server.'';
          retry = clientResult config ''retries_total''
            ''Total number of requests retried against the API server.''
      in case MustRegister rejects [request, throttle, result, retry] w of
           (Some e, w') \<Rightarrow> (Panic (AErr e), w')
         | (None, w') \<Rightarrow>
             (Ret (), w'\<lparr>client_metrics := Some (request, throttle, result, retry)\<rparr>))"

text \<open>
  \<open>sync.Once\<close> counts the call as done also when the function panics. The error is
  allocated before the \<open>Once\<close> is asked.
\<close>

definition RegisterClientMetrics ::
  "registerer \<Rightarrow> RecorderConfig \<Rightarrow> 'z recorder_world_scheme
     \<Rightarrow> (go_arg, err option) outcome \<times> 'z recorder_world_scheme" where
  "RegisterClientMetrics rejects config w =
     (case alloc w of (a, w1) \<Rightarrow>
        let err = Error_New a ErrController ''client metrics already registered'' []
        in if client_once w1 then (Ret (Some err), w1)
           else case registerClientMetrics rejects config (w1\<lparr>client_once := True\<rparr>) of
                  (Panic p, w2) \<Rightarrow> (Panic p, w2)
                | (Ret _, w2) \<Rightarrow> (Ret None, w2))"

definition latencyMetric_Observe ::
  "collector \<Rightarrow> string \<Rightarrow> string \<Rightarrow> duration \<Rightarrow> 'z recorder_world_scheme \<Rightarrow> 'z recorder_world_scheme" where
  "latencyMetric_Observe metric verb url_host latency w = prom_do (Observe metric [verb, url_host] latency) w"

definition resultMetric_Increment ::
  "collector \<Rightarrow> string \<Rightarrow> string \<Rightarrow> string \<Rightarrow> 'z recorder_world_scheme \<Rightarrow> 'z recorder_world_scheme" where
  "resultMetric_Increment metric code verb host w = prom_do (Inc metric [code, verb, host]) w"

definition resultMetric_IncrementRetry ::
  "collector \<Rightarrow> string \<Rightarrow> string \<Rightarrow> string \<Rightarrow> 'z recorder_world_scheme \<Rightarrow> 'z recorder_world_scheme" where
  "resultMetric_IncrementRetry metric code verb host w = prom_do (Inc metric [code, verb, host]) w"

lemmas recorder_defs [unfold_ops] =
  default_recorder_def AddEvent_def GetEvent_def DoneEvent_def RegisterLen_def prom_do_def

subsection \<open>The contract of a recorder\<close>

text \<open>
  What the queues and the processor rely on: recording an event only makes calls to the
  metrics client, and registering the length of a queue only adds collectors.
\<close>

locale recorder_contract =
  fixes r :: "'z recorder_world_scheme recorder_ops"
  assumes AddEvent_only: "rec_AddEvent r name b w = w\<lparr>prom := prom (rec_AddEvent r name b w)\<rparr>"
    and GetEvent_only: "rec_GetEvent r name t w = w\<lparr>prom := prom (rec_GetEvent r name t w)\<rparr>"
    and DoneEvent_only: "rec_DoneEvent r name b t w = w\<lparr>prom := prom (rec_DoneEvent r name b t w)\<rparr>"
    and RegisterLen_only: "rec_RegisterLen r name w = Ret w' \<Longrightarrow> w' = w\<lparr>collectors := collectors w'\<rparr>"
begin

lemma event_frame:
  "now (rec_AddEvent r name b w) = now w" "next_addr (rec_AddEvent r name b w) = next_addr w"
  "trackers (rec_AddEvent r name b w) = trackers w"
  "recorder_world.more (rec_AddEvent r name b w) = recorder_world.more w"
  "now (rec_GetEvent r name t w) = now w" "next_addr (rec_GetEvent r name t w) = next_addr w"
  "trackers (rec_GetEvent r name t w) = trackers w"
  "recorder_world.more (rec_GetEvent r name t w) = recorder_world.more w"
  "now (rec_DoneEvent r name b t w) = now w" "next_addr (rec_DoneEvent r name b t w) = next_addr w"
  "trackers (rec_DoneEvent r name b t w) = trackers w"
  "recorder_world.more (rec_DoneEvent r name b t w) = recorder_world.more w"
  by (subst AddEvent_only GetEvent_only DoneEvent_only, simp)+

end

lemma MustRegister_only:
  "w' = snd (MustRegister rejects cs w) \<Longrightarrow> w' = w\<lparr>collectors := collectors w'\<rparr>"
  by (induction rejects cs w arbitrary: w' rule: MustRegister.induct) (auto split: option.splits)

interpretation default_rec: recorder_contract "default_recorder rejects r" for rejects r
proof
  fix name w w'
  assume "rec_RegisterLen (default_recorder rejects r) name w = Ret w'"
  then have "w' = snd (MustRegister rejects [len_gauge r name] w)"
    by (auto simp: default_recorder_def RegisterLen_def split: prod.splits option.splits)
  then show "w' = w\<lparr>collectors := collectors w'\<rparr>" by (rule MustRegister_only)
qed (simp_all add: recorder_defs)

subsection \<open>Runs of a recorder\<close>

datatype rec_event = EvAdd string bool | EvGet string time | EvDone string bool time

fun rec_do :: "'s recorder_ops \<Rightarrow> rec_event \<Rightarrow> 's \<Rightarrow> 's" where
  "rec_do r (EvAdd name b) w = rec_AddEvent r name b w"
| "rec_do r (EvGet name t) w = rec_GetEvent r name t w"
| "rec_do r (EvDone name b t) w = rec_DoneEvent r name b t w"

text \<open>The call each event should make on the recorder's collectors, and label arity.\<close>

fun rec_call :: "DefaultRecorder \<Rightarrow> time \<Rightarrow> rec_event \<Rightarrow> prom_call" where
  "rec_call r clock (EvAdd name b) = Inc (dr_events r) [name, FormatBool b]"
| "rec_call r clock (EvGet name t) = Observe (dr_queue r) [name] (time_since clock t)"
| "rec_call r clock (EvDone name b t) =
     Observe (dr_process r) [name, FormatBool b] (time_since clock t)"

fun call_fits :: "prom_call \<Rightarrow> bool" where
  "call_fits (Inc c vs) = (c_kind c = Counter \<and> length vs = length (c_labels c))"
| "call_fits (Observe c vs d) =
     ((\<exists>b. c_kind c = Histogram b) \<and> length vs = length (c_labels c))"

lemma NewRecorder_Ret:
  "fst (NewRecorder rejects config w) = Ret r \<Longrightarrow> r = recorder_of (defaults config)"
  by (auto simp: NewRecorder_def Let_def split: prod.splits option.splits)

lemma call_fits_recorder_of: "call_fits (rec_call (recorder_of config) clock ev)"
  by (cases ev) (simp_all add: recorder_of_def counter_vec_def histogram_vec_def)

lemma fold_rec_do:
  "fold (rec_do (default_recorder rejects r)) evs w =
     w\<lparr>prom := prom w @ map (rec_call r (now w)) evs\<rparr>"
proof (induction evs arbitrary: w)
  case (Cons ev evs)
  then show ?case by (cases ev) (simp_all add: recorder_defs)
qed simp

subsection \<open>Distinct collectors\<close>

text \<open>
  Prometheus on registering: among collectors of one namespace and subsystem, one is
  rejected exactly if a registered one has the same name and the same constant labels.
\<close>

definition rejects_duplicates :: "registerer \<Rightarrow> bool" where
  "rejects_duplicates rejects \<longleftrightarrow>
     (\<forall>cs c. list_all (\<lambda>c'. c_namespace c' = c_namespace c \<and> c_subsystem c' = c_subsystem c) cs \<longrightarrow>
        (rejects cs c = None \<longleftrightarrow> list_all (\<lambda>c'. (c_name c', c_const c') \<noteq> (c_name c, c_const c)) cs))"

lemma rejects_None:
  assumes "rejects_duplicates rejects"
    and "list_all (\<lambda>c'. c_namespace c' = c_namespace c \<and> c_subsystem c' = c_subsystem c) cs"
    and "list_all (\<lambda>c'. (c_name c', c_const c') \<noteq> (c_name c, c_const c)) cs"
  shows "rejects cs c = None"
  using assms(1) [unfolded rejects_duplicates_def, rule_format, OF assms(2)] assms(3) by (rule iffD2)

lemma rejects_Some:
  assumes "rejects_duplicates rejects"
    and "list_all (\<lambda>c'. c_namespace c' = c_namespace c \<and> c_subsystem c' = c_subsystem c) cs"
    and "\<not> list_all (\<lambda>c'. (c_name c', c_const c') \<noteq> (c_name c, c_const c)) cs"
  shows "\<exists>e. rejects cs c = Some e"
  using assms(1) [unfolded rejects_duplicates_def, rule_format, OF assms(2)] assms(3)
  by (cases "rejects cs c") simp_all


lemma defaults_simps [simp]:
  "rc_Namespace (defaults c) = rc_Namespace c" "rc_Subsystem (defaults c) = rc_Subsystem c"
  "rc_QueueBuckets (defaults c) =
     (if rc_QueueBuckets c = [] then default_queue_buckets else rc_QueueBuckets c)"
  "rc_ProcessBuckets (defaults c) =
     (if rc_ProcessBuckets c = [] then default_process_buckets else rc_ProcessBuckets c)"
  by (simp_all add: defaults_def Let_def)

lemma default_buckets_sorted:
  "sorted_wrt (<) default_queue_buckets" "sorted_wrt (<) default_process_buckets"
  "default_queue_buckets \<noteq> []" "default_process_buckets \<noteq> []"
  by (simp_all add: default_queue_buckets_def default_process_buckets_def)



lemma collectors_alloc [simp]:
  "collectors (snd (alloc w)) = collectors w" "client_metrics (snd (alloc w)) = client_metrics w"
  by (simp_all add: alloc_def)

subsection \<open>Properties\<close>

text \<open>
  C36. A recorder made by \<open>NewRecorder\<close> turns every sequence of recorded events into exactly
  one call each, in order and on the collector of its kind, with as many label values as the
  collector declares labels (so \<open>WithLabelValues\<close> cannot panic), and touches nothing else.
\<close>

theorem recorder_calls_exact:
  assumes "fst (NewRecorder rejects config w) = Ret r"
  shows "fold (rec_do (default_recorder rejects r)) evs w' =
      w'\<lparr>prom := prom w' @ map (rec_call r (now w')) evs\<rparr> \<and>
    list_all call_fits (map (rec_call r (now w')) evs)"
  using NewRecorder_Ret [OF assms]
  by (simp add: fold_rec_do list_all_iff call_fits_recorder_of)

text \<open>
  Filling in the defaults always gives non-empty bucket lists, keeps what the user set,
  never turns an ascending list into one that is not (Prometheus panics on those), and does
  nothing the second time.
\<close>

lemma recorder_defaults:
  "rc_QueueBuckets (defaults c) \<noteq> [] \<and> rc_ProcessBuckets (defaults c) \<noteq> [] \<and>
   sorted_wrt (<) (rc_QueueBuckets (defaults c)) = sorted_wrt (<) (rc_QueueBuckets c) \<and>
   sorted_wrt (<) (rc_ProcessBuckets (defaults c)) = sorted_wrt (<) (rc_ProcessBuckets c) \<and>
   defaults (defaults c) = defaults c"
  using default_buckets_sorted by (simp add: defaults_def Let_def)


text \<open>
  The collectors of one configuration do not collide: on an empty registry that rejects
  duplicates only, making a recorder, registering the lengths of two queues with different
  names and installing the client metrics all succeed, while registering a queue name a
  second time panics.
\<close>

lemma collectors_distinct:
  assumes "rejects_duplicates rejects" and "collectors w = []" and "\<not> client_once w" and "n1 \<noteq> n2"
  shows "(case NewRecorder rejects config w of (res, w1) \<Rightarrow>
     (\<exists>r w2 w3. res = Ret r \<and> RegisterLen rejects r n1 w1 = Ret w2 \<and> RegisterLen rejects r n2 w2 = Ret w3 \<and>
        panics (RegisterLen rejects r n1 w3) \<and>
        fst (RegisterClientMetrics rejects config w3) = Ret None))"
proof -
  let ?r = "recorder_of (defaults config)"
  let ?cs = "[dr_events ?r, dr_queue ?r, dr_process ?r, len_gauge ?r n1, len_gauge ?r n2]"
  note None = rejects_None [OF assms(1)] and Some = rejects_Some [OF assms(1)]
  note cdefs = recorder_of_def counter_vec_def histogram_vec_def len_gauge_def
    clientLatency_def clientResult_def
  have new: "NewRecorder rejects config w = (Ret ?r, w\<lparr>collectors := take 3 ?cs\<rparr>)"
    using assms(2) by (simp add: NewRecorder_def Let_def None cdefs)
  have len1: "RegisterLen rejects ?r n1 (w\<lparr>collectors := take 3 ?cs\<rparr>) = Ret (w\<lparr>collectors := take 4 ?cs\<rparr>)"
    by (simp add: RegisterLen_def None cdefs)
  have len2: "RegisterLen rejects ?r n2 (w\<lparr>collectors := take 4 ?cs\<rparr>) = Ret (w\<lparr>collectors := ?cs\<rparr>)"
    using assms(4) by (simp add: RegisterLen_def None cdefs)
  have "\<exists>e. rejects ?cs (len_gauge ?r n1) = Some e"
    by (rule Some) (simp_all add: cdefs)
  then have again: "panics (RegisterLen rejects ?r n1 (w\<lparr>collectors := ?cs\<rparr>))"
    by (auto simp: RegisterLen_def)
  have "fst (RegisterClientMetrics rejects config (w\<lparr>collectors := ?cs\<rparr>)) = Ret None"
    using assms(3) by (simp add: RegisterClientMetrics_def registerClientMetrics_def Let_def alloc_def None cdefs)
  with new len1 len2 again show ?thesis by auto
qed

subsection \<open>Witnesses\<close>

text \<open>A registry that keeps what it accepted and rejects duplicates, and a fresh state.\<close>

definition duplicates_only :: registerer where
  "duplicates_only cs c =
     (if list_ex (\<lambda>c'. c_name c' = c_name c \<and> c_const c' = c_const c) cs
      then Some (ErrorString 80 ''duplicate metrics collector registration attempted'') else None)"

definition example_tracker :: SelfWriteTracker where
  "example_tracker = NewSelfWriteTracker 0"

definition fresh_recorder_world :: recorder_world where
  "fresh_recorder_world =
     \<lparr>now = 0, next_addr = 100, trackers = (\<lambda>_. example_tracker), prom = [], collectors = [],
      client_once = False, client_metrics = None\<rparr>"

definition example_config :: RecorderConfig where
  "example_config =
     \<lparr>rc_Namespace = ''kube'', rc_Subsystem = ''ctrl'', rc_QueueBuckets = [], rc_ProcessBuckets = [1, 2]\<rparr>"

lemma duplicates_only_lawful: "rejects_duplicates duplicates_only"
  by (auto simp: rejects_duplicates_def duplicates_only_def list_ex_iff list_all_iff)

lemma NewRecorder_example:
  "fst (NewRecorder duplicates_only example_config fresh_recorder_world) = Ret (recorder_of (defaults example_config))"
  by (simp add: NewRecorder_def Let_def duplicates_only_def fresh_recorder_world_def recorder_of_def
      counter_vec_def histogram_vec_def)

theorem recorder_calls_exact_witness:
  "length (prom (fold (rec_do (default_recorder duplicates_only (recorder_of (defaults example_config))))
     [EvAdd ''q'' False, EvGet ''q'' 0] fresh_recorder_world)) = 2"
  using recorder_calls_exact [OF NewRecorder_example, of "[EvAdd ''q'' False, EvGet ''q'' 0]" fresh_recorder_world]
  by (simp add: fresh_recorder_world_def)


end
