(* ===== verification/Queues.thy ===== *)
theory Queues
  imports Recorders
begin

section \<open>Work queues: \<open>controller/queue.go\<close>\<close>

text \<open>
  \<open>RetryQueue\<close> bounds the retries of an item on top of client-go's rate limiting queue,
  \<open>MonitorQueue\<close> embeds any queue and records metrics around it. client-go's queue is
  the argument \<open>wq\<close>, a record of its operations over a state of its own; operations that
  read the clock get the time, and \<open>wq_Get\<close>, which blocks, returns the time it waited and
  the state of the queue when it returns (\<open>None\<close> if it never does). Queues are pointers:
  the program state maps addresses to client-go queues (\<open>wqs\<close>) and to the \<open>time\<close> maps of
  monitor queues (\<open>queued\<close>). The \<open>Queue\<close> interface is the record \<open>queue_ops\<close>; that
  \<open>MonitorQueue\<close> embeds \<open>Queue\<close> and overrides four methods is a record update.
\<close>

subsection \<open>The foreign queue\<close>

record ('q, 'k) wq_ops =
  wq_Len :: "'q \<Rightarrow> int"
  wq_Add :: "'k \<Rightarrow> 'q \<Rightarrow> 'q"
  wq_AddAfter :: "time \<Rightarrow> 'k \<Rightarrow> duration \<Rightarrow> 'q \<Rightarrow> 'q"
  wq_AddRateLimited :: "time \<Rightarrow> 'k \<Rightarrow> 'q \<Rightarrow> 'q"
  wq_NumRequeues :: "'k \<Rightarrow> 'q \<Rightarrow> int"
  wq_Forget :: "'k \<Rightarrow> 'q \<Rightarrow> 'q"
  wq_Get :: "time \<Rightarrow> 'q \<Rightarrow> (('k \<times> bool) \<times> nat \<times> 'q) option"
  wq_Done :: "'k \<Rightarrow> 'q \<Rightarrow> 'q"
  wq_ShutDown :: "'q \<Rightarrow> 'q"

record ('q, 'k) queue_world = recorder_world +
  wqs :: "addr \<Rightarrow> 'q"
  queued :: "addr \<Rightarrow> 'k \<rightharpoonup> time"

subsection \<open>The interface\<close>

record ('k, 's) queue_ops =
  q_Name :: string
  q_Len :: "'s \<Rightarrow> int"
  q_Add :: "'k \<Rightarrow> 's \<Rightarrow> 's"
  q_AddAfter :: "'k \<Rightarrow> duration \<Rightarrow> 's \<Rightarrow> 's"
  q_Requeue :: "'k \<Rightarrow> 's \<Rightarrow> err option \<times> 's"
  q_Forget :: "'k \<Rightarrow> 's \<Rightarrow> 's"
  q_Get :: "'s \<Rightarrow> (('k \<times> bool) \<times> 's) option"
  q_Done :: "'k \<Rightarrow> 's \<Rightarrow> 's"
  q_ShutDown :: "'s \<Rightarrow> 's"

subsection \<open>The retry queue\<close>

record RetryQueue =
  rq_name :: string
  rq_queue :: addr
  rq_retries :: int

definition on_wq :: "addr \<Rightarrow> ('q \<Rightarrow> 'q) \<Rightarrow> ('q, 'k, 'z) queue_world_scheme \<Rightarrow> ('q, 'k, 'z) queue_world_scheme" where
  "on_wq a f w = w\<lparr>wqs := (wqs w)(a := f (wqs w a))\<rparr>"

definition RetryQueue_Len ::
  "('q, 'k) wq_ops \<Rightarrow> RetryQueue \<Rightarrow> ('q, 'k, 'z) queue_world_scheme \<Rightarrow> int" where
  "RetryQueue_Len wq q w = wq_Len wq (wqs w (rq_queue q))"

definition RetryQueue_Add ::
  "('q, 'k) wq_ops \<Rightarrow> RetryQueue \<Rightarrow> 'k \<Rightarrow> ('q, 'k, 'z) queue_world_scheme \<Rightarrow> ('q, 'k, 'z) queue_world_scheme" where
  "RetryQueue_Add wq q item w = on_wq (rq_queue q) (wq_Add wq item) w"

definition RetryQueue_AddAfter ::
  "('q, 'k) wq_ops \<Rightarrow> RetryQueue \<Rightarrow> 'k \<Rightarrow> duration \<Rightarrow> ('q, 'k, 'z) queue_world_scheme \<Rightarrow> ('q, 'k, 'z) queue_world_scheme" where
  "RetryQueue_AddAfter wq q item delay w = on_wq (rq_queue q) (wq_AddAfter wq (now w) item delay) w"

definition RetryQueue_Requeue ::
  "('q, 'k) wq_ops \<Rightarrow> RetryQueue \<Rightarrow> 'k \<Rightarrow> ('q, 'k, 'z) queue_world_scheme
     \<Rightarrow> err option \<times> ('q, 'k, 'z) queue_world_scheme" where
  "RetryQueue_Requeue wq q item w =
     (if rq_retries q < 0 \<or> wq_NumRequeues wq item (wqs w (rq_queue q)) < rq_retries q
      then (None, on_wq (rq_queue q) (wq_AddRateLimited wq (now w) item) w)
      else (Some ErrMaxRetries, on_wq (rq_queue q) (wq_Forget wq item) w))"

definition RetryQueue_Forget ::
  "('q, 'k) wq_ops \<Rightarrow> RetryQueue \<Rightarrow> 'k \<Rightarrow> ('q, 'k, 'z) queue_world_scheme \<Rightarrow> ('q, 'k, 'z) queue_world_scheme" where
  "RetryQueue_Forget wq q item w = on_wq (rq_queue q) (wq_Forget wq item) w"

definition RetryQueue_Get ::
  "('q, 'k) wq_ops \<Rightarrow> RetryQueue \<Rightarrow> ('q, 'k, 'z) queue_world_scheme
     \<Rightarrow> (('k \<times> bool) \<times> ('q, 'k, 'z) queue_world_scheme) option" where
  "RetryQueue_Get wq q w =
     (case wq_Get wq (now w) (wqs w (rq_queue q)) of
        None \<Rightarrow> None
      | Some (res, waited, q') \<Rightarrow>
          Some (res, (on_wq (rq_queue q) (\<lambda>_. q') w)\<lparr>now := now w + int waited\<rparr>))"

definition RetryQueue_Done ::
  "('q, 'k) wq_ops \<Rightarrow> RetryQueue \<Rightarrow> 'k \<Rightarrow> ('q, 'k, 'z) queue_world_scheme \<Rightarrow> ('q, 'k, 'z) queue_world_scheme" where
  "RetryQueue_Done wq q item w = on_wq (rq_queue q) (wq_Done wq item) w"

definition RetryQueue_ShutDown ::
  "('q, 'k) wq_ops \<Rightarrow> RetryQueue \<Rightarrow> ('q, 'k, 'z) queue_world_scheme \<Rightarrow> ('q, 'k, 'z) queue_world_scheme" where
  "RetryQueue_ShutDown wq q w = on_wq (rq_queue q) (wq_ShutDown wq) w"

text \<open>A pointer to a \<open>RetryQueue\<close> seen through the interface.\<close>

definition retry_queue ::
  "('q, 'k) wq_ops \<Rightarrow> RetryQueue \<Rightarrow> ('k, ('q, 'k, 'z) queue_world_scheme) queue_ops" where
  "retry_queue wq q =
     \<lparr>q_Name = rq_name q, q_Len = RetryQueue_Len wq q, q_Add = RetryQueue_Add wq q,
      q_AddAfter = RetryQueue_AddAfter wq q, q_Requeue = RetryQueue_Requeue wq q,
      q_Forget = RetryQueue_Forget wq q, q_Get = RetryQueue_Get wq q,
      q_Done = RetryQueue_Done wq q, q_ShutDown = RetryQueue_ShutDown wq q\<rparr>"

definition NewRetryQueue ::
  "('q, 'k) wq_ops \<Rightarrow> string \<Rightarrow> addr \<Rightarrow> int \<Rightarrow> ('k, ('q, 'k, 'z) queue_world_scheme) queue_ops" where
  "NewRetryQueue wq name queue retries =
     retry_queue wq \<lparr>rq_name = name, rq_queue = queue, rq_retries = retries\<rparr>"

subsection \<open>The monitor queue\<close>

record ('k, 's) MonitorQueue =
  mq_Queue :: "('k, 's) queue_ops"
  mq_mrec :: "'s recorder_ops"
  mq_time :: addr

text \<open>\<open>sync.Map\<close>: \<open>LoadOrStore\<close> and \<open>LoadAndDelete\<close>.\<close>

definition LoadOrStore ::
  "addr \<Rightarrow> 'k \<Rightarrow> time \<Rightarrow> ('q, 'k, 'z) queue_world_scheme \<Rightarrow> ('q, 'k, 'z) queue_world_scheme" where
  "LoadOrStore a item t w =
     (case queued w a item of
        Some _ \<Rightarrow> w
      | None \<Rightarrow> w\<lparr>queued := (queued w)(a := (queued w a)(item \<mapsto> t))\<rparr>)"

definition LoadAndDelete ::
  "addr \<Rightarrow> 'k \<Rightarrow> ('q, 'k, 'z) queue_world_scheme \<Rightarrow> time option \<times> ('q, 'k, 'z) queue_world_scheme" where
  "LoadAndDelete a item w =
     (queued w a item, w\<lparr>queued := (queued w)(a := (queued w a)(item := None))\<rparr>)"

definition MonitorQueue_Add ::
  "('k, ('q, 'k, 'z) queue_world_scheme) MonitorQueue \<Rightarrow> 'k \<Rightarrow> ('q, 'k, 'z) queue_world_scheme
     \<Rightarrow> ('q, 'k, 'z) queue_world_scheme" where
  "MonitorQueue_Add q item w =
     (let w1 = LoadOrStore (mq_time q) item (now w) w;
          w2 = rec_AddEvent (mq_mrec q) (q_Name (mq_Queue q)) False w1
      in q_Add (mq_Queue q) item w2)"

definition MonitorQueue_AddAfter ::
  "('k, ('q, 'k, 'z) queue_world_scheme) MonitorQueue \<Rightarrow> 'k \<Rightarrow> duration \<Rightarrow> ('q, 'k, 'z) queue_world_scheme
     \<Rightarrow> ('q, 'k, 'z) queue_world_scheme" where
  "MonitorQueue_AddAfter q item delay w =
     (let w1 = LoadOrStore (mq_time q) item (now w) w;
          w2 = rec_AddEvent (mq_mrec q) (q_Name (mq_Queue q)) False w1
      in q_AddAfter (mq_Queue q) item delay w2)"

definition MonitorQueue_Requeue ::
  "('k, ('q, 'k, 'z) queue_world_scheme) MonitorQueue \<Rightarrow> 'k \<Rightarrow> ('q, 'k, 'z) queue_world_scheme
     \<Rightarrow> err option \<times> ('q, 'k, 'z) queue_world_scheme" where
  "MonitorQueue_Requeue q item w =
     (let w1 = LoadOrStore (mq_time q) item (now w) w;
          w2 = rec_AddEvent (mq_mrec q) (q_Name (mq_Queue q)) True w1
      in q_Requeue (mq_Queue q) item w2)"

definition MonitorQueue_Get ::
  "('k, ('q, 'k, 'z) queue_world_scheme) MonitorQueue \<Rightarrow> ('q, 'k, 'z) queue_world_scheme
     \<Rightarrow> (('k \<times> bool) \<times> ('q, 'k, 'z) queue_world_scheme) option" where
  "MonitorQueue_Get q w =
     (case q_Get (mq_Queue q) w of
        None \<Rightarrow> None
      | Some ((item, shutdown), w1) \<Rightarrow>
          if shutdown then Some ((item, shutdown), w1)
          else case LoadAndDelete (mq_time q) item w1 of
                 (Some t, w2) \<Rightarrow>
                   Some ((item, shutdown), rec_GetEvent (mq_mrec q) (q_Name (mq_Queue q)) t w2)
               | (None, w2) \<Rightarrow> Some ((item, shutdown), w2))"

definition monitor_queue ::
  "('k, ('q, 'k, 'z) queue_world_scheme) MonitorQueue \<Rightarrow> ('k, ('q, 'k, 'z) queue_world_scheme) queue_ops" where
  "monitor_queue q =
     (mq_Queue q)\<lparr>q_Add := MonitorQueue_Add q, q_AddAfter := MonitorQueue_AddAfter q,
       q_Requeue := MonitorQueue_Requeue q, q_Get := MonitorQueue_Get q\<rparr>"

text \<open>\<open>NewMonitorQueue\<close> registers the length gauge first; the map starts empty.\<close>

definition NewMonitorQueue ::
  "addr \<Rightarrow> ('k, ('q, 'k, 'z) queue_world_scheme) queue_ops \<Rightarrow> ('q, 'k, 'z) queue_world_scheme recorder_ops
     \<Rightarrow> ('q, 'k, 'z) queue_world_scheme
     \<Rightarrow> (go_arg, ('k, ('q, 'k, 'z) queue_world_scheme) queue_ops \<times> ('q, 'k, 'z) queue_world_scheme) outcome" where
  "NewMonitorQueue a queue mrec w =
     (case rec_RegisterLen mrec (q_Name queue) w of
        Panic p \<Rightarrow> Panic p
      | Ret w1 \<Rightarrow>
          Ret (monitor_queue \<lparr>mq_Queue = queue, mq_mrec = mrec, mq_time = a\<rparr>,
               w1\<lparr>queued := (queued w1)(a := Map.empty)\<rparr>))"

text \<open>
  \<open>NewRateLimitedQueue\<close>: the client-go queue made from the limiter (the argument
  \<open>fresh_wq\<close>) is stored at the address \<open>a\<close>, which a monitor queue shares for its map.
\<close>

definition NewRateLimitedQueue ::
  "('q, 'k) wq_ops \<Rightarrow> addr \<Rightarrow> string \<Rightarrow> 'q \<Rightarrow> int \<Rightarrow> ('q, 'k, 'z) queue_world_scheme recorder_ops option
     \<Rightarrow> ('q, 'k, 'z) queue_world_scheme
     \<Rightarrow> (go_arg, ('k, ('q, 'k, 'z) queue_world_scheme) queue_ops \<times> ('q, 'k, 'z) queue_world_scheme) outcome" where
  "NewRateLimitedQueue wq a name fresh_wq retries recorder w =
     (let queue = NewRetryQueue wq name a retries;
          w1 = on_wq a (\<lambda>_. fresh_wq) w
      in case recorder of
           Some mrec \<Rightarrow> NewMonitorQueue a queue mrec w1
         | None \<Rightarrow> Ret (queue, w1))"

text \<open>
  \<open>NewDefaultQueue\<close> makes the client-go queue from the default limiter of client-go
  (the argument \<open>default_wq\<close>).
\<close>

definition NewDefaultQueue ::
  "('q, string) wq_ops \<Rightarrow> 'q \<Rightarrow> addr \<Rightarrow> string \<Rightarrow> int \<Rightarrow> ('q, string, 'z) queue_world_scheme recorder_ops option
     \<Rightarrow> ('q, string, 'z) queue_world_scheme
     \<Rightarrow> (go_arg, (string, ('q, string, 'z) queue_world_scheme) queue_ops \<times> ('q, string, 'z) queue_world_scheme) outcome" where
  "NewDefaultQueue wq default_wq a name retries recorder w =
     NewRateLimitedQueue wq a name default_wq retries recorder w"

lemmas retry_defs [unfold_ops] =
  retry_queue_def RetryQueue_Len_def RetryQueue_Add_def RetryQueue_AddAfter_def RetryQueue_Requeue_def
  RetryQueue_Forget_def RetryQueue_Get_def RetryQueue_Done_def RetryQueue_ShutDown_def

lemmas monitor_defs [unfold_ops] =
  monitor_queue_def MonitorQueue_Add_def MonitorQueue_AddAfter_def MonitorQueue_Requeue_def
  MonitorQueue_Get_def

lemma on_wq_simps [simp]:
  "now (on_wq a f w) = now w" "next_addr (on_wq a f w) = next_addr w"
  "trackers (on_wq a f w) = trackers w" "prom (on_wq a f w) = prom w"
  "collectors (on_wq a f w) = collectors w" "queued (on_wq a f w) = queued w"
  "wqs (on_wq a f w) = (wqs w)(a := f (wqs w a))"
  "queue_world.more (on_wq a f w) = queue_world.more w"
  by (simp_all add: on_wq_def)

lemma LoadOrStore_simps [simp]:
  "now (LoadOrStore a k t w) = now w" "next_addr (LoadOrStore a k t w) = next_addr w"
  "trackers (LoadOrStore a k t w) = trackers w" "prom (LoadOrStore a k t w) = prom w"
  "collectors (LoadOrStore a k t w) = collectors w" "wqs (LoadOrStore a k t w) = wqs w"
  "queue_world.more (LoadOrStore a k t w) = queue_world.more w"
  by (simp_all add: LoadOrStore_def split: option.split)

lemma queued_LoadOrStore:
  "queued (LoadOrStore a k t w) b k' =
     (if b = a \<and> k' = k \<and> queued w a k = None then Some t else queued w b k')"
  by (auto simp: LoadOrStore_def split: option.split)

lemma LoadAndDelete_simps [simp]:
  "now (snd (LoadAndDelete a k w)) = now w" "next_addr (snd (LoadAndDelete a k w)) = next_addr w"
  "trackers (snd (LoadAndDelete a k w)) = trackers w" "prom (snd (LoadAndDelete a k w)) = prom w"
  "wqs (snd (LoadAndDelete a k w)) = wqs w"
  "queue_world.more (snd (LoadAndDelete a k w)) = queue_world.more w"
  "fst (LoadAndDelete a k w) = queued w a k"
  by (simp_all add: LoadAndDelete_def)

subsection \<open>The contract of a queue\<close>

text \<open>
  What the event handlers and the processor rely on: an operation touches only the queues,
  their clocks and the metrics calls; time does not run backwards; a rejected requeue is
  reported as \<open>ErrMaxRetries\<close> and nothing else.
\<close>

definition queue_frame :: "('q, 'k, 'z) queue_world_scheme \<Rightarrow> ('q, 'k, 'z) queue_world_scheme \<Rightarrow> bool" where
  "queue_frame w w' \<longleftrightarrow> next_addr w' = next_addr w \<and> trackers w' = trackers w \<and>
     queue_world.more w' = queue_world.more w"

lemma queue_frame_refl [simp, intro]: "queue_frame w w"
  by (simp add: queue_frame_def)

lemma queue_frame_trans [trans]: "queue_frame u v \<Longrightarrow> queue_frame v w \<Longrightarrow> queue_frame u w"
  by (simp add: queue_frame_def)

locale queue_contract =
  fixes q :: "('k, ('q, 'k, 'z) queue_world_scheme) queue_ops"
  assumes Add_frame: "queue_frame w (q_Add q k w) \<and> now (q_Add q k w) = now w"
    and AddAfter_frame: "queue_frame w (q_AddAfter q k d w) \<and> now (q_AddAfter q k d w) = now w"
    and Requeue_frame: "queue_frame w (snd (q_Requeue q k w)) \<and> now (snd (q_Requeue q k w)) = now w"
    and Requeue_error: "fst (q_Requeue q k w) \<in> {None, Some ErrMaxRetries}"
    and Forget_frame: "queue_frame w (q_Forget q k w) \<and> now (q_Forget q k w) = now w"
    and Get_frame: "q_Get q w = Some (res, w') \<Longrightarrow> queue_frame w w' \<and> now w \<le> now w'"
    and Done_frame: "queue_frame w (q_Done q k w) \<and> now (q_Done q k w) = now w"
    and ShutDown_frame: "queue_frame w (q_ShutDown q w) \<and> now (q_ShutDown q w) = now w"
begin

lemmas op_frames = Add_frame AddAfter_frame Requeue_frame Forget_frame Done_frame ShutDown_frame

lemma more_ops:
  "queue_world.more (q_Add q k w) = queue_world.more w"
  "queue_world.more (q_AddAfter q k d w) = queue_world.more w"
  "queue_world.more (snd (q_Requeue q k w)) = queue_world.more w"
  "queue_world.more (q_Forget q k w) = queue_world.more w"
  "queue_world.more (q_Done q k w) = queue_world.more w"
  "queue_world.more (q_ShutDown q w) = queue_world.more w"
  using op_frames by (simp_all add: queue_frame_def)

end

interpretation retry: queue_contract "retry_queue wq q" for wq q
  by unfold_locales (auto simp: retry_defs queue_frame_def split: option.splits)

text \<open>A monitored queue keeps the contract of the queue it embeds.\<close>

locale monitored = inner: queue_contract "mq_Queue m" + rec: recorder_contract "mq_mrec m"
  for m :: "('k, ('q, 'k, 'z) queue_world_scheme) MonitorQueue"
begin

lemma wq_after_event:
  "wqs (rec_AddEvent (mq_mrec m) name b w) = wqs w" "queued (rec_AddEvent (mq_mrec m) name b w) = queued w"
  "queue_world.more (rec_AddEvent (mq_mrec m) name b w) = queue_world.more w"
  "wqs (rec_GetEvent (mq_mrec m) name t w) = wqs w" "queued (rec_GetEvent (mq_mrec m) name t w) = queued w"
  "queue_world.more (rec_GetEvent (mq_mrec m) name t w) = queue_world.more w"
  by (subst rec.AddEvent_only rec.GetEvent_only, simp)+

lemma enter_frame:
  "queue_frame w (rec_AddEvent (mq_mrec m) name b (LoadOrStore a k t w))"
  "now (rec_AddEvent (mq_mrec m) name b (LoadOrStore a k t w)) = now w"
  by (simp_all add: queue_frame_def wq_after_event rec.event_frame)

lemma enter_then:
  "queue_frame (rec_AddEvent (mq_mrec m) name b (LoadOrStore a k t w)) v \<Longrightarrow> queue_frame w v"
  using enter_frame(1) by (rule queue_frame_trans)

lemma leave_frame:
  "queue_frame w (rec_GetEvent (mq_mrec m) name t (snd (LoadAndDelete a k w)))"
  "now (rec_GetEvent (mq_mrec m) name t (snd (LoadAndDelete a k w))) = now w"
  "queue_frame w (snd (LoadAndDelete a k w))"
  by (simp_all add: queue_frame_def wq_after_event rec.event_frame)

end

sublocale monitored \<subseteq> queue_contract "monitor_queue m"
proof
  fix w k d res w'
  show "queue_frame w (q_Add (monitor_queue m) k w) \<and> now (q_Add (monitor_queue m) k w) = now w"
    by (simp add: monitor_defs Let_def enter_frame(2) inner.Add_frame
        enter_then [OF inner.Add_frame [THEN conjunct1]])
  show "queue_frame w (q_AddAfter (monitor_queue m) k d w) \<and> now (q_AddAfter (monitor_queue m) k d w) = now w"
    by (simp add: monitor_defs Let_def enter_frame(2) inner.AddAfter_frame
        enter_then [OF inner.AddAfter_frame [THEN conjunct1]])
  show "queue_frame w (snd (q_Requeue (monitor_queue m) k w)) \<and> now (snd (q_Requeue (monitor_queue m) k w)) = now w"
    by (simp add: monitor_defs Let_def enter_frame(2) inner.Requeue_frame
        enter_then [OF inner.Requeue_frame [THEN conjunct1]])
  show "fst (q_Requeue (monitor_queue m) k w) \<in> {None, Some ErrMaxRetries}"
    using inner.Requeue_error by (simp add: monitor_defs Let_def)
  assume get: "q_Get (monitor_queue m) w = Some (res, w')"
  then obtain item shut w1 where inner: "q_Get (mq_Queue m) w = Some ((item, shut), w1)"
    by (auto simp: monitor_defs split: option.splits)
  with get have "w' = w1 \<or> w' = snd (LoadAndDelete (mq_time m) item w1) \<or>
      (\<exists>t. w' = rec_GetEvent (mq_mrec m) (q_Name (mq_Queue m)) t (snd (LoadAndDelete (mq_time m) item w1)))"
    by (auto simp: monitor_defs split: if_splits prod.splits option.splits)
  with inner.Get_frame [OF inner] leave_frame
  show "queue_frame w w' \<and> now w \<le> now w'" by (auto intro: queue_frame_trans)
qed (use inner.Forget_frame inner.Done_frame inner.ShutDown_frame in \<open>simp_all add: monitor_queue_def\<close>)

interpretation monitor: monitored
  "\<lparr>mq_Queue = retry_queue wq q, mq_mrec = default_recorder rejects r, mq_time = a\<rparr>"
  for wq q rejects r a
  by (rule monitored.intro)
    (simp_all add: retry.queue_contract_axioms default_rec.recorder_contract_axioms)

subsection \<open>Sequences of queue calls\<close>

text \<open>
  The calls of all goroutines on one queue, in the order in which they take effect.
  \<open>CSleep\<close> lets time pass between two calls. A \<open>Get\<close> that never returns changes nothing.
\<close>

datatype 'k queue_call =
    CLen | CAdd 'k | CAddAfter 'k duration | CRequeue 'k | CForget 'k | CGet | CDone 'k
  | CShutDown | CSleep nat

datatype 'k queue_res = RUnit | RLen int | RErr "err option" | RGot 'k bool | RBlocked

fun queue_do ::
  "('k, ('q, 'k, 'z) queue_world_scheme) queue_ops \<Rightarrow> 'k queue_call \<Rightarrow> ('q, 'k, 'z) queue_world_scheme
     \<Rightarrow> 'k queue_res \<times> ('q, 'k, 'z) queue_world_scheme" where
  "queue_do q CLen w = (RLen (q_Len q w), w)"
| "queue_do q (CAdd k) w = (RUnit, q_Add q k w)"
| "queue_do q (CAddAfter k d) w = (RUnit, q_AddAfter q k d w)"
| "queue_do q (CRequeue k) w = (RErr (fst (q_Requeue q k w)), snd (q_Requeue q k w))"
| "queue_do q (CForget k) w = (RUnit, q_Forget q k w)"
| "queue_do q CGet w =
     (case q_Get q w of Some ((k, b), w') \<Rightarrow> (RGot k b, w') | None \<Rightarrow> (RBlocked, w))"
| "queue_do q (CDone k) w = (RUnit, q_Done q k w)"
| "queue_do q CShutDown w = (RUnit, q_ShutDown q w)"
| "queue_do q (CSleep n) w = (RUnit, w\<lparr>now := now w + int n\<rparr>)"

fun queue_run ::
  "('k, ('q, 'k, 'z) queue_world_scheme) queue_ops \<Rightarrow> 'k queue_call list \<Rightarrow> ('q, 'k, 'z) queue_world_scheme
     \<Rightarrow> 'k queue_res list \<times> ('q, 'k, 'z) queue_world_scheme" where
  "queue_run q [] w = ([], w)"
| "queue_run q (c # cs) w =
     (fst (queue_do q c w) # fst (queue_run q cs (snd (queue_do q c w))),
      snd (queue_run q cs (snd (queue_do q c w))))"

lemma queue_run_append:
  "queue_run q (cs @ ds) w =
     (fst (queue_run q cs w) @ fst (queue_run q ds (snd (queue_run q cs w))),
      snd (queue_run q ds (snd (queue_run q cs w))))"
  by (induction cs arbitrary: w) simp_all

context queue_contract
begin

lemma do_frame: "queue_frame w (snd (queue_do q c w)) \<or> (\<exists>n. c = CSleep n)"
  using op_frames Get_frame
  by (cases c) (auto split: option.splits)

lemma run_frame: "queue_world.more (snd (queue_run q cs w)) = queue_world.more w \<and>
    trackers (snd (queue_run q cs w)) = trackers w"
proof (induction cs arbitrary: w)
  case (Cons c cs)
  from do_frame [of w c] have "queue_world.more (snd (queue_do q c w)) = queue_world.more w \<and>
      trackers (snd (queue_do q c w)) = trackers w"
    by (cases c) (auto simp: queue_frame_def)
  with Cons show ?case by simp
qed simp

end

subsection \<open>Monitoring is transparent\<close>

text \<open>Two states in which all work queues and the clock agree.\<close>

definition same_wq :: "('q, 'k, 'z) queue_world_scheme \<Rightarrow> ('q, 'k, 'z) queue_world_scheme \<Rightarrow> bool" where
  "same_wq w v \<longleftrightarrow> wqs w = wqs v \<and> now w = now v"

lemma retry_do_cong:
  assumes "same_wq w v"
  shows "fst (queue_do (retry_queue wq q) c w) = fst (queue_do (retry_queue wq q) c v) \<and>
    same_wq (snd (queue_do (retry_queue wq q) c w)) (snd (queue_do (retry_queue wq q) c v))"
  using assms by (cases c) (auto simp: retry_defs same_wq_def split: option.splits)

context monitored
begin

lemma same_wq_enter: "same_wq (rec_AddEvent (mq_mrec m) name b (LoadOrStore a k t w)) w"
  by (simp add: same_wq_def wq_after_event rec.event_frame)

lemma same_wq_leave:
  "same_wq (rec_GetEvent (mq_mrec m) name t (snd (LoadAndDelete a k w))) w"
  "same_wq (snd (LoadAndDelete a k w)) w"
  by (simp_all add: same_wq_def wq_after_event rec.event_frame)

end

lemma monitor_do_transparent:
  assumes "monitored m" and m: "mq_Queue m = retry_queue wq q"
  shows "fst (queue_do (monitor_queue m) c w) = fst (queue_do (retry_queue wq q) c w) \<and>
    same_wq (snd (queue_do (monitor_queue m) c w)) (snd (queue_do (retry_queue wq q) c w))"
proof -
  note enter = monitored.same_wq_enter [OF assms(1)]
  note leave = monitored.same_wq_leave [OF assms(1)]
  show ?thesis
  proof (cases c)
    case (CAdd k)
    then show ?thesis
      using retry_do_cong [OF enter, of wq q "CAdd k" "q_Name (mq_Queue m)" False "mq_time m" k "now w" w]
      by (simp add: monitor_defs Let_def m)
  next
    case (CAddAfter k d)
    then show ?thesis
      using retry_do_cong [OF enter, of wq q "CAddAfter k d" "q_Name (mq_Queue m)" False "mq_time m" k "now w" w]
      by (simp add: monitor_defs Let_def m)
  next
    case (CRequeue k)
    then show ?thesis
      using retry_do_cong [OF enter, of wq q "CRequeue k" "q_Name (mq_Queue m)" True "mq_time m" k "now w" w]
      by (simp add: monitor_defs Let_def m)
  next
    case CGet
    show ?thesis
    proof (cases "q_Get (retry_queue wq q) w")
      case None
      with CGet show ?thesis by (simp add: monitor_defs m same_wq_def)
    next
      case (Some res)
      obtain item shut w1 where res: "res = ((item, shut), w1)" by (cases res) auto
      from Some CGet show ?thesis
        using leave(1) [of _ _ "mq_time m" item w1] leave(2) [of "mq_time m" item w1]
        by (cases "queued w1 (mq_time m) item")
          (simp_all add: monitor_defs m res same_wq_def LoadAndDelete_def)
    qed
  qed (simp_all add: monitor_queue_def m same_wq_def)
qed

lemma same_wq_sym: "same_wq w v \<Longrightarrow> same_wq v w"
  by (simp add: same_wq_def)

lemma same_wq_trans [trans]: "same_wq u v \<Longrightarrow> same_wq v w \<Longrightarrow> same_wq u w"
  by (simp add: same_wq_def)

lemma monitor_run_transparent:
  assumes "monitored m" and "mq_Queue m = retry_queue wq q" and "same_wq w v"
  shows "fst (queue_run (monitor_queue m) cs w) = fst (queue_run (retry_queue wq q) cs v) \<and>
    same_wq (snd (queue_run (monitor_queue m) cs w)) (snd (queue_run (retry_queue wq q) cs v))"
  using assms(3)
proof (induction cs arbitrary: w v)
  case (Cons c cs)
  from monitor_do_transparent [OF assms(1,2), of c w] retry_do_cong [OF Cons.prems, of wq q c]
  have "fst (queue_do (monitor_queue m) c w) = fst (queue_do (retry_queue wq q) c v)"
    and "same_wq (snd (queue_do (monitor_queue m) c w)) (snd (queue_do (retry_queue wq q) c v))"
    by (auto intro: same_wq_trans)
  with Cons.IH show ?case by simp
qed simp

subsection \<open>The retry budget\<close>

text \<open>
  client-go on the rate limiter of a queue: \<open>AddRateLimited\<close> counts one more requeue of
  the item, \<open>Forget\<close> resets its count, everything else leaves the counts alone.
\<close>

definition requeue_laws :: "('q, 'k) wq_ops \<Rightarrow> bool" where
  "requeue_laws wq \<longleftrightarrow>
     (\<forall>t k k' q. wq_NumRequeues wq k' (wq_AddRateLimited wq t k q) =
        wq_NumRequeues wq k' q + (if k' = k then 1 else 0)) \<and>
     (\<forall>k k' q. wq_NumRequeues wq k' (wq_Forget wq k q) = (if k' = k then 0 else wq_NumRequeues wq k' q)) \<and>
     (\<forall>k k' q. wq_NumRequeues wq k' (wq_Add wq k q) = wq_NumRequeues wq k' q) \<and>
     (\<forall>t k k' d q. wq_NumRequeues wq k' (wq_AddAfter wq t k d q) = wq_NumRequeues wq k' q) \<and>
     (\<forall>k k' q. wq_NumRequeues wq k' (wq_Done wq k q) = wq_NumRequeues wq k' q) \<and>
     (\<forall>k' q. wq_NumRequeues wq k' (wq_ShutDown wq q) = wq_NumRequeues wq k' q) \<and>
     (\<forall>t k' q r n q'. wq_Get wq t q = Some (r, n, q') \<longrightarrow> wq_NumRequeues wq k' q' = wq_NumRequeues wq k' q)"

text \<open>The abstract queue is a failure counter per item.\<close>

fun retry_spec :: "int \<Rightarrow> 'k queue_call \<Rightarrow> ('k \<Rightarrow> int) \<Rightarrow> ('k \<Rightarrow> int)" where
  "retry_spec retries (CRequeue k) fails =
     (if retries < 0 \<or> fails k < retries then fails(k := fails k + 1) else fails(k := 0))"
| "retry_spec retries (CForget k) fails = fails(k := 0)"
| "retry_spec retries c fails = fails"

definition fails_of :: "('q, 'k) wq_ops \<Rightarrow> RetryQueue \<Rightarrow> ('q, 'k, 'z) queue_world_scheme \<Rightarrow> 'k \<Rightarrow> int" where
  "fails_of wq q w k = wq_NumRequeues wq k (wqs w (rq_queue q))"

lemma fails_of_do:
  assumes "requeue_laws wq"
  shows "fails_of wq q (snd (queue_do (retry_queue wq q) c w)) = retry_spec (rq_retries q) c (fails_of wq q w)"
  using assms unfolding requeue_laws_def
  by (cases c) (auto simp: fun_eq_iff fails_of_def retry_defs split: option.splits)

lemma fails_of_run:
  assumes "requeue_laws wq"
  shows "fails_of wq q (snd (queue_run (retry_queue wq q) cs w)) =
    fold (retry_spec (rq_retries q)) cs (fails_of wq q w)"
  by (induction cs arbitrary: w) (simp_all add: fails_of_do [OF assms])

fun is_requeue :: "'k \<Rightarrow> 'k queue_call \<Rightarrow> bool" where
  "is_requeue k (CRequeue k') = (k' = k)"
| "is_requeue k c = False"

fun is_forget :: "'k \<Rightarrow> 'k queue_call \<Rightarrow> bool" where
  "is_forget k (CForget k') = (k' = k)"
| "is_forget k c = False"

lemma retry_spec_other:
  "\<not> is_requeue k c \<Longrightarrow> \<not> is_forget k c \<Longrightarrow> retry_spec retries c fails k = fails k"
  by (cases c) auto

text \<open>Without \<open>Forget\<close> the counter runs through \<open>0..retries\<close> over and over.\<close>

lemma mod_Suc_cases:
  "0 \<le> r \<Longrightarrow> (int (Suc n) mod (r + 1)) = (if int n mod (r + 1) < r then int n mod (r + 1) + 1 else 0)"
  for r :: int
proof -
  assume r: "0 \<le> r"
  then have "int n mod (r + 1) < r + 1" and "0 \<le> int n mod (r + 1)"
    using pos_mod_bound [of "r + 1" "int n"] pos_mod_sign [of "r + 1" "int n"] by simp_all
  moreover have "int (Suc n) mod (r + 1) = (int n mod (r + 1) + 1) mod (r + 1)"
    by (simp add: mod_simps add.commute)
  ultimately show ?thesis using r by (auto simp: mod_pos_pos_trivial)
qed

lemma retry_spec_period:
  assumes "0 \<le> retries" and "list_all (\<lambda>c. \<not> is_forget k c) cs" and "fails k = 0"
  shows "fold (retry_spec retries) cs fails k = int (length (filter (is_requeue k) cs)) mod (retries + 1)"
  using assms(2)
proof (induction cs rule: rev_induct)
  case (snoc c cs)
  let ?n = "length (filter (is_requeue k) cs)"
  from snoc have IH: "fold (retry_spec retries) cs fails k = int ?n mod (retries + 1)" by simp
  show ?case
  proof (cases "is_requeue k c")
    case True
    then have "c = CRequeue k" by (cases c) auto
    with IH True mod_Suc_cases [OF assms(1), of ?n] assms(1) show ?thesis by simp
  next
    case False
    with snoc.prems IH show ?thesis by (simp add: retry_spec_other)
  qed
qed (simp add: assms(3))

lemma Requeue_error_iff:
  "fst (q_Requeue (retry_queue wq q) k w) =
     (if rq_retries q < 0 \<or> fails_of wq q w k < rq_retries q then None else Some ErrMaxRetries)"
  by (simp add: retry_defs fails_of_def)

subsection \<open>How long an item waits\<close>

lemma queued_do:
  assumes "monitored m" and "mq_Queue m = retry_queue wq q" and "c \<noteq> CGet"
  shows "queued (snd (queue_do (monitor_queue m) c w)) (mq_time m) k =
    (if queued w (mq_time m) k = None \<and> (c = CAdd k \<or> (\<exists>d. c = CAddAfter k d) \<or> c = CRequeue k)
     then Some (now w) else queued w (mq_time m) k)"
  using assms(3)
  by (cases c)
    (auto simp: monitor_queue_def MonitorQueue_Add_def MonitorQueue_AddAfter_def MonitorQueue_Requeue_def
      Let_def assms(2) retry_defs monitored.wq_after_event [OF assms(1)] queued_LoadOrStore)

lemma queued_kept:
  assumes "monitored m" and "mq_Queue m = retry_queue wq q" and "CGet \<notin> set cs"
    and "queued w (mq_time m) k = Some t"
  shows "queued (snd (queue_run (monitor_queue m) cs w)) (mq_time m) k = Some t"
  using assms(3,4)
proof (induction cs arbitrary: w)
  case (Cons c cs)
  then have "queued (snd (queue_do (monitor_queue m) c w)) (mq_time m) k = Some t"
    by (subst queued_do [OF assms(1,2)]) auto
  with Cons show ?case by simp
qed simp

lemma Get_observes:
  assumes m: "m = \<lparr>mq_Queue = retry_queue wq q, mq_mrec = default_recorder rejects r, mq_time = a\<rparr>"
    and "queued w a k = Some t"
    and "wq_Get wq (now w) (wqs w (rq_queue q)) = Some ((k, False), n, q')"
  shows "\<exists>w'. q_Get (monitor_queue m) w = Some ((k, False), w') \<and> queued w' a k = None \<and>
    now w' = now w + int n \<and>
    prom w' = prom w @ [Observe (dr_queue r) [rq_name q] (time_sub (now w + int n) t)]"
  using assms(2,3)
  by (simp add: m monitor_defs retry_defs LoadAndDelete_def recorder_defs time_since_def)

subsection \<open>Properties\<close>

text \<open>
  C2. The retry budget: on a queue whose item starts with no counted failure, after any
  sequence of calls that does not forget the item and requeues it \<open>n\<close> times, the next
  \<open>Requeue\<close> is rejected with \<open>ErrMaxRetries\<close> exactly if the number of retries is not
  negative and \<open>n\<close> is the number of retries modulo that number plus one. So each budget
  grants exactly \<open>retries\<close> retries, and a rejection starts a new one.
\<close>

theorem requeue_budget:
  assumes "requeue_laws wq" and "fails_of wq q w k = 0" and "list_all (\<lambda>c. \<not> is_forget k c) cs"
  shows "fst (q_Requeue (retry_queue wq q) k (snd (queue_run (retry_queue wq q) cs w))) =
    (if rq_retries q < 0 \<or>
        int (length (filter (is_requeue k) cs)) mod (rq_retries q + 1) \<noteq> rq_retries q
     then None else Some ErrMaxRetries)"
proof (cases "rq_retries q < 0")
  case False
  then have pos: "0 \<le> rq_retries q" by simp
  have "fails_of wq q (snd (queue_run (retry_queue wq q) cs w)) k =
      int (length (filter (is_requeue k) cs)) mod (rq_retries q + 1)"
    unfolding fails_of_run [OF assms(1)] by (rule retry_spec_period) (fact pos assms)+
  moreover have "int (length (filter (is_requeue k) cs)) mod (rq_retries q + 1) < rq_retries q + 1"
    using pos by (intro pos_mod_bound) simp
  ultimately show ?thesis using False by (auto simp: Requeue_error_iff)
qed (simp add: Requeue_error_iff)

text \<open>
  C4. Monitoring is transparent: a retry queue under a \<open>MonitorQueue\<close> with the default
  recorder returns the same results for every sequence of calls as the retry queue alone,
  and leaves every client-go queue and the clock in the same state.
\<close>

theorem monitor_queue_transparent:
  "(let mq = monitor_queue \<lparr>mq_Queue = retry_queue wq q, mq_mrec = default_recorder rejects r, mq_time = a\<rparr>;
        (results, w1) = queue_run mq cs w;
        (results', w2) = queue_run (retry_queue wq q) cs w
    in results = results' \<and> wqs w1 = wqs w2 \<and> now w1 = now w2)"
  using monitor_run_transparent [OF monitor.monitored_axioms, of wq q rejects r a wq q w w cs]
  by (simp add: same_wq_def case_prod_beta)


text \<open>
  A rejected requeue is counted and timed as if it had been queued: the call records a
  requeue event, and when the item is enqueued again after any pause, the queue time that
  is recorded for it includes the whole pause.
\<close>

lemma rejected_requeue_still_timed:
  assumes "mq = monitor_queue \<lparr>mq_Queue = retry_queue wq q, mq_mrec = default_recorder rejects r, mq_time = a\<rparr>"
    and "queued w a k = None" and "fst (q_Requeue mq k w) = Some ErrMaxRetries"
    and "w1 = snd (queue_run mq [CRequeue k, CSleep pause, CAdd k] w)"
    and "wq_Get wq (now w1) (wqs w1 (rq_queue q)) = Some ((k, False), n, q')"
  shows "Inc (dr_events r) [rq_name q, ''true''] \<in> set (prom w1) \<and>
    (\<exists>w2. q_Get mq w1 = Some ((k, False), w2) \<and>
      prom w2 = prom w1 @ [Observe (dr_queue r) [rq_name q] (time_sub (now w + int pause + int n) (now w))])"
proof -
  let ?m = "\<lparr>mq_Queue = retry_queue wq q, mq_mrec = default_recorder rejects r, mq_time = a\<rparr>"
  have mon: "monitored ?m" by (rule monitor.monitored_axioms)
  have "queued (snd (queue_do mq (CRequeue k) w)) a k = Some (now w)"
    using queued_do [of ?m wq q "CRequeue k" w k] mon assms(1,2) by simp
  then have entry: "queued w1 a k = Some (now w)"
    using queued_kept [of ?m wq q "[CSleep pause, CAdd k]" "snd (queue_do mq (CRequeue k) w)" k "now w"]
      mon assms(1,4) by simp
  moreover have "now w1 = now w + int pause"
    using assms(1,4) by (simp add: monitor_defs retry_defs recorder_defs Let_def FormatBool_def)
  moreover have "Inc (dr_events r) [rq_name q, ''true''] \<in> set (prom w1)"
    using assms(1,4) by (simp add: monitor_defs retry_defs recorder_defs Let_def FormatBool_def)
  ultimately show ?thesis
    using Get_observes [OF refl entry assms(5), of rejects r] assms(1) by auto
qed

subsection \<open>Witnesses\<close>

text \<open>
  A small queue that keeps the documented laws: items in order without duplicates, requeue
  counts, a closed flag; \<open>Get\<close> waits five nanoseconds and blocks on an open empty queue.
\<close>

type_synonym example_queue = "string list \<times> (string \<Rightarrow> int) \<times> bool"

fun example_add :: "string \<Rightarrow> example_queue \<Rightarrow> example_queue" where
  "example_add k (xs, f, shut) =
     (if shut \<or> k \<in> set xs then (xs, f, shut) else (xs @ [k], f, shut))"

fun example_get :: "example_queue \<Rightarrow> ((string \<times> bool) \<times> nat \<times> example_queue) option" where
  "example_get ([], f, shut) = (if shut then Some (([], True), 0, ([], f, shut)) else None)"
| "example_get (x # xs, f, shut) = Some ((x, False), 5, (xs, f, shut))"

definition example_wq :: "(example_queue, string) wq_ops" where
  "example_wq =
     \<lparr>wq_Len = (\<lambda>(xs, f, c). int (length xs)),
      wq_Add = example_add,
      wq_AddAfter = (\<lambda>t k d. example_add k),
      wq_AddRateLimited = (\<lambda>t k (xs, f, c). example_add k (xs, f(k := f k + 1), c)),
      wq_NumRequeues = (\<lambda>k (xs, f, c). f k),
      wq_Forget = (\<lambda>k (xs, f, c). (xs, f(k := 0), c)),
      wq_Get = (\<lambda>t q. example_get q),
      wq_Done = (\<lambda>k q. q),
      wq_ShutDown = (\<lambda>(xs, f, c). (xs, f, True))\<rparr>"

lemma example_wq_lawful: "requeue_laws example_wq"
  by (auto simp: requeue_laws_def example_wq_def elim!: example_get.elims split: if_splits)

definition example_world :: "(example_queue, string) queue_world" where
  "example_world =
     \<lparr>now = 0, next_addr = 100, trackers = (\<lambda>_. example_tracker), prom = [], collectors = [],
      client_once = False, client_metrics = None,
      wqs = (\<lambda>_. ([], \<lambda>_. 0, False)), queued = (\<lambda>_ _. None)\<rparr>"


definition example_monitor :: "(string, (example_queue, string) queue_world) MonitorQueue" where
  "example_monitor =
     \<lparr>mq_Queue = retry_queue example_wq \<lparr>rq_name = ''q'', rq_queue = 0, rq_retries = 0\<rparr>,
      mq_mrec = default_recorder duplicates_only (recorder_of example_config), mq_time = 0\<rparr>"

theorem requeue_budget_witness:
  "fst (q_Requeue (retry_queue example_wq \<lparr>rq_name = ''q'', rq_queue = 0, rq_retries = 2\<rparr>) ''a''
     (snd (queue_run (retry_queue example_wq \<lparr>rq_name = ''q'', rq_queue = 0, rq_retries = 2\<rparr>)
       [CRequeue ''a'', CGet, CRequeue ''a'', CDone ''a''] example_world))) = Some ErrMaxRetries"
  by (subst requeue_budget)
    (simp_all add: example_wq_lawful, simp add: fails_of_def example_wq_def example_world_def)

lemmas example_defs = example_wq_def example_world_def monitor_defs retry_defs recorder_defs Let_def
  queued_LoadOrStore FormatBool_def LoadOrStore_def on_wq_def


lemma rejected_requeue_still_timed_witness:
  "\<exists>w1 w2. w1 = snd (queue_run (monitor_queue example_monitor) [CRequeue ''a'', CSleep 3600, CAdd ''a''] example_world) \<and>
     q_Get (monitor_queue example_monitor) w1 = Some ((''a'', False), w2) \<and>
     last (prom w2) = Observe (dr_queue (recorder_of example_config)) [''q''] 3605"
proof -
  let ?q = "\<lparr>rq_name = ''q'', rq_queue = 0, rq_retries = 0\<rparr>"
  let ?w1 = "snd (queue_run (monitor_queue example_monitor) [CRequeue ''a'', CSleep 3600, CAdd ''a''] example_world)"
  have get: "wq_Get example_wq (now ?w1) (wqs ?w1 (rq_queue ?q)) =
      Some ((''a'', False), 5, ([], (\<lambda>_. 0)(''a'' := 0), False))"
    and rejected: "fst (q_Requeue (monitor_queue example_monitor) ''a'' example_world) = Some ErrMaxRetries"
    by (simp_all add: example_monitor_def example_defs)
  have "queued example_world 0 ''a'' = None" "now example_world = 0" by (simp_all add: example_world_def)
  with rejected_requeue_still_timed [OF example_monitor_def [THEN arg_cong, of monitor_queue] _ rejected refl get]
  show ?thesis by (auto simp: time_sub_def min_duration_def max_duration_def)
qed

end
