(* ===== verification/Handlers.thy ===== *)
theory Handlers
  imports Queues
begin

section \<open>Resource handlers: \<open>controller/handler.go\<close>\<close>

text \<open>
  The \<open>Handler\<close> interface is the record \<open>handler_ops\<close>: both calls may panic, so they
  return an outcome with the state. \<open>NewHandler\<close> adapts a typed function (an argument, as
  is the test \<open>is_T\<close> whether a value has the type \<open>T\<close>). Its \<open>Notify\<close> writes to the
  logger; the state keeps what was logged in \<open>logs\<close>. The call stack that \<open>Stack\<close> reads is
  an argument, a list of frames starting at \<open>runtime.Callers\<close>.
\<close>

subsection \<open>The interface\<close>

type_synonym ('s, 'a) go = "'s \<Rightarrow> (go_arg, 'a) outcome \<times> 's"

record 's handler_ops =
  h_Handle :: "any \<Rightarrow> ('s, time option \<times> err option) go"
  h_Notify :: "string \<Rightarrow> err option \<Rightarrow> ('s, unit) go"

subsection \<open>The stack trace\<close>

definition StackFrames :: nat where "StackFrames = 16"
definition StackBufferSize :: nat where "StackBufferSize = StackFrames * 64"
definition StackFramesSkip :: nat where "StackFramesSkip = 5"

record frame =
  fr_Function :: string
  fr_File :: string
  fr_Line :: nat

fun decimal :: "nat \<Rightarrow> string" where
  "decimal n = (if n < 10 then [char_of (48 + n)] else decimal (n div 10) @ [char_of (48 + n mod 10)])"

declare decimal.simps [simp del]

definition frame_text :: "frame \<Rightarrow> string" where
  "frame_text f =
     fr_Function f @ [CHR 0x0A, CHR 0x09] @ fr_File f @ '':'' @ decimal (fr_Line f) @ [CHR 0x0A]"

text \<open>
  The loop over \<open>frames.Next()\<close>: an exhausted iterator gives a zero frame, which has no
  function name; the loop stops at a frame without one and after the last frame.
\<close>

fun stack_loop :: "frame list \<Rightarrow> string" where
  "stack_loop [] = []"
| "stack_loop (f # fs) =
     (if fr_Function f = [] then []
      else frame_text f @ (if fs = [] then [] else stack_loop fs))"

definition Stack :: "frame list \<Rightarrow> nat \<Rightarrow> string" where
  "Stack callers skip = stack_loop (take StackFrames (drop skip callers))"

subsection \<open>The adapter\<close>

datatype log_entry =
    LogError string err string
  | LogDebug string string
  | LogTrace (lt_namespace: string) (lt_name: string) (lt_uid: string) (lt_results: nat) (lt_msg: string)
  | OutWrite string

record ('q, 'k) kube_world = "('q, 'k) queue_world" +
  logs :: "log_entry list"

definition log_do :: "log_entry list \<Rightarrow> ('q, 'k, 'z) kube_world_scheme \<Rightarrow> ('q, 'k, 'z) kube_world_scheme" where
  "log_do es w = w\<lparr>logs := logs w @ es\<rparr>"

definition handler_Handle ::
  "(any \<Rightarrow> bool) \<Rightarrow> (any \<Rightarrow> ('z go_world_scheme, time option \<times> err option) go) \<Rightarrow> err Error
     \<Rightarrow> any \<Rightarrow> ('z go_world_scheme, time option \<times> err option) go" where
  "handler_Handle is_T handle base obj w =
     (if \<not> is_T obj then
        (case alloc w of (a, w') \<Rightarrow>
           (Ret (None, Some (Error_New a base ''invalid type [type=%T]'' [arg_of_any obj])), w'))
      else handle obj w)"

definition handler_Notify ::
  "frame list \<Rightarrow> err Error \<Rightarrow> string \<Rightarrow> err option \<Rightarrow> (('q, 'k, 'z) kube_world_scheme, unit) go" where
  "handler_Notify callers base msg err w =
     (case Error_Error base of
        Panic p \<Rightarrow> (Panic p, w)
      | Ret name \<Rightarrow>
          (case err of
             Some e \<Rightarrow>
               if errors_Is (Some e) (Some (ErrorPtr ErrPanic))
               then (Ret (), log_do [LogError name e msg, OutWrite (Stack callers StackFramesSkip)] w)
               else (Ret (), log_do [LogError name e msg] w)
           | None \<Rightarrow> (Ret (), log_do [LogDebug name msg] w)))"

definition NewHandler ::
  "frame list \<Rightarrow> (any \<Rightarrow> bool) \<Rightarrow> (any \<Rightarrow> (('q, 'k, 'z) kube_world_scheme, time option \<times> err option) go)
     \<Rightarrow> err Error \<Rightarrow> ('q, 'k, 'z) kube_world_scheme handler_ops" where
  "NewHandler callers is_T handle base =
     \<lparr>h_Handle = handler_Handle is_T handle base, h_Notify = handler_Notify callers base\<rparr>"

subsection \<open>The contract of \<open>Notify\<close>\<close>

text \<open>What the processor relies on: notifying does not touch the queues, the clock or the metrics.\<close>

locale notify_contract =
  fixes h :: "('q, 'k, 'z) kube_world_scheme handler_ops"
  assumes notify_only: "snd (h_Notify h msg e w) = w\<lparr>logs := logs (snd (h_Notify h msg e w))\<rparr>"
begin

lemma notify_frame:
  "now (snd (h_Notify h msg e w)) = now w" "next_addr (snd (h_Notify h msg e w)) = next_addr w"
  "wqs (snd (h_Notify h msg e w)) = wqs w" "queued (snd (h_Notify h msg e w)) = queued w"
  "prom (snd (h_Notify h msg e w)) = prom w" "trackers (snd (h_Notify h msg e w)) = trackers w"
  by (subst notify_only, simp)+

end

interpretation new_handler: notify_contract "NewHandler callers is_T handle base"
  for callers is_T handle base
  by unfold_locales
    (simp add: NewHandler_def handler_Notify_def log_do_def split: outcome.split option.split)

subsection \<open>Stack traces\<close>

lemma stack_loop_eq:
  "stack_loop fs = concat (map frame_text (takeWhile (\<lambda>f. fr_Function f \<noteq> []) fs))"
  by (induction fs) auto

text \<open>The base error of a handler that can print itself.\<close>

lemma handler_Notify_named:
  assumes "Error_Error base = Ret name"
  shows "handler_Notify callers base msg err w =
    (Ret (), log_do (case err of
        None \<Rightarrow> [LogDebug name msg]
      | Some e \<Rightarrow> LogError name e msg #
          (if errors_Is (Some e) (Some (ErrorPtr ErrPanic)) then [OutWrite (Stack callers StackFramesSkip)] else [])) w)"
  using assms by (simp add: handler_Notify_def split: option.split)

subsection \<open>Properties\<close>

text \<open>
  The adapter hands a resource to the typed function exactly if it has the type;
  otherwise it returns an error that matches the handler's base error and names the dynamic
  type, schedules nothing and changes nothing but the allocator.
\<close>

lemma handler_dispatch:
  "h_Handle (NewHandler callers is_T handle (New a b name)) obj w =
     (if is_T obj then handle obj w
      else (Ret (None, Some (Error_New (next_addr w) (New a b name) ''invalid type [type=%T]'' [arg_of_any obj])),
            snd (alloc w))) \<and>
   err_text (Error_New c (New a b name) ''invalid type [type=%T]'' [arg_of_any obj]) =
     Some (name @ '' - invalid type [type='' @ any_type obj @ '']'') \<and>
   errors_Is (Some (Error_New c (New a b name) ''invalid type [type=%T]'' [arg_of_any obj]))
     (Some (ErrorPtr (New a b name)))"
  by (cases obj) (simp_all add: NewHandler_def handler_Handle_def alloc_def err_text_Error_New run_format render_def arg_text_def surplus_def)

text \<open>
  \<open>Notify\<close> writes one log entry per call under the handler's name, an error entry
  exactly if there is an error; behind it a stack trace exactly if the error matches
  \<open>ErrPanic\<close>. The trace is the text of the frames after the skipped ones, at most sixteen,
  up to the first frame without function name.
\<close>

lemma notify_logs:
  "h_Notify (NewHandler callers is_T handle (New a b name)) msg err w =
     (Ret (), w\<lparr>logs := logs w @
        (case err of
           None \<Rightarrow> [LogDebug name msg]
         | Some e \<Rightarrow> LogError name e msg #
             (if errors_Is err (Some (ErrorPtr ErrPanic))
              then [OutWrite (concat (map frame_text
                     (takeWhile (\<lambda>f. fr_Function f \<noteq> []) (take 16 (drop 5 callers)))))]
              else []))\<rparr>)"
  by (auto simp: NewHandler_def handler_Notify_def Error_Error_def New_def log_do_def Stack_def
      stack_loop_eq StackFrames_def StackFramesSkip_def split: option.splits)

end
