(* ===== verification/Owner_Index.thy ===== *)
theory Owner_Index
  imports Kube_Objects "HOL-Library.Multiset"
begin

section \<open>Owner indexes: \<open>controller/indexer.go\<close>\<close>

text \<open>
  The index functions the controller registers with the informer's cache, and the view
  of that cache the controller reads. The cache itself (\<open>cache.Indexer\<close>) is client-go
  code: a snapshot of it is the record \<open>indexer\<close>, an argument of the definitions that
  read it, and \<open>registered\<close> states what client-go documents for an index function that
  was registered under a name.
\<close>

subsection \<open>Index functions\<close>

definition IndexOwnerUID :: string where
  "IndexOwnerUID = ''owner-uid''"

definition IndexOwnerName :: string where
  "IndexOwnerName = ''owner-name''"

text \<open>
  \<open>ownerKeys\<close>: an object without accessor is an error; calling a method on the nil
  metadata of an accessor panics. The address is the one a new error gets.
\<close>

definition ownerKeys ::
  "addr \<Rightarrow> any \<Rightarrow> (owner_ref \<Rightarrow> string) \<Rightarrow> (go_arg, err + string list) outcome" where
  "ownerKeys a obj key =
     (case as_accessor obj of
        None \<Rightarrow> Ret (Inl (Error_New a ErrController ''object has no meta: %T'' [arg_of_any obj]))
      | Some None \<Rightarrow> Panic (AErr (RuntimeError nil_deref))
      | Some (Some m) \<Rightarrow> Ret (Inr (foldl (\<lambda>keys oref. keys @ [key oref]) [] (meta_owners m))))"

type_synonym index_func = "addr \<Rightarrow> any \<Rightarrow> (go_arg, err + string list) outcome"

definition OwnerUIDIndexFunc :: index_func where
  "OwnerUIDIndexFunc a obj = ownerKeys a obj oref_uid"

definition OwnerNameIndexFunc :: index_func where
  "OwnerNameIndexFunc a obj = ownerKeys a obj oref_name"

definition OwnerIndexers :: "string \<rightharpoonup> index_func" where
  "OwnerIndexers = [IndexOwnerUID \<mapsto> OwnerUIDIndexFunc, IndexOwnerName \<mapsto> OwnerNameIndexFunc]"

lemma foldl_snoc_map [simp]: "foldl (\<lambda>keys x. keys @ [f x]) ks xs = ks @ map f xs"
  by (induction xs arbitrary: ks) auto

lemma ownerKeys_meta:
  "as_accessor obj = Some (Some m) \<Longrightarrow> ownerKeys a obj key = Ret (Inr (map key (meta_owners m)))"
  by (simp add: ownerKeys_def)

subsection \<open>A snapshot of the cache\<close>

text \<open>
  \<open>GetByKey\<close> returns the value, whether it exists and an error; \<open>ByIndex\<close> an error if
  no index has the name, otherwise the cached objects stored under the value.
\<close>

record indexer =
  GetByKey :: "string \<Rightarrow> any \<times> bool \<times> err option"
  ByIndex :: "string \<Rightarrow> string \<Rightarrow> err + any list"
  List_all :: "any list"

definition indexed_under :: "index_func \<Rightarrow> string \<Rightarrow> any \<Rightarrow> bool" where
  "indexed_under f v obj = (case f 0 obj of Ret (Inr ks) \<Rightarrow> v \<in> set ks | _ \<Rightarrow> False)"

text \<open>
  client-go on \<open>ByIndex\<close>: an error for a name that was not registered; for a registered
  name the stored objects whose indexed values include the given value.
\<close>

definition unregistered :: "indexer \<Rightarrow> string \<Rightarrow> bool" where
  "unregistered ix name \<longleftrightarrow> (\<forall>v. \<exists>e. ByIndex ix name v = Inl e)"

definition registered :: "indexer \<Rightarrow> string \<Rightarrow> index_func \<Rightarrow> bool" where
  "registered ix name f \<longleftrightarrow>
     (\<forall>v. \<exists>xs. ByIndex ix name v = Inr xs \<and>
        mset xs = filter_mset (indexed_under f v) (mset (List_all ix)))"

lemma indexed_under_owner:
  "as_accessor obj \<noteq> Some None \<Longrightarrow>
     indexed_under OwnerUIDIndexFunc v obj = (\<exists>m. as_accessor obj = Some (Some m) \<and> v \<in> oref_uid ` set (meta_owners m))"
  "as_accessor obj \<noteq> Some None \<Longrightarrow>
     indexed_under OwnerNameIndexFunc v obj = (\<exists>m. as_accessor obj = Some (Some m) \<and> v \<in> oref_name ` set (meta_owners m))"
  by (auto simp: indexed_under_def OwnerUIDIndexFunc_def OwnerNameIndexFunc_def ownerKeys_def
      split: option.splits)

subsection \<open>Properties\<close>

text \<open>
  The owner indexes are exactly \<open>owner-uid\<close> and \<open>owner-name\<close>; their functions yield,
  for an object with metadata, one key per owner reference in order (its uid, its name), an
  error matching \<open>ErrController\<close> for an object without accessor, and a panic for an
  accessor with nil metadata.
\<close>

lemma owner_index_functions:
  "OwnerIndexers name =
     (if name = ''owner-uid'' then Some OwnerUIDIndexFunc
      else if name = ''owner-name'' then Some OwnerNameIndexFunc else None) \<and>
   (case as_accessor obj of
      Some (Some m) \<Rightarrow> OwnerUIDIndexFunc a obj = Ret (Inr (map oref_uid (meta_owners m))) \<and>
        OwnerNameIndexFunc a obj = Ret (Inr (map oref_name (meta_owners m)))
    | Some None \<Rightarrow> panics (OwnerUIDIndexFunc a obj) \<and> panics (OwnerNameIndexFunc a obj)
    | None \<Rightarrow> (\<exists>e. OwnerUIDIndexFunc a obj = Ret (Inl e) \<and> OwnerNameIndexFunc a obj = Ret (Inl e) \<and>
        errors_Is (Some e) (Some (ErrorPtr ErrController))))"
  by (auto simp: OwnerIndexers_def IndexOwnerUID_def IndexOwnerName_def OwnerUIDIndexFunc_def
      OwnerNameIndexFunc_def ownerKeys_def errors_Is_Error_New ErrController_def New_def
      split: option.splits)

end
