(* ===== verification/Processors.thy ===== *)
theory Processors
  imports Handlers Owner_Index
begin

section \<open>Event handlers and processors: \<open>controller/processor.go\<close>\<close>

text \<open>
  \<open>ResourceEventHandler\<close> turns informer events into queue entries, \<open>Processor\<close> takes
  entries from the queue and lets the handler process the resources. The delays of the
  enqueuing (\<open>Delay\<close> of \<open>controller.go\<close>) are part of this theory, since the event handler
  calls them. Foreign code that is an argument: the key functions of client-go, the cache
  snapshot the processor looks keys up in, the work queue behind the \<open>Queue\<close> interface and
  the handler. A panic of foreign code is a value; \<open>recover\<close> and the deferred calls are
  written out.
\<close>

subsection \<open>Delays\<close>

record Delay =
  Debounce :: duration
  Resync :: duration

definition NewDelay :: "duration \<Rightarrow> duration \<Rightarrow> Delay" where
  "NewDelay debounce rsync = \<lparr>Debounce = debounce, Resync = rsync\<rparr>"

text \<open>\<open>hash/fnv\<close>: the 64-bit FNV-1a hash of a byte string.\<close>

unbundle bit_operations_syntax

definition fnv_offset :: "64 word" where "fnv_offset = 14695981039346656037"
definition fnv_prime :: "64 word" where "fnv_prime = 1099511628211"

definition fnv_byte :: "64 word \<Rightarrow> char \<Rightarrow> 64 word" where
  "fnv_byte h c = (h XOR of_char c) * fnv_prime"

definition fnv64a :: "string \<Rightarrow> 64 word" where
  "fnv64a key = foldl fnv_byte fnv_offset key"

definition max_int64 :: "64 word" where "max_int64 = 0x7FFFFFFFFFFFFFFF"

text \<open>The conversion to \<open>time.Duration\<close> reads the bits as signed, \<open>%\<close> truncates.\<close>

definition Jitter :: "Delay \<Rightarrow> string \<Rightarrow> duration" where
  "Jitter d key =
     (if Resync d \<le> 0 then 0
      else sint (fnv64a key AND max_int64) smod Resync d)"

definition delay_for :: "Delay \<Rightarrow> string \<Rightarrow> bool \<Rightarrow> duration" where
  "delay_for d key rsync = (if rsync \<and> Resync d > 0 then Jitter d key else Debounce d)"

subsection \<open>The event handler\<close>

record ('s) ResourceEventHandler =
  reh_handler :: "'s handler_ops"
  reh_queue :: "(string, 's) queue_ops"
  reh_delay :: Delay
  reh_filter :: "'s event_filter option"

text \<open>\<open>combine\<close>: nil without filters, otherwise the conjunction.\<close>

definition combine :: "'s event_filter option list \<Rightarrow> 's event_filter option" where
  "combine fs = (if fs = [] then None else Some (And fs))"

definition NewResourceEventHandler ::
  "'s handler_ops \<Rightarrow> (string, 's) queue_ops \<Rightarrow> Delay \<Rightarrow> 's event_filter option list \<Rightarrow> 's ResourceEventHandler" where
  "NewResourceEventHandler handler queue delay fs =
     \<lparr>reh_handler = handler, reh_queue = queue, reh_delay = delay, reh_filter = combine fs\<rparr>"

text \<open>\<open>resync\<close> and \<open>object\<close>.\<close>

definition is_resync :: "any \<Rightarrow> any \<Rightarrow> bool" where
  "is_resync prev obj =
     (case (meta prev, meta obj) of
        (Some before, Some after) \<Rightarrow> meta_version before = meta_version after
      | _ \<Rightarrow> False)"

fun object :: "any \<Rightarrow> any" where
  "object (Tombstone _ obj) = object obj"
| "object (Value t True acc r) = Value t True acc r"
| "object (Value t False acc r) = Nil_any"
| "object Nil_any = Nil_any"

text \<open>
  \<open>enqueue\<close>. A key function of client-go returns a key and an error. A panic of the
  handler's \<open>Notify\<close> leaves the call.
\<close>

type_synonym key_func = "any \<Rightarrow> string \<times> err option"

definition enqueue ::
  "'s ResourceEventHandler \<Rightarrow> op \<Rightarrow> any \<Rightarrow> any \<Rightarrow> key_func \<Rightarrow> ('s, unit) go" where
  "enqueue r oper prev obj keyfn w =
     (case keyfn obj of
        (key, Some err) \<Rightarrow> h_Notify (reh_handler r) key (Some err) w
      | (key, None) \<Rightarrow>
          let before = object prev; after = object obj;
              (pass, w1) = (case reh_filter r of
                              None \<Rightarrow> (True, w)
                            | Some f \<Rightarrow> f oper before after w)
          in if \<not> pass then (Ret (), w1)
             else let delay = delay_for (reh_delay r) key (oper = OpUpdate \<and> is_resync before after)
                  in if delay > 0 then (Ret (), q_AddAfter (reh_queue r) key delay w1)
                     else (Ret (), q_Add (reh_queue r) key w1))"

definition OnAdd :: "key_func \<Rightarrow> 's ResourceEventHandler \<Rightarrow> any \<Rightarrow> bool \<Rightarrow> ('s, unit) go" where
  "OnAdd meta_key r obj is_init = enqueue r OpAdd Nil_any obj meta_key"

definition OnUpdate :: "key_func \<Rightarrow> 's ResourceEventHandler \<Rightarrow> any \<Rightarrow> any \<Rightarrow> ('s, unit) go" where
  "OnUpdate meta_key r prev obj = enqueue r OpUpdate prev obj meta_key"

definition OnDelete :: "key_func \<Rightarrow> 's ResourceEventHandler \<Rightarrow> any \<Rightarrow> ('s, unit) go" where
  "OnDelete deletion_key r obj = enqueue r OpDelete Nil_any obj deletion_key"

subsection \<open>The processor\<close>

record 's Processor =
  p_handler :: "'s handler_ops"
  p_workers :: int
  p_indexer :: "'s \<Rightarrow> indexer"
  p_queue :: "(string, 's) queue_ops"
  p_recorder :: "'s recorder_ops option"

definition NewProcessor ::
  "'s handler_ops \<Rightarrow> ('s \<Rightarrow> indexer) \<Rightarrow> int \<Rightarrow> (string, 's) queue_ops \<Rightarrow> 's recorder_ops option \<Rightarrow> 's Processor" where
  "NewProcessor handler informer_indexer workers queue recorder =
     \<lparr>p_handler = handler, p_workers = workers, p_indexer = informer_indexer, p_queue = queue,
      p_recorder = recorder\<rparr>"

text \<open>\<open>p.handler.Notify(ctx, key, err); return err\<close>.\<close>

definition notify_return ::
  "'s Processor \<Rightarrow> string \<Rightarrow> err \<Rightarrow> err option \<Rightarrow> ('s, err option) go" where
  "notify_return p key note result w =
     (case h_Notify (p_handler p) key (Some note) w of
        (Panic v, w') \<Rightarrow> (Panic v, w')
      | (Ret _, w') \<Rightarrow> (Ret result, w'))"

text \<open>The body of \<open>handle\<close>, without the deferred \<open>recover\<close>.\<close>

definition handle_body ::
  "'z go_world_scheme Processor \<Rightarrow> string \<Rightarrow> ('z go_world_scheme, err option) go" where
  "handle_body p key w =
     (case GetByKey (p_indexer p w) key of (obj, exists, err) \<Rightarrow>
        (case err of
           Some e \<Rightarrow>
             (case alloc w of (a, w1) \<Rightarrow>
                let e' = Error_New a ErrController ''get-by-key [key=%s]: %w'' [AStr key, AErr e]
                in notify_return p key e' (Some e') w1)
         | None \<Rightarrow>
             if \<not> exists then (Ret None, w)
             else case as_object obj of
               None \<Rightarrow>
                 (case alloc w of (a, w1) \<Rightarrow>
                    let e' = Error_New a ErrController ''type assertion: %T'' [arg_of_any obj]
                    in notify_return p key e' (Some e') w1)
             | Some resource \<Rightarrow>
                 (case h_Handle (p_handler p) resource w of
                    (Panic v, w1) \<Rightarrow> (Panic v, w1)
                  | (Ret (next, err), w1) \<Rightarrow>
                      (case err of
                         Some e \<Rightarrow>
                           (case alloc w1 of (a, w2) \<Rightarrow>
                              let e' = Error_New a ErrController ''handle [key=%s]: %w'' [AStr key, AErr e]
                              in case q_Requeue (p_queue p) key w2 of
                                   (None, w3) \<Rightarrow> (Ret (Some e'), w3)
                                 | (Some rerr, w3) \<Rightarrow>
                                     (case alloc w3 of (b, w4) \<Rightarrow>
                                        notify_return p key
                                          (Error_New b ErrController ''could not retry: %s: %w'' [AErr rerr, AErr e'])
                                          (Some e') w4))
                       | None \<Rightarrow>
                           (case next of
                              Some t \<Rightarrow>
                                let until = time_until (now w1) t;
                                    delay = (if until < 0 then 0 else until)
                                in (Ret None, q_AddAfter (p_queue p) key delay w1)
                            | None \<Rightarrow> (Ret None, w1))))))"

text \<open>The deferred \<open>recover\<close>: the error result is replaced and the handler notified.\<close>

definition Processor_recover ::
  "'z go_world_scheme Processor \<Rightarrow> string \<Rightarrow> (go_arg, err option) outcome \<Rightarrow> ('z go_world_scheme, err option) go" where
  "Processor_recover p key res w =
     (case res of
        Ret err \<Rightarrow> (Ret err, w)
      | Panic v \<Rightarrow>
          (case alloc w of (a, w1) \<Rightarrow>
             let e' = Error_New a ErrPanic '': %w'' [v] in notify_return p key e' (Some e') w1))"

definition Processor_handle ::
  "'z go_world_scheme Processor \<Rightarrow> string \<Rightarrow> ('z go_world_scheme, err option) go" where
  "Processor_handle p key w =
     (case handle_body p key w of (res, w1) \<Rightarrow> Processor_recover p key res w1)"

text \<open>
  \<open>process\<close>: \<open>None\<close> if \<open>Get\<close> never returns. The deferred \<open>Done\<close> also runs when a panic
  leaves \<open>handle\<close>.
\<close>

definition Processor_process ::
  "'z go_world_scheme Processor \<Rightarrow> 'z go_world_scheme \<Rightarrow> ((go_arg, bool) outcome \<times> 'z go_world_scheme) option" where
  "Processor_process p w =
     (let start = (case p_recorder p of None \<Rightarrow> 0 | Some _ \<Rightarrow> now w)
      in case q_Get (p_queue p) w of
           None \<Rightarrow> None
         | Some ((key, exit), w1) \<Rightarrow>
             if exit then Some (Ret True, w1)
             else case Processor_handle p key w1 of
               (Panic v, w2) \<Rightarrow> Some (Panic v, q_Done (p_queue p) key w2)
             | (Ret err, w2) \<Rightarrow>
                 let w3 = (if err = None then q_Forget (p_queue p) key w2 else w2);
                     w4 = (case p_recorder p of
                             None \<Rightarrow> w3
                           | Some r \<Rightarrow> rec_DoneEvent r (q_Name (p_queue p)) (err = None) start w3)
                 in Some (Ret False, q_Done (p_queue p) key w4))"

text \<open>\<open>Process\<close>: the loop ends when \<open>process\<close> says so or panics; it may run forever.\<close>

partial_function (option) Processor_Process ::
  "'z go_world_scheme Processor \<Rightarrow> 'z go_world_scheme \<Rightarrow> ((go_arg, unit) outcome \<times> 'z go_world_scheme) option" where
  "Processor_Process p w =
     Option.bind (Processor_process p w) (\<lambda>(res, w1).
       case res of
         Panic v \<Rightarrow> Some (Panic v, w1)
       | Ret exit \<Rightarrow> if exit then Some (Ret (), w1) else Processor_Process p w1)"

subsection \<open>The hash and the jitter\<close>




text \<open>The prime is odd, so multiplying with it can be undone modulo \<open>2 ^ 64\<close>.\<close>

definition fnv_prime_inverse :: "64 word" where
  "fnv_prime_inverse = 14886173955864302971"

lemma fnv_prime_invertible: "fnv_prime * fnv_prime_inverse = 1"
  by (simp add: fnv_prime_def fnv_prime_inverse_def)

lemma mult_fnv_prime_inject [simp]: "x * fnv_prime = y * fnv_prime \<longleftrightarrow> x = y"
proof
  assume "x * fnv_prime = y * fnv_prime"
  then have "x * fnv_prime * fnv_prime_inverse = y * fnv_prime * fnv_prime_inverse" by simp
  then show "x = y" by (simp add: mult.assoc fnv_prime_invertible)
qed simp

lemma xor_right_inject [simp]: "(x XOR c = y XOR c) = (x = y)" for x y c :: "64 word"
proof
  assume eq: "x XOR c = y XOR c"
  have "x = (x XOR c) XOR c" by (simp add: xor.assoc)
  also have "\<dots> = (y XOR c) XOR c" by (simp only: eq)
  also have "\<dots> = y" by (simp add: xor.assoc)
  finally show "x = y" .
qed simp

lemma of_char_inject_word: "(of_char c :: 64 word) = of_char c' \<longleftrightarrow> c = c'"
proof
  assume "(of_char c :: 64 word) = of_char c'"
  then have "of_nat (of_char c) = (of_nat (of_char c') :: 64 word)" by (simp add: of_nat_of_char)
  moreover have "take_bit 64 (of_char b :: nat) = of_char b" for b
    by (rule take_bit_nat_eq_self, rule less_trans [OF nat_of_char_less_256]) simp
  ultimately show "c = c'" by (simp add: word_of_nat_eq_iff)
qed simp

lemma fnv_byte_inject: "fnv_byte h c = fnv_byte h' c \<longleftrightarrow> h = h'"
  by (simp add: fnv_byte_def)

lemma fnv_byte_char_inject: "fnv_byte h c = fnv_byte h c' \<longleftrightarrow> c = c'"
proof -
  have "fnv_byte h c = fnv_byte h c' \<longleftrightarrow> of_char c XOR h = of_char c' XOR h"
    by (simp add: fnv_byte_def xor.commute)
  then show ?thesis by (simp add: of_char_inject_word)
qed

lemma foldl_fnv_inject: "foldl fnv_byte h s = foldl fnv_byte h' s \<longleftrightarrow> h = h'"
  by (induction s arbitrary: h h') (simp_all add: fnv_byte_inject)


lemma fnv64a_append: "fnv64a (k @ s) = foldl fnv_byte (fnv64a k) s"
  by (simp add: fnv64a_def)

subsection \<open>Symbolic execution\<close>

lemma notify_return_simps:
  "h_Notify (p_handler p) key (Some note) w = (Ret u, w') \<Longrightarrow>
     notify_return p key note result w = (Ret result, w')"
  "h_Notify (p_handler p) key (Some note) w = (Panic v, w') \<Longrightarrow>
     notify_return p key note result w = (Panic v, w')"
  by (simp_all add: notify_return_def)

lemma handle_missing:
  "GetByKey (p_indexer p w) key = (obj, False, None) \<Longrightarrow> Processor_handle p key w = (Ret None, w)"
  by (simp add: Processor_handle_def handle_body_def Processor_recover_def)

lemma handle_panic:
  assumes "GetByKey (p_indexer p w) key = (obj, True, None)" and "as_object obj = Some resource"
    and "h_Handle (p_handler p) resource w = (Panic v, w1)"
  shows "Processor_handle p key w =
    (let e = Error_New (next_addr w1) ErrPanic '': %w'' [v]
     in notify_return p key e (Some e) (snd (alloc w1)))"
  using assms by (simp add: Processor_handle_def handle_body_def Processor_recover_def alloc_def Let_def)

lemma handle_failure:
  assumes "GetByKey (p_indexer p w) key = (obj, True, None)" and "as_object obj = Some resource"
    and "h_Handle (p_handler p) resource w = (Ret (next, Some e), w1)"
    and "q_Requeue (p_queue p) key (snd (alloc w1)) = (None, w2)"
  shows "Processor_handle p key w =
    (Ret (Some (Error_New (next_addr w1) ErrController ''handle [key=%s]: %w'' [AStr key, AErr e])), w2)"
  using assms by (simp add: Processor_handle_def handle_body_def Processor_recover_def alloc_def Let_def)

lemma handle_exhausted:
  assumes "GetByKey (p_indexer p w) key = (obj, True, None)" and "as_object obj = Some resource"
    and "h_Handle (p_handler p) resource w = (Ret (next, Some e), w1)"
    and "q_Requeue (p_queue p) key (snd (alloc w1)) = (Some rerr, w2)"
    and "e' = Error_New (next_addr w1) ErrController ''handle [key=%s]: %w'' [AStr key, AErr e]"
    and "h_Notify (p_handler p) key
      (Some (Error_New (next_addr w2) ErrController ''could not retry: %s: %w'' [AErr rerr, AErr e'])) (snd (alloc w2))
      = (Ret u, w3)"
  shows "Processor_handle p key w = (Ret (Some e'), w3)"
  using assms
  by (simp add: Processor_handle_def handle_body_def Processor_recover_def alloc_def Let_def notify_return_def)

lemma handle_success:
  assumes "GetByKey (p_indexer p w) key = (obj, True, None)" and "as_object obj = Some resource"
    and "h_Handle (p_handler p) resource w = (Ret (nxt, None), w1)"
  shows "Processor_handle p key w =
    (Ret None, case nxt of None \<Rightarrow> w1
       | Some t \<Rightarrow> q_AddAfter (p_queue p) key (max 0 (time_until (now w1) t)) w1)"
  using assms
  by (cases nxt) (auto simp: Processor_handle_def handle_body_def Processor_recover_def Let_def max_def)

text \<open>If no \<open>Notify\<close> panics, neither does \<open>handle\<close>, whatever the handler does.\<close>

lemma handle_returns:
  assumes "\<forall>msg e w. \<exists>u w'. h_Notify (p_handler p) msg e w = (Ret u, w')"
  shows "\<exists>err w'. Processor_handle p key w = (Ret err, w')"
proof -
  have note_ret: "\<exists>err w'. notify_return p key n r v = (Ret err, w')" for n r v
    using assms [rule_format, of key "Some n" v] by (auto simp: notify_return_def)
  show ?thesis
    using note_ret
    by (cases "fst (handle_body p key w)")
      (simp_all add: Processor_handle_def Processor_recover_def Let_def case_prod_beta)
qed

subsection \<open>Processors as the controller builds them\<close>

text \<open>
  The queue a controller makes for a handler (a retry queue, under a monitor queue sharing
  its address where there is a recorder) and the processor on it, with the handlers and
  recorders of this package.
\<close>

definition built_queue ::
  "('q, 'k) wq_ops \<Rightarrow> RetryQueue \<Rightarrow> ('q, 'k, 'z) queue_world_scheme recorder_ops option
     \<Rightarrow> ('k, ('q, 'k, 'z) queue_world_scheme) queue_ops" where
  "built_queue wq q recorder =
     (case recorder of
        None \<Rightarrow> retry_queue wq q
      | Some r \<Rightarrow> monitor_queue \<lparr>mq_Queue = retry_queue wq q, mq_mrec = r, mq_time = rq_queue q\<rparr>)"

lemma NewRateLimitedQueue_built:
  assumes "NewRateLimitedQueue wq a name fresh retries recorder w = Ret (queue, w')"
  shows "queue = built_queue wq \<lparr>rq_name = name, rq_queue = a, rq_retries = retries\<rparr> recorder"
  using assms
  by (auto simp: NewRateLimitedQueue_def NewMonitorQueue_def NewRetryQueue_def built_queue_def Let_def
      split: option.splits outcome.splits)

abbreviation default_recorder_opt ::
  "registerer \<Rightarrow> DefaultRecorder option \<Rightarrow> 'z recorder_world_scheme recorder_ops option" where
  "default_recorder_opt rejects dr \<equiv> map_option (default_recorder rejects) dr"

lemma built_do_transparent:
  "fst (queue_do (built_queue wq q (default_recorder_opt rejects dr)) c w) = fst (queue_do (retry_queue wq q) c w) \<and>
   same_wq (snd (queue_do (built_queue wq q (default_recorder_opt rejects dr)) c w))
     (snd (queue_do (retry_queue wq q) c w))"
proof (cases dr)
  case None
  then show ?thesis by (simp add: built_queue_def same_wq_def)
next
  case (Some r)
  then show ?thesis
    using monitor_do_transparent [OF monitor.monitored_axioms, of wq q rejects r "rq_queue q" wq q c w]
    by (simp add: built_queue_def)
qed

lemma built_simps [simp]:
  "q_Name (built_queue wq q r) = rq_name q"
  "q_Done (built_queue wq q r) = q_Done (retry_queue wq q)"
  "q_Forget (built_queue wq q r) = q_Forget (retry_queue wq q)"
  by (simp_all add: built_queue_def monitor_queue_def retry_queue_def split: option.split)

lemma built_Get:
  assumes "q_Get (built_queue wq q (default_recorder_opt rejects dr)) w = Some ((key, shut), w1)"
  obtains n q' where "wq_Get wq (now w) (wqs w (rq_queue q)) = Some ((key, shut), n, q')"
    and "now w1 = now w + int n" and "wqs w1 = (wqs w)(rq_queue q := q')"
proof -
  from built_do_transparent [of wq q rejects dr CGet w] assms have
    "fst (queue_do (retry_queue wq q) CGet w) = RGot key shut"
    "same_wq w1 (snd (queue_do (retry_queue wq q) CGet w))" by simp_all
  then show thesis
    by (auto simp: retry_defs same_wq_def split: option.splits intro: that)
qed

lemma built_Get_Some:
  assumes "wq_Get wq (now w) (wqs w (rq_queue q)) = Some ((key, shut), n, q')"
  shows "\<exists>w1. q_Get (built_queue wq q (default_recorder_opt rejects dr)) w = Some ((key, shut), w1) \<and>
    now w1 = now w + int n \<and> wqs w1 = (wqs w)(rq_queue q := q')"
proof -
  let ?bq = "built_queue wq q (default_recorder_opt rejects dr)"
  have "fst (queue_do (retry_queue wq q) CGet w) = RGot key shut"
    and retry: "now (snd (queue_do (retry_queue wq q) CGet w)) = now w + int n"
      "wqs (snd (queue_do (retry_queue wq q) CGet w)) = (wqs w)(rq_queue q := q')"
    using assms by (simp_all add: retry_defs)
  with built_do_transparent [of wq q rejects dr CGet w]
  have "fst (queue_do ?bq CGet w) = RGot key shut"
    and "same_wq (snd (queue_do ?bq CGet w)) (snd (queue_do (retry_queue wq q) CGet w))" by simp_all
  with retry show ?thesis
    by (cases "q_Get ?bq w") (auto simp: same_wq_def)
qed

interpretation built: queue_contract "built_queue wq q (default_recorder_opt rejects dr)" for wq q rejects dr
proof (cases dr)
  case None
  then show "queue_contract (built_queue wq q (default_recorder_opt rejects dr))"
    by (simp add: built_queue_def retry.queue_contract_axioms)
next
  case (Some r)
  then show "queue_contract (built_queue wq q (default_recorder_opt rejects dr))"
    by (simp add: built_queue_def monitor.queue_contract_axioms)
qed

lemma logs_more: "queue_world.more w = queue_world.more v \<Longrightarrow> logs w = logs v"
  by (cases w, cases v) simp

lemma built_Requeue:
  fixes w :: "('q, 'k, 'z) kube_world_scheme"
  shows
  "fst (q_Requeue (built_queue wq q (default_recorder_opt rejects dr)) key w) =
     (if rq_retries q < 0 \<or> wq_NumRequeues wq key (wqs w (rq_queue q)) < rq_retries q then None else Some ErrMaxRetries)"
  "wqs (snd (q_Requeue (built_queue wq q (default_recorder_opt rejects dr)) key w)) =
     (wqs w)(rq_queue q := if rq_retries q < 0 \<or> wq_NumRequeues wq key (wqs w (rq_queue q)) < rq_retries q
        then wq_AddRateLimited wq (now w) key (wqs w (rq_queue q)) else wq_Forget wq key (wqs w (rq_queue q)))"
  "logs (snd (q_Requeue (built_queue wq q (default_recorder_opt rejects dr)) key w)) = logs w"
proof -
  from built_do_transparent [of wq q rejects dr "CRequeue key" w] show
    "fst (q_Requeue (built_queue wq q (default_recorder_opt rejects dr)) key w) =
     (if rq_retries q < 0 \<or> wq_NumRequeues wq key (wqs w (rq_queue q)) < rq_retries q then None else Some ErrMaxRetries)"
    "wqs (snd (q_Requeue (built_queue wq q (default_recorder_opt rejects dr)) key w)) =
     (wqs w)(rq_queue q := if rq_retries q < 0 \<or> wq_NumRequeues wq key (wqs w (rq_queue q)) < rq_retries q
        then wq_AddRateLimited wq (now w) key (wqs w (rq_queue q)) else wq_Forget wq key (wqs w (rq_queue q)))"
    by (simp_all add: retry_defs same_wq_def)
  show "logs (snd (q_Requeue (built_queue wq q (default_recorder_opt rejects dr)) key w)) = logs w"
    by (rule logs_more) (rule built.more_ops)
qed

text \<open>What \<open>process\<close> does once \<open>Get\<close> and \<open>handle\<close> have returned.\<close>

lemma process_after_handle:
  assumes "q_Get (p_queue p) w = Some ((key, False), w1)" and "Processor_handle p key w1 = (Ret err, w2)"
  shows "Processor_process p w = Some (Ret False,
    q_Done (p_queue p) key
      (case p_recorder p of
         None \<Rightarrow> (if err = None then q_Forget (p_queue p) key w2 else w2)
       | Some r \<Rightarrow> rec_DoneEvent r (q_Name (p_queue p)) (err = None) (now w)
           (if err = None then q_Forget (p_queue p) key w2 else w2)))"
  using assms by (simp add: Processor_process_def Let_def split: option.split)

lemma process_after_panic:
  assumes "q_Get (p_queue p) w = Some ((key, False), w1)" and "Processor_handle p key w1 = (Panic v, w2)"
  shows "Processor_process p w = Some (Panic v, q_Done (p_queue p) key w2)"
  using assms by (simp add: Processor_process_def Let_def split: option.split)

lemma process_exit:
  assumes "q_Get (p_queue p) w = Some ((key, True), w1)"
  shows "Processor_process p w = Some (Ret True, w1)"
  using assms by (simp add: Processor_process_def Let_def)

definition finish_item :: "('q, 'k) wq_ops \<Rightarrow> 'k \<Rightarrow> (go_arg, err option) outcome \<Rightarrow> 'q \<Rightarrow> 'q" where
  "finish_item wq key res queue =
     wq_Done wq key (case res of Ret None \<Rightarrow> wq_Forget wq key queue | _ \<Rightarrow> queue)"

lemma process_wqs:
  assumes "p_queue p = built_queue wq q (default_recorder_opt rejects dr)"
    and "p_recorder p = default_recorder_opt rejects dr"
    and "q_Get (p_queue p) w = Some ((key, False), w1)" and "Processor_handle p key w1 = (res, w2)"
  shows "\<exists>w3. Processor_process p w = Some (case res of Panic v \<Rightarrow> Panic v | Ret _ \<Rightarrow> Ret False, w3) \<and>
    wqs w3 = (wqs w2)(rq_queue q := finish_item wq key res (wqs w2 (rq_queue q)))"
proof (cases res)
  case (Panic v)
  with process_after_panic [OF assms(3)] assms(1,4) show ?thesis
    by (auto simp: finish_item_def retry_defs)
next
  case (Ret err)
  with process_after_handle [OF assms(3)] assms(1,2,4) show ?thesis
    by (auto simp: finish_item_def retry_defs recorder_defs split: option.split)
qed

subsection \<open>Properties: delays\<close>


text \<open>
  The hash behind the jitter separates keys as FNV-1a does: keys that differ in their
  last character only never collide, and a common suffix neither makes nor removes a
  collision.
\<close>

lemma fnv64a_separates:
  "(fnv64a (k @ [c]) = fnv64a (k @ [c'])) = (c = c') \<and>
   (fnv64a (k @ s) = fnv64a (k' @ s)) = (fnv64a k = fnv64a k')"
  by (simp add: fnv64a_append fnv_byte_char_inject foldl_fnv_inject)

subsection \<open>Properties: enqueuing\<close>

text \<open>
  A handler filtered by \<open>ResourceVersionChanged\<close> first never enqueues a re-synced
  resource: the event is dropped before any later filter runs and before a delay is
  computed, whatever the re-sync window. So the window has no effect behind that filter.
\<close>

lemma version_filter_drops_resync:
  assumes "meta_key obj = (key, None)" and "is_resync (object prev) (object obj)"
  shows "OnUpdate meta_key (NewResourceEventHandler h q d (Some ResourceVersionChanged # fs)) prev obj w = (Ret (), w)"
proof -
  have "And (Some ResourceVersionChanged # fs) OpUpdate (object prev) (object obj) w = (False, w)"
    unfolding version.And_pure using assms(2)
    by (auto simp: ResourceVersionChanged_def is_resync_def split: option.splits)
  with assms(1) show ?thesis
    by (simp add: OnUpdate_def enqueue_def NewResourceEventHandler_def combine_def Let_def del: And.simps)
qed

subsection \<open>Properties: processing\<close>

text \<open>
  C5. Every item taken from the queue is given back: whatever \<open>handle\<close> does (return, fail
  or let a panic of \<open>Notify\<close> through), \<open>process\<close> ends with \<open>Done\<close> on the item's
  queue, preceded by \<open>Forget\<close> exactly if \<open>handle\<close> returned no error, and makes no other
  change to any client-go queue.
\<close>

theorem process_finishes_item:
  assumes "p_queue p = built_queue wq q (default_recorder_opt rejects dr)"
    and "p_recorder p = default_recorder_opt rejects dr"
    and "q_Get (p_queue p) w = Some ((key, False), w1)" and "Processor_handle p key w1 = (res, w2)"
  shows "\<exists>w3. Processor_process p w = Some (case res of Panic v \<Rightarrow> Panic v | Ret _ \<Rightarrow> Ret False, w3) \<and>
    wqs w3 = (wqs w2)(rq_queue q :=
      wq_Done wq key (if res = Ret None then wq_Forget wq key (wqs w2 (rq_queue q)) else wqs w2 (rq_queue q)))"
  using process_wqs [OF assms]
  by (auto simp: finish_item_def split: outcome.splits option.splits)

text \<open>
  C3. An item the handler fails on is retried within the budget and dropped after it: the
  error returned keeps the handler's error as cause and matches \<open>ErrController\<close>; as long as
  the retries are negative or more than the failures client-go counted, the item is added
  rate-limited and nothing is notified, although the comments of \<open>process\<close> and \<open>handle\<close>
  have every failure reported; otherwise its count is reset and one notification reports the
  handler's error. No other client-go queue changes.
\<close>

theorem failed_item_retried_or_dropped:
  assumes "p_queue p = built_queue wq q (default_recorder_opt rejects dr)"
    and "p_handler p = NewHandler callers is_T f (New a b name)"
    and "GetByKey (p_indexer p w) key = (obj, True, None)" and "as_object obj = Some resource"
    and "h_Handle (p_handler p) resource w = (Ret (nxt, Some e), w1)"
  shows "\<exists>e' w2. Processor_handle p key w = (Ret (Some e'), w2) \<and>
    errors_Is (Some e') (Some e) \<and> errors_Is (Some e') (Some (ErrorPtr ErrController)) \<and>
    (if rq_retries q < 0 \<or> fails_of wq q w1 key < rq_retries q
     then wqs w2 = (wqs w1)(rq_queue q := wq_AddRateLimited wq (now w1) key (wqs w1 (rq_queue q))) \<and>
       logs w2 = logs w1
     else wqs w2 = (wqs w1)(rq_queue q := wq_Forget wq key (wqs w1 (rq_queue q))) \<and>
       (\<exists>n. errors_Is (Some n) (Some e) \<and> logs w2 = logs w1 @ LogError name n key #
          (if errors_Is (Some n) (Some (ErrorPtr ErrPanic)) then [OutWrite (Stack callers StackFramesSkip)] else [])))"
proof -
  let ?bq = "built_queue wq q (default_recorder_opt rejects dr)"
  let ?v = "snd (alloc w1)"
  let ?e = "Error_New (next_addr w1) ErrController ''handle [key=%s]: %w'' [AStr key, AErr e]"
  let ?ok = "rq_retries q < 0 \<or> fails_of wq q w1 key < rq_retries q"
  obtain rerr v where req: "q_Requeue ?bq key ?v = (rerr, v)" by force
  have v: "rerr = (if ?ok then None else Some ErrMaxRetries)"
    "wqs v = (wqs w1)(rq_queue q := if ?ok then wq_AddRateLimited wq (now w1) key (wqs w1 (rq_queue q))
       else wq_Forget wq key (wqs w1 (rq_queue q)))" "logs v = logs w1"
    using built_Requeue [of wq q rejects dr key ?v] req
    by (simp_all add: fails_of_def alloc_def)
  have cause: "errors_Is (Some ?e) (Some e)"
    by (simp add: errors_Is_Error_New run_format)
  show ?thesis
  proof (cases ?ok)
    case True
    with handle_failure [OF assms(3,4,5), of v] req v(1) assms(1) have "Processor_handle p key w = (Ret (Some ?e), v)" by simp
    with v True cause show ?thesis by auto
  next
    case False
    let ?n = "Error_New (next_addr v) ErrController ''could not retry: %s: %w'' [AErr ErrMaxRetries, AErr ?e]"
    let ?l = "LogError name ?n key #
          (if errors_Is (Some ?n) (Some (ErrorPtr ErrPanic)) then [OutWrite (Stack callers StackFramesSkip)] else [])"
    have "Error_Error (New a b name) = Ret name" by (simp add: Error_Error_def New_def)
    then have "h_Notify (p_handler p) key (Some ?n) (snd (alloc v)) = (Ret (), log_do ?l (snd (alloc v)))"
      by (simp add: assms(2) NewHandler_def handler_Notify_named)
    with handle_exhausted [OF assms(3,4,5) _ refl, of ErrMaxRetries v "()" "log_do ?l (snd (alloc v))"] req v(1) False assms(1)
    have "Processor_handle p key w = (Ret (Some ?e), log_do ?l (snd (alloc v)))" by simp
    moreover have "errors_Is (Some ?n) (Some e)"
      using cause by (simp add: errors_Is_Error_New [of _ _ "''could not retry: %s: %w''"] run_format)
    moreover have "logs (log_do ?l (snd (alloc v))) = logs w1 @ ?l" "wqs (log_do ?l (snd (alloc v))) = wqs v"
      using v(3) by (simp_all add: log_do_def alloc_def)
    ultimately show ?thesis using v(2) False cause by auto
  qed
qed

text \<open>
  Only the errors of the user's handler are retried: a look-up in the cache that fails is
  reported, but the item is neither requeued nor forgotten, although the comment of \<open>process\<close>
  has an item requeued whenever handling fails.
\<close>

lemma lookup_failure_not_requeued:
  assumes "GetByKey (p_indexer p w) key = (obj, exists, Some e)" and "p_handler p = NewHandler callers is_T f (New a b name)"
  shows "\<exists>e' w2. Processor_handle p key w = (Ret (Some e'), w2) \<and> errors_Is (Some e') (Some e) \<and> wqs w2 = wqs w \<and>
    (\<exists>out. logs w2 = logs w @ LogError name e' key # out)"
proof -
  let ?e = "Error_New (next_addr w) ErrController ''get-by-key [key=%s]: %w'' [AStr key, AErr e]"
  have "Error_Error (New a b name) = Ret name" by (simp add: Error_Error_def New_def)
  moreover have "errors_Is (Some ?e) (Some e)" by (simp add: errors_Is_Error_New run_format)
  ultimately show ?thesis
    by (auto simp: Processor_handle_def handle_body_def Processor_recover_def notify_return_def assms alloc_def Let_def
        NewHandler_def handler_Notify_named log_do_def)
qed

text \<open>
  C26. A panic of the handler is turned into an error that matches \<open>ErrPanic\<close> and, where the
  panic value is an error, that error too; the error is reported to \<open>Notify\<close> once; and the
  item is neither requeued nor forgotten: the queues are as the handler left them.
\<close>

theorem panicked_item_not_requeued:
  assumes "GetByKey (p_indexer p w) key = (obj, True, None)" and "as_object obj = Some resource"
    and "p_handler p = NewHandler callers is_T f (New a b name)"
    and "h_Handle (p_handler p) resource w = (Panic v, w1)"
  shows "\<exists>e w2. Processor_handle p key w = (Ret (Some e), w2) \<and> wqs w2 = wqs w1 \<and>
    logs w2 = logs w1 @ [LogError name e key, OutWrite (Stack callers StackFramesSkip)] \<and>
    errors_Is (Some e) (Some (ErrorPtr ErrPanic)) \<and>
    (case v of AErr c \<Rightarrow> errors_Is (Some e) (Some c) | _ \<Rightarrow> True)"
proof -
  let ?e = "Error_New (next_addr w1) ErrPanic '': %w'' [v]"
  let ?w2 = "(snd (alloc w1))\<lparr>logs := logs w1 @ [LogError name ?e key, OutWrite (Stack callers StackFramesSkip)]\<rparr>"
  have "h_Notify (p_handler p) key (Some ?e) (snd (alloc w1)) = (Ret (), ?w2)"
    using assms(3)
    by (simp add: NewHandler_def handler_Notify_def Error_Error_def New_def log_do_def alloc_def)
  then have "Processor_handle p key w = (Ret (Some ?e), ?w2)"
    using handle_panic [OF assms(1,2,4)] by (simp add: Let_def notify_return_simps)
  moreover have "case v of AErr c \<Rightarrow> errors_Is (Some ?e) (Some c) | _ \<Rightarrow> True"
    by (cases v) (simp_all add: errors_Is_Error_New run_format)
  moreover have "wqs ?w2 = wqs w1" by (simp add: alloc_def)
  ultimately show ?thesis by (intro exI [of _ ?e] exI [of _ ?w2]) simp
qed

text \<open>
  The recorded processing time starts before the item arrives: with the default
  recorder, where \<open>Get\<close> waited \<open>n\<close> nanoseconds for the item and \<open>handle\<close> then took
  \<open>d\<close>, the duration observed for the item is \<open>n + d\<close>, with the success label of the result.
\<close>

lemma process_time_includes_wait:
  assumes "p_queue p = built_queue wq q (Some (default_recorder rejects r))"
    and "p_recorder p = Some (default_recorder rejects r)"
    and "wq_Get wq (now w) (wqs w (rq_queue q)) = Some ((key, False), n, q')"
    and "q_Get (p_queue p) w = Some ((key, False), w1)"
    and "Processor_handle p key w1 = (Ret err, w2)" and "now w2 = now w1 + d"
    and "valid_duration (int n + d)"
  shows "\<exists>w3. Processor_process p w = Some (Ret False, w3) \<and>
    prom w3 = prom w2 @ [Observe (dr_process r) [rq_name q, if err = None then ''true'' else ''false''] (int n + d)]"
proof -
  have "now w1 = now w + int n"
    using built_Get [of wq q rejects "Some r" w key False w1] assms(1,3,4) by auto
  with assms(6,7) have "time_sub (now w2) (now w) = int n + d"
    by (simp add: time_sub_exact add.assoc)
  with process_after_handle [OF assms(4,5)] assms(1,2) show ?thesis
    by (auto simp: recorder_defs retry_defs FormatBool_def time_since_def)
qed

text \<open>
  C22. The typed function of a handler sees only resources of its type, whatever is in the
  cache: two functions that agree on the runtime objects of type \<open>T\<close> give the same
  handling and processing of every key, in every state, in result and effect.
\<close>

theorem handler_type_safe:
  assumes "\<forall>obj w. as_object obj = Some obj \<longrightarrow> is_T obj \<longrightarrow> f obj w = g obj w"
    and "pf = NewProcessor (NewHandler callers is_T f base) ix n queue rec"
    and "pg = NewProcessor (NewHandler callers is_T g base) ix n queue rec"
  shows "Processor_handle pf key w = Processor_handle pg key w \<and> Processor_process pf w = Processor_process pg w"
proof -
  have same: "handler_Handle is_T f base obj v = handler_Handle is_T g base obj v" if "as_object obj' = Some obj"
    for obj obj' v
  proof -
    from that have "as_object obj = Some obj" using as_object_SomeD by fastforce
    with assms(1) show ?thesis by (simp add: handler_Handle_def)
  qed
  have sel: "p_indexer pf = p_indexer pg" "p_queue pf = p_queue pg" "p_recorder pf = p_recorder pg"
    "h_Handle (p_handler pf) = handler_Handle is_T f base" "h_Handle (p_handler pg) = handler_Handle is_T g base"
    "h_Notify (p_handler pf) = h_Notify (p_handler pg)"
    by (simp_all add: assms(2,3) NewProcessor_def NewHandler_def)
  have note_ret: "notify_return pf = notify_return pg"
    by (simp add: fun_eq_iff notify_return_def sel)
  have body: "handle_body pf k v = handle_body pg k v" for k v
    unfolding handle_body_def sel note_ret by (auto simp: same split: prod.split option.split)
  have handle: "Processor_handle pf k v = Processor_handle pg k v" for k v
    unfolding Processor_handle_def Processor_recover_def body note_ret ..
  show ?thesis unfolding Processor_process_def handle sel by (intro conjI refl)
qed

subsection \<open>The pieces of \<open>handle\<close>\<close>

text \<open>
  \<open>handle\<close> up to the return of the user's handler, and the rest: what follows the handler
  in the body and the deferred \<open>recover\<close>. Between the two, other goroutines run.
\<close>

datatype called =
    Early "(go_arg, err option) outcome"
  | Called "(go_arg, time option \<times> err option) outcome"

definition handle_call ::
  "'z go_world_scheme Processor \<Rightarrow> string \<Rightarrow> 'z go_world_scheme \<Rightarrow> called \<times> 'z go_world_scheme" where
  "handle_call p key w =
     (case GetByKey (p_indexer p w) key of (obj, exists, err) \<Rightarrow>
        (case err of
           Some e \<Rightarrow>
             (case alloc w of (a, w1) \<Rightarrow>
                let e' = Error_New a ErrController ''get-by-key [key=%s]: %w'' [AStr key, AErr e]
                in apfst Early (notify_return p key e' (Some e') w1))
         | None \<Rightarrow>
             if \<not> exists then (Early (Ret None), w)
             else case as_object obj of
               None \<Rightarrow>
                 (case alloc w of (a, w1) \<Rightarrow>
                    let e' = Error_New a ErrController ''type assertion: %T'' [arg_of_any obj]
                    in apfst Early (notify_return p key e' (Some e') w1))
             | Some resource \<Rightarrow> apfst Called (h_Handle (p_handler p) resource w)))"

definition handle_follow ::
  "'z go_world_scheme Processor \<Rightarrow> string \<Rightarrow> called \<Rightarrow> ('z go_world_scheme, err option) go" where
  "handle_follow p key c w =
     (case c of
        Early res \<Rightarrow> (res, w)
      | Called (Panic v) \<Rightarrow> (Panic v, w)
      | Called (Ret (next, err)) \<Rightarrow>
          (case err of
             Some e \<Rightarrow>
               (case alloc w of (a, w1) \<Rightarrow>
                  let e' = Error_New a ErrController ''handle [key=%s]: %w'' [AStr key, AErr e]
                  in case q_Requeue (p_queue p) key w1 of
                       (None, w2) \<Rightarrow> (Ret (Some e'), w2)
                     | (Some rerr, w2) \<Rightarrow>
                         (case alloc w2 of (b, w3) \<Rightarrow>
                            notify_return p key
                              (Error_New b ErrController ''could not retry: %s: %w'' [AErr rerr, AErr e'])
                              (Some e') w3))
           | None \<Rightarrow>
               (case next of
                  Some t \<Rightarrow>
                    let until = time_until (now w) t;
                        delay = (if until < 0 then 0 else until)
                    in (Ret None, q_AddAfter (p_queue p) key delay w)
                | None \<Rightarrow> (Ret None, w))))"

definition handle_rest ::
  "'z go_world_scheme Processor \<Rightarrow> string \<Rightarrow> called \<Rightarrow> ('z go_world_scheme, err option) go" where
  "handle_rest p key c w =
     (case handle_follow p key c w of (res, w1) \<Rightarrow> Processor_recover p key res w1)"

lemma case_apfst: "(case apfst f x of (c, w) \<Rightarrow> g c w) = g (f (fst x)) (snd x)"
  by (cases x) simp

lemma handle_follow_Early [simp]: "handle_follow p key (Early res) w = (res, w)"
  by (simp add: handle_follow_def)

lemma handle_body_pieces:
  "handle_body p key w = (case handle_call p key w of (c, w1) \<Rightarrow> handle_follow p key c w1)"
proof -
  obtain obj exists err where get: "GetByKey (p_indexer p w) key = (obj, exists, err)"
    by (cases "GetByKey (p_indexer p w) key") auto
  show ?thesis
  proof (cases "err = None \<and> exists \<and> as_object obj \<noteq> None")
    case False
    with get show ?thesis
      by (auto simp: handle_body_def handle_call_def Let_def alloc_def case_apfst split: option.split)
  next
    case True
    then obtain resource where "as_object obj = Some resource" by auto
    moreover obtain res w1 where "h_Handle (p_handler p) resource w = (res, w1)" by force
    ultimately show ?thesis using get True
      by (cases res) (auto simp: handle_body_def handle_call_def handle_follow_def split: prod.split option.split)
  qed
qed

lemma handle_pieces:
  "Processor_handle p key w = (case handle_call p key w of (c, w1) \<Rightarrow> handle_rest p key c w1)"
  by (simp add: Processor_handle_def handle_rest_def handle_body_pieces split: prod.split)

text \<open>Whether the handler was called and returned an error, the case in which \<open>handle\<close> requeues.\<close>

fun call_failed :: "called \<Rightarrow> bool" where
  "call_failed (Called (Ret (_, err))) = (err \<noteq> None)"
| "call_failed _ = False"

text \<open>A predicate on states that the calls of \<open>handle\<close> keep is kept by its pieces.\<close>

lemma notify_return_invariant:
  assumes "\<And>k e w. I w \<Longrightarrow> I (snd (h_Notify (p_handler p) k e w))" and "I w"
  shows "I (snd (notify_return p key n r w))"
  using assms(1) [OF assms(2), of key "Some n"]
  by (auto simp: notify_return_def split: prod.splits outcome.splits)

lemma call_invariant:
  assumes alloc: "\<And>w. I w \<Longrightarrow> I (snd (alloc w))"
    and handle: "\<And>resource w. I w \<Longrightarrow> I (snd (h_Handle (p_handler p) resource w))"
    and notify: "\<And>k e w. I w \<Longrightarrow> I (snd (h_Notify (p_handler p) k e w))"
    and I: "I w"
  shows "I (snd (handle_call p key w))"
  using I alloc [OF I] handle [OF I] notify_return_invariant [of I p, OF notify]
  by (auto simp: handle_call_def Let_def case_prod_beta split: option.split)

lemma recover_invariant:
  assumes alloc: "\<And>w. I w \<Longrightarrow> I (snd (alloc w))"
    and notify: "\<And>k e w. I w \<Longrightarrow> I (snd (h_Notify (p_handler p) k e w))"
    and I: "I w"
  shows "I (snd (Processor_recover p key res w))"
  using I alloc [OF I] notify_return_invariant [of I p, OF notify]
  by (auto simp: Processor_recover_def Let_def case_prod_beta split: outcome.split)

text \<open>What \<open>Requeue\<close> establishes after a failure is left by the rest of \<open>handle\<close>.\<close>

lemma rest_failed:
  assumes "call_failed c"
    and alloc: "\<And>w. I w \<Longrightarrow> I (snd (alloc w))" "\<And>w. J w \<Longrightarrow> J (snd (alloc w))"
    and requeue: "\<And>w. I w \<Longrightarrow> J (snd (q_Requeue (p_queue p) key w))"
    and notify: "\<And>k e w. J w \<Longrightarrow> J (snd (h_Notify (p_handler p) k e w))"
    and I: "I w"
  shows "J (snd (handle_rest p key c w))"
proof -
  from assms(1) obtain nxt e where c: "c = Called (Ret (nxt, Some e))" by (cases c rule: call_failed.cases) auto
  have "J (snd (q_Requeue (p_queue p) key (snd (alloc w))))" by (rule requeue [OF alloc(1) [OF I]])
  then have "J (snd (handle_follow p key c w))"
    using alloc(2) notify_return_invariant [of J p, OF notify]
    by (cases "fst (q_Requeue (p_queue p) key (snd (alloc w)))")
      (simp_all add: c handle_follow_def Let_def case_prod_beta)
  then show ?thesis
    using recover_invariant [of J p, OF alloc(2) notify] by (simp add: handle_rest_def case_prod_beta)
qed

lemma rest_invariant:
  assumes alloc: "\<And>w. I w \<Longrightarrow> I (snd (alloc w))"
    and notify: "\<And>k e w. I w \<Longrightarrow> I (snd (h_Notify (p_handler p) k e w))"
    and add_after: "\<And>k d w. I w \<Longrightarrow> I (q_AddAfter (p_queue p) k d w)"
    and requeue: "\<And>w. call_failed c \<Longrightarrow> I w \<Longrightarrow> I (snd (q_Requeue (p_queue p) key w))"
    and I: "I w"
  shows "I (snd (handle_rest p key c w))"
proof (cases "call_failed c")
  case True
  show ?thesis by (rule rest_failed [where I = I, OF True alloc alloc requeue [OF True] notify I])
next
  case False
  have "I (snd (handle_follow p key c w))"
    using I add_after False by (cases c rule: call_failed.cases) (auto simp: handle_follow_def Let_def split: option.split)
  then show ?thesis
    using recover_invariant [of I p, OF alloc notify] by (simp add: handle_rest_def case_prod_beta)
qed

lemma handle_invariant:
  assumes alloc: "\<And>w. I w \<Longrightarrow> I (snd (alloc w))"
    and handle: "\<And>resource w. I w \<Longrightarrow> I (snd (h_Handle (p_handler p) resource w))"
    and notify: "\<And>k e w. I w \<Longrightarrow> I (snd (h_Notify (p_handler p) k e w))"
    and add_after: "\<And>k d w. I w \<Longrightarrow> I (q_AddAfter (p_queue p) k d w)"
    and requeue: "\<And>k w. I w \<Longrightarrow> I (snd (q_Requeue (p_queue p) k w))"
    and I: "I w"
  shows "I (snd (Processor_handle p key w))"
  using rest_invariant [of I p, OF alloc notify add_after requeue call_invariant [of I p, OF alloc handle notify I]]
  by (simp add: handle_pieces case_prod_beta)

lemma rest_returns:
  assumes "\<forall>msg e w. \<exists>u w'. h_Notify (p_handler p) msg e w = (Ret u, w')"
  shows "\<exists>err w'. handle_rest p key c w = (Ret err, w')"
proof -
  have "\<exists>err w'. notify_return p key n r v = (Ret err, w')" for n r v
    using assms [rule_format, of key "Some n" v] by (auto simp: notify_return_def)
  then show ?thesis
    by (cases "fst (handle_follow p key c w)")
      (simp_all add: handle_rest_def Processor_recover_def Let_def case_prod_beta)
qed

subsection \<open>The processing loop\<close>

text \<open>
  client-go on a queue that is shut down (\<open>shut\<close>): new items are ignored, so the items
  that are left (at most \<open>pend\<close>) do not become more, and \<open>Get\<close> hands them out without
  blocking, then reports the shutdown.
\<close>

definition ignores_adds :: "('q, 'k) wq_ops \<Rightarrow> ('q \<Rightarrow> bool) \<Rightarrow> ('q \<Rightarrow> nat) \<Rightarrow> bool" where
  "ignores_adds wq shut pend \<longleftrightarrow>
     (\<forall>t k d q. shut q \<longrightarrow> shut (wq_AddAfter wq t k d q) \<and> pend (wq_AddAfter wq t k d q) \<le> pend q) \<and>
     (\<forall>t k q. shut q \<longrightarrow> shut (wq_AddRateLimited wq t k q) \<and> pend (wq_AddRateLimited wq t k q) \<le> pend q) \<and>
     (\<forall>k q. shut q \<longrightarrow> shut (wq_Forget wq k q) \<and> pend (wq_Forget wq k q) \<le> pend q) \<and>
     (\<forall>k q. shut q \<longrightarrow> shut (wq_Done wq k q) \<and> pend (wq_Done wq k q) \<le> pend q)"

definition drains :: "('q, 'k) wq_ops \<Rightarrow> ('q \<Rightarrow> bool) \<Rightarrow> ('q \<Rightarrow> nat) \<Rightarrow> bool" where
  "drains wq shut pend \<longleftrightarrow>
     (\<forall>t q. shut q \<longrightarrow> (\<exists>item n q'. wq_Get wq t q = Some ((item, pend q = 0), n, q') \<and>
        shut q' \<and> (pend q \<noteq> 0 \<longrightarrow> pend q' < pend q))) \<and> ignores_adds wq shut pend"

lemma drains_ignores: "drains wq shut pend \<Longrightarrow> ignores_adds wq shut pend"
  by (simp add: drains_def)

lemma drains_Get:
  assumes "drains wq shut pend" and "shut q"
  shows "\<exists>item n q'. wq_Get wq t q = Some ((item, pend q = 0), n, q') \<and> shut q' \<and>
    (pend q \<noteq> 0 \<longrightarrow> pend q' < pend q)"
  using assms(1) unfolding drains_def by (elim conjE allE [of _ t]) (use assms(2) in simp)

definition shut_with :: "('q \<Rightarrow> bool) \<Rightarrow> ('q \<Rightarrow> nat) \<Rightarrow> addr \<Rightarrow> nat \<Rightarrow> ('q, 'k, 'z) queue_world_scheme \<Rightarrow> bool" where
  "shut_with shut pend a m w \<longleftrightarrow> shut (wqs w a) \<and> pend (wqs w a) \<le> m"

text \<open>The handler leaves a shut queue shut and does not add to it.\<close>

definition respects_shutdown ::
  "('q \<Rightarrow> bool) \<Rightarrow> ('q \<Rightarrow> nat) \<Rightarrow> addr \<Rightarrow> ('q, 'k, 'z) queue_world_scheme handler_ops \<Rightarrow> bool" where
  "respects_shutdown shut pend a h \<longleftrightarrow>
     (\<forall>m w obj. shut_with shut pend a m w \<longrightarrow> shut_with shut pend a m (snd (h_Handle h obj w))) \<and>
     (\<forall>m w k e. shut_with shut pend a m w \<longrightarrow> shut_with shut pend a m (snd (h_Notify h k e w)))"

lemma retry_shut:
  assumes "ignores_adds wq shut pend" and "shut_with shut pend (rq_queue q) m w"
    and "c \<in> {CAddAfter k d, CRequeue k, CForget k, CDone k}"
  shows "shut_with shut pend (rq_queue q) m (snd (queue_do (retry_queue wq q) c w))"
proof -
  have step: "shut_with shut pend a m (on_wq a f w)"
    if "shut (f (wqs w a)) \<and> pend (f (wqs w a)) \<le> pend (wqs w a)" "shut_with shut pend a m w" for a f
    using that by (auto simp: shut_with_def)
  from assms(2) have shut: "shut (wqs w (rq_queue q))" by (simp add: shut_with_def)
  with assms(1) have
    "shut (wq_AddAfter wq (now w) k d (wqs w (rq_queue q))) \<and>
       pend (wq_AddAfter wq (now w) k d (wqs w (rq_queue q))) \<le> pend (wqs w (rq_queue q))"
    "shut (wq_AddRateLimited wq (now w) k (wqs w (rq_queue q))) \<and>
       pend (wq_AddRateLimited wq (now w) k (wqs w (rq_queue q))) \<le> pend (wqs w (rq_queue q))"
    "shut (wq_Forget wq k (wqs w (rq_queue q))) \<and>
       pend (wq_Forget wq k (wqs w (rq_queue q))) \<le> pend (wqs w (rq_queue q))"
    "shut (wq_Done wq k (wqs w (rq_queue q))) \<and>
       pend (wq_Done wq k (wqs w (rq_queue q))) \<le> pend (wqs w (rq_queue q))"
    by (simp_all add: ignores_adds_def)
  then have "shut_with shut pend (rq_queue q) m (on_wq (rq_queue q) (wq_AddAfter wq (now w) k d) w)"
    "shut_with shut pend (rq_queue q) m (on_wq (rq_queue q) (wq_AddRateLimited wq (now w) k) w)"
    "shut_with shut pend (rq_queue q) m (on_wq (rq_queue q) (wq_Forget wq k) w)"
    "shut_with shut pend (rq_queue q) m (on_wq (rq_queue q) (wq_Done wq k) w)"
    by (blast intro: step assms(2))+
  with assms(3) show ?thesis by (auto simp: retry_defs)
qed

lemma built_shut:
  assumes "ignores_adds wq shut pend" and "shut_with shut pend (rq_queue q) m w"
    and "c \<in> {CAddAfter k d, CRequeue k, CForget k, CDone k}"
  shows "shut_with shut pend (rq_queue q) m
    (snd (queue_do (built_queue wq q (default_recorder_opt rejects dr)) c w))"
  using retry_shut [OF assms] built_do_transparent [of wq q rejects dr c w]
  by (simp add: same_wq_def shut_with_def)

lemma shut_with_alloc: "shut_with shut pend a m (snd (alloc w)) = shut_with shut pend a m w"
  by (simp add: shut_with_def alloc_def)

lemma built_shut_ops:
  assumes "ignores_adds wq shut pend" and "shut_with shut pend (rq_queue q) m w"
    and "p_queue p = built_queue wq q (default_recorder_opt rejects dr)"
  shows "shut_with shut pend (rq_queue q) m (q_AddAfter (p_queue p) k d w)"
    and "shut_with shut pend (rq_queue q) m (snd (q_Requeue (p_queue p) k w))"
  using built_shut [OF assms(1,2), of "CAddAfter k d" k d] built_shut [OF assms(1,2), of "CRequeue k" k] assms(3)
  by simp_all

lemma rest_shut:
  fixes w :: "('q, string, 'z) queue_world_scheme"
  assumes "ignores_adds wq shut pend" and "respects_shutdown shut pend (rq_queue q) (p_handler p)"
    and "p_queue p = built_queue wq q (default_recorder_opt rejects dr)"
    and "shut_with shut pend (rq_queue q) m w"
  shows "shut_with shut pend (rq_queue q) m (snd (handle_rest p key c w))"
  by (rule rest_invariant [where I = "shut_with shut pend (rq_queue q) m"])
    (use assms(2,4) in \<open>auto simp: respects_shutdown_def shut_with_alloc intro: built_shut_ops [OF assms(1) _ assms(3)]\<close>)

lemma handle_shut:
  fixes w :: "('q, string, 'z) queue_world_scheme"
  assumes "ignores_adds wq shut pend" and "respects_shutdown shut pend (rq_queue q) (p_handler p)"
    and "p_queue p = built_queue wq q (default_recorder_opt rejects dr)"
    and "shut_with shut pend (rq_queue q) m w"
  shows "shut_with shut pend (rq_queue q) m (snd (Processor_handle p key w))"
  by (rule handle_invariant [where I = "shut_with shut pend (rq_queue q) m"])
    (use assms(2,4) in \<open>auto simp: respects_shutdown_def shut_with_alloc intro: built_shut_ops [OF assms(1) _ assms(3)]\<close>)

text \<open>One pass over a queue that is shut down: it ends the loop or leaves fewer items.\<close>

lemma process_shut:
  assumes "drains wq shut pend" and "respects_shutdown shut pend (rq_queue q) (p_handler p)"
    and "p_queue p = built_queue wq q (default_recorder_opt rejects dr)"
    and "p_recorder p = default_recorder_opt rejects dr"
    and "shut (wqs w (rq_queue q))"
  shows "\<exists>res w'. Processor_process p w = Some (res, w') \<and>
    (res = Ret False \<longrightarrow> shut (wqs w' (rq_queue q)) \<and>
       pend (wqs w' (rq_queue q)) < pend (wqs w (rq_queue q)))"
proof -
  let ?n = "pend (wqs w (rq_queue q))"
  let ?bq = "built_queue wq q (default_recorder_opt rejects dr)"
  from assms(1,5) obtain item n q' where get: "wq_Get wq (now w) (wqs w (rq_queue q)) = Some ((item, ?n = 0), n, q')"
    and q': "shut q'" "?n \<noteq> 0 \<longrightarrow> pend q' < ?n"
    using drains_Get [OF assms(1,5), of "now w"] by blast
  obtain w1 where w1: "q_Get (p_queue p) w = Some ((item, ?n = 0), w1)" "wqs w1 = (wqs w)(rq_queue q := q')"
    using built_Get_Some [OF get, of rejects dr] unfolding assms(3) by blast
  show ?thesis
  proof (cases "?n = 0")
    case True
    with w1 have "q_Get (p_queue p) w = Some ((item, True), w1)" by simp
    from process_exit [OF this] show ?thesis by simp
  next
    case False
    with w1 have get': "q_Get (p_queue p) w = Some ((item, False), w1)" by simp
    obtain res w2 where h: "Processor_handle p item w1 = (res, w2)" by force
    from False q' w1 have "shut_with shut pend (rq_queue q) (?n - 1) w1" by (auto simp: shut_with_def)
    from handle_shut [OF drains_ignores [OF assms(1)] assms(2,3) this, of item] h
    have w2: "shut_with shut pend (rq_queue q) (?n - 1) w2" by simp
    obtain w3 where proc: "Processor_process p w = Some (case res of Panic v \<Rightarrow> Panic v | Ret _ \<Rightarrow> Ret False, w3)"
      and w3: "wqs w3 = (wqs w2)(rq_queue q := finish_item wq item res (wqs w2 (rq_queue q)))"
      using process_wqs [OF assms(3,4) get' h] by blast
    have fin: "shut (finish_item wq k r s) \<and> pend (finish_item wq k r s) \<le> pend s" if "shut s" for k r s
    proof -
      from assms(1) have dn: "shut u \<Longrightarrow> shut (wq_Done wq k u) \<and> pend (wq_Done wq k u) \<le> pend u"
        and forget: "shut u \<Longrightarrow> shut (wq_Forget wq k u) \<and> pend (wq_Forget wq k u) \<le> pend u" for u
        by (simp_all add: drains_def ignores_adds_def)
      have "shut (wq_Done wq k (wq_Forget wq k s)) \<and> pend (wq_Done wq k (wq_Forget wq k s)) \<le> pend s"
        using dn [of "wq_Forget wq k s"] forget [OF that] by linarith
      with dn [OF that] show ?thesis by (simp add: finish_item_def split: outcome.split option.split)
    qed
    from w2 fin [of "wqs w2 (rq_queue q)" item res] False w3
    have "shut (wqs w3 (rq_queue q)) \<and> pend (wqs w3 (rq_queue q)) < ?n"
      by (auto simp: shut_with_def)
    with proc show ?thesis by blast
  qed
qed

subsection \<open>Properties: the loop\<close>

text \<open>
  C20. The loop ends after a shutdown: on a queue that is shut down, \<open>Process\<close> hands the
  items that are left to the handler and then returns (or lets a panic of \<open>Notify\<close>
  through), whatever the handler returns; requeued items do not keep it alive.
\<close>

theorem process_loop_ends:
  assumes "drains wq shut pend" and "respects_shutdown shut pend (rq_queue q) (p_handler p)"
    and "p_queue p = built_queue wq q (default_recorder_opt rejects dr)"
    and "p_recorder p = default_recorder_opt rejects dr"
    and "shut (wqs w (rq_queue q))"
  shows "\<exists>res w'. Processor_Process p w = Some (res, w')"
  using assms(5)
proof (induction "pend (wqs w (rq_queue q))" arbitrary: w rule: less_induct)
  case less
  from process_shut [of wq shut pend q p rejects dr, OF assms(1-4) less.prems] obtain res w' where step: "Processor_process p w = Some (res, w')"
    "res = Ret False \<longrightarrow> shut (wqs w' (rq_queue q)) \<and> pend (wqs w' (rq_queue q)) < pend (wqs w (rq_queue q))"
    by blast
  show ?case
  proof (cases "res = Ret False")
    case True
    with less.hyps step show ?thesis by (subst Processor_Process.simps) simp
  next
    case False
    with step show ?thesis
      by (subst Processor_Process.simps) (auto split: outcome.splits)
  qed
qed

subsection \<open>Witnesses\<close>

definition example_kube :: "string list \<Rightarrow> bool \<Rightarrow> (example_queue, string) kube_world" where
  "example_kube xs shut =
     \<lparr>now = 0, next_addr = 100, trackers = (\<lambda>_. example_tracker), prom = [], collectors = [],
      client_once = False, client_metrics = None,
      wqs = (\<lambda>_. (xs, \<lambda>_. 0, shut)), queued = (\<lambda>_ _. None), logs = []\<rparr>"

definition example_cache :: indexer where
  "example_cache =
     \<lparr>GetByKey = (\<lambda>key. (example_pod key ''1'', True, None)),
      ByIndex = (\<lambda>name v. Inl (ErrorString 90 ''no index'')), List_all = [example_pod ''a'' ''1'']\<rparr>"

definition example_rq :: RetryQueue where
  "example_rq = \<lparr>rq_name = ''q'', rq_queue = 0, rq_retries = 0\<rparr>"

type_synonym example_handle =
  "any \<Rightarrow> ((example_queue, string) kube_world, time option \<times> err option) go"

definition example_handler :: "example_handle \<Rightarrow> (example_queue, string) kube_world handler_ops" where
  "example_handler handle = NewHandler [] (\<lambda>_. True) handle (New 50 51 ''pods'')"

definition example_recorder :: DefaultRecorder where
  "example_recorder = recorder_of example_config"

definition example_processor :: "example_handle \<Rightarrow> (example_queue, string) kube_world Processor" where
  "example_processor handle =
     NewProcessor (example_handler handle) (\<lambda>_. example_cache) 1
       (built_queue example_wq example_rq (Some (default_recorder duplicates_only example_recorder)))
       (Some (default_recorder duplicates_only example_recorder))"

text \<open>A handler that takes three nanoseconds, one that fails and one that panics.\<close>

definition works :: example_handle where
  "works obj w = (Ret (None, None), w\<lparr>now := now w + 3\<rparr>)"

definition fails :: example_handle where
  "fails obj w = (Ret (None, Some (ErrorString 91 ''bad'')), w)"

definition crashes :: example_handle where
  "crashes obj w = (Panic (AErr (ErrorString 92 ''boom'')), w)"

lemmas example_processor_defs = example_processor_def NewProcessor_def example_cache_def example_rq_def
  example_handler_def NewHandler_def handler_Handle_def example_kube_def works_def fails_def crashes_def

lemma example_processor_simps [simp]:
  "p_queue (example_processor h) =
     built_queue example_wq example_rq (default_recorder_opt duplicates_only (Some example_recorder))"
  "p_recorder (example_processor h) = default_recorder_opt duplicates_only (Some example_recorder)"
  "p_handler (example_processor h) = example_handler h"
  "p_indexer (example_processor h) w = example_cache"
  by (simp_all add: example_processor_def NewProcessor_def)

lemma example_handle_works:
  "Processor_handle (example_processor works) key w = (Ret None, w\<lparr>now := now w + 3\<rparr>)"
proof -
  have "GetByKey (p_indexer (example_processor works) w) key = (example_pod key ''1'', True, None)"
    by (simp add: example_cache_def)
  moreover have "h_Handle (p_handler (example_processor works)) (example_pod key ''1'') w =
      (Ret (None, None), w\<lparr>now := now w + 3\<rparr>)"
    by (simp add: example_handler_def NewHandler_def handler_Handle_def works_def)
  ultimately show ?thesis by (simp add: handle_success)
qed

lemma version_filter_drops_resync_witness:
  "OnUpdate (\<lambda>_. (''a'', None))
     (NewResourceEventHandler (example_handler works) (built_queue example_wq example_rq None)
        (NewDelay 0 60) [Some ResourceVersionChanged])
     (example_pod ''a'' ''1'') (example_pod ''a'' ''1'') (example_kube [] False) = (Ret (), example_kube [] False)"
  by (rule version_filter_drops_resync [where key = "''a''"])
    (simp_all add: is_resync_def meta_def example_pod_def)

lemma example_Get:
  "\<exists>w1. q_Get (p_queue (example_processor h)) (example_kube [''a''] False) = Some ((''a'', False), w1) \<and>
     now w1 = 5 \<and> fst (wqs w1 0) = []"
proof -
  have "wq_Get example_wq (now (example_kube [''a''] False)) (wqs (example_kube [''a''] False) (rq_queue example_rq)) =
      Some ((''a'', False), 5, ([], \<lambda>_. 0, False))"
    by (simp add: example_wq_def example_kube_def)
  from built_Get_Some [OF this, of duplicates_only "Some example_recorder"] show ?thesis
    by (auto simp: example_rq_def example_kube_def)
qed

theorem process_finishes_item_witness:
  "\<exists>w3. Processor_process (example_processor works) (example_kube [''a''] False) = Some (Ret False, w3) \<and>
     fst (wqs w3 0) = []"
proof -
  obtain w1 where get: "q_Get (p_queue (example_processor works)) (example_kube [''a''] False) = Some ((''a'', False), w1)"
    and w1: "fst (wqs w1 0) = []"
    using example_Get by blast
  from process_finishes_item [OF example_processor_simps(1,2) get example_handle_works] w1 show ?thesis
    by (auto simp: example_rq_def example_wq_def split_beta)
qed

theorem panicked_item_not_requeued_witness:
  "\<exists>e w2. Processor_handle (example_processor crashes) ''a'' (example_kube [] False) = (Ret (Some e), w2) \<and>
     errors_Is (Some e) (Some (ErrorString 92 ''boom'')) \<and> length (logs w2) = 2"
proof -
  have "GetByKey (p_indexer (example_processor crashes) (example_kube [] False)) ''a'' = (example_pod ''a'' ''1'', True, None)"
    by (simp add: example_cache_def)
  moreover have "p_handler (example_processor crashes) = NewHandler [] (\<lambda>_. True) crashes (New 50 51 ''pods'')"
    by (simp add: example_handler_def)
  moreover have "h_Handle (p_handler (example_processor crashes)) (example_pod ''a'' ''1'') (example_kube [] False) =
      (Panic (AErr (ErrorString 92 ''boom'')), example_kube [] False)"
    by (simp add: example_handler_def NewHandler_def handler_Handle_def crashes_def)
  ultimately show ?thesis
    using panicked_item_not_requeued [of "example_processor crashes" "example_kube [] False" "''a''" _ "example_pod ''a'' ''1''"]
    by (fastforce simp: example_kube_def)
qed

theorem failed_item_retried_or_dropped_witness:
  "\<exists>e' w2. Processor_handle (example_processor fails) ''a'' (example_kube [] False) = (Ret (Some e'), w2) \<and>
     errors_Is (Some e') (Some (ErrorString 91 ''bad'')) \<and> logs w2 \<noteq> []"
proof -
  have get: "GetByKey (p_indexer (example_processor fails) (example_kube [] False)) ''a'' = (example_pod ''a'' ''1'', True, None)"
    by (simp add: example_cache_def)
  have hd: "p_handler (example_processor fails) = NewHandler [] (\<lambda>_. True) fails (New 50 51 ''pods'')"
    by (simp add: example_handler_def)
  have fail: "h_Handle (p_handler (example_processor fails)) (example_pod ''a'' ''1'') (example_kube [] False) =
      (Ret (None, Some (ErrorString 91 ''bad'')), example_kube [] False)"
    by (simp add: example_handler_def NewHandler_def handler_Handle_def fails_def)
  from failed_item_retried_or_dropped [OF example_processor_simps(1) hd get _ fail] show ?thesis
    by (auto simp: example_rq_def fails_of_def example_wq_def example_kube_def)
qed

lemma process_time_includes_wait_witness:
  "\<exists>w3. Processor_process (example_processor works) (example_kube [''a''] False) = Some (Ret False, w3) \<and>
     last (prom w3) = Observe (dr_process example_recorder) [''q'', ''true''] 8"
proof -
  obtain w1 where get: "q_Get (p_queue (example_processor works)) (example_kube [''a''] False) = Some ((''a'', False), w1)"
    using example_Get by blast
  have wq: "wq_Get example_wq (now (example_kube [''a''] False)) (wqs (example_kube [''a''] False) (rq_queue example_rq)) =
      Some ((''a'', False), 5, ([], \<lambda>_. 0, False))"
    by (simp add: example_wq_def example_kube_def)
  from process_time_includes_wait [OF _ _ wq get example_handle_works, of duplicates_only example_recorder 3]
  show ?thesis by (auto simp: valid_duration_def min_duration_def max_duration_def example_rq_def)
qed

lemma example_drains: "drains example_wq (\<lambda>(xs, f, c). c) (\<lambda>(xs, f, c). length xs)"
proof -
  have "\<exists>item n xs' f' c'. example_get (xs, f, True) = Some ((item, xs = []), n, xs', f', c') \<and>
      c' \<and> (xs \<noteq> [] \<longrightarrow> length xs' < length xs)" for xs f
    by (cases xs) auto
  then show ?thesis by (auto simp: drains_def ignores_adds_def example_wq_def)
qed

lemma example_respects:
  "respects_shutdown (\<lambda>(xs, f, c). c) (\<lambda>(xs, f, c). length xs) a (example_handler fails)"
  using new_handler.notify_frame(3) [of "[]" "\<lambda>_. True" fails "New 50 51 ''pods''"]
  by (auto simp: respects_shutdown_def shut_with_def example_handler_def)
    (simp_all add: NewHandler_def handler_Handle_def fails_def)

theorem process_loop_ends_witness:
  "\<exists>res w'. Processor_Process (example_processor fails) (example_kube [''a'', ''b''] True) = Some (res, w')"
proof (rule process_loop_ends [OF example_drains _ example_processor_simps(1,2)])
  show "respects_shutdown (\<lambda>(xs, f, c). c) (\<lambda>(xs, f, c). length xs) (rq_queue example_rq)
      (p_handler (example_processor fails))"
    using example_respects by simp
qed (simp add: example_kube_def)

text \<open>A function that fails on the values it is not made for.\<close>

theorem handler_type_safe_witness:
  "Processor_process
     (NewProcessor (NewHandler [] (\<lambda>obj. any_type obj = ''*v1.Pod'')
        (\<lambda>obj w. if any_type obj = ''*v1.Pod'' then works obj w else crashes obj w) (New 50 51 ''pods''))
        (\<lambda>_. example_cache) 1 (built_queue example_wq example_rq None) None) (example_kube [''a''] False) =
   Processor_process
     (NewProcessor (NewHandler [] (\<lambda>obj. any_type obj = ''*v1.Pod'') works (New 50 51 ''pods''))
        (\<lambda>_. example_cache) 1 (built_queue example_wq example_rq None) None) (example_kube [''a''] False)"
  by (rule handler_type_safe [THEN conjunct2, OF _ refl refl]) simp

end
