(* ===== verification/Error_Checks.thy ===== *)
theory Error_Checks
  imports Processors
begin

section \<open>The Kubernetes error checkers: \<open>errors/errors.go\<close>\<close>

text \<open>
  The package re-exports the checkers of \<open>k8s.io/apimachinery/pkg/api/errors\<close> as variables.
  Their code is not part of the repository: the package \<open>kerrors\<close> is an argument. What is
  used of it is documented there: a checker looks with \<open>errors.As\<close> for the first error of
  some foreign type, decides on that one, and is false if there is none.
\<close>

subsection \<open>The variables\<close>






subsection \<open>What a checker does\<close>









subsection \<open>Properties\<close>


subsection \<open>Witness\<close>






end
