(* ===== verification/Retrievers.thy ===== *)
theory Retrievers
  imports Kube_Objects
begin

section \<open>Retrievers: \<open>controller/retriever.go\<close>\<close>

text \<open>
  A retriever lists and watches resources through the Kubernetes client. The interface is
  the record \<open>retriever_ops\<close> over a program state, its operations are calls that may
  panic; the client behind it is a parameter. The two adapters of this file are the
  definitions \<open>NewRetriever\<close> and \<open>NewFilterRetriever\<close>. Of \<open>metav1.ListOptions\<close>
  the two selectors are modelled and the remaining fields kept as one value.
\<close>

subsection \<open>The interface and its adapters\<close>

record list_options =
  LabelSelector :: string
  FieldSelector :: string
  other_options :: string

record ('l, 'w, 's) retriever_ops =
  retr_List :: "list_options \<Rightarrow> 's \<Rightarrow> (go_arg, ('l \<times> err option) \<times> 's) outcome"
  retr_Watch :: "list_options \<Rightarrow> 's \<Rightarrow> (go_arg, ('w \<times> err option) \<times> 's) outcome"

text \<open>
  \<open>base.Wrap(msg, err)\<close> on the result of a call: the wrapped error takes the next address.
\<close>

definition wrap_result ::
  "err Error \<Rightarrow> string \<Rightarrow> (go_arg, ('a \<times> err option) \<times> 'z go_world_scheme) outcome
     \<Rightarrow> (go_arg, ('a \<times> err option) \<times> 'z go_world_scheme) outcome" where
  "wrap_result base msg r =
     (case r of
        Panic p \<Rightarrow> Panic p
      | Ret ((x, e), w) \<Rightarrow>
          (case alloc w of (a, w') \<Rightarrow>
            (case Error_Wrap a base msg [arg_of_err e] of
               Panic p \<Rightarrow> Panic p
             | Ret e' \<Rightarrow> Ret ((x, e'), w'))))"

definition NewRetriever ::
  "('l, 'w, 'z go_world_scheme) retriever_ops \<Rightarrow> err Error \<Rightarrow> ('l, 'w, 'z go_world_scheme) retriever_ops" where
  "NewRetriever iface base =
     \<lparr>retr_List = (\<lambda>opts w. wrap_result base ''listing: %w'' (retr_List iface opts w)),
      retr_Watch = (\<lambda>opts w. wrap_result base ''watching: %w'' (retr_Watch iface opts w))\<rparr>"

text \<open>\<open>value\<close>: a nil \<open>fmt.Stringer\<close> is the empty string.\<close>

definition stringer_value :: "string option \<Rightarrow> string" where
  "stringer_value v = (case v of None \<Rightarrow> [] | Some s \<Rightarrow> s)"

definition options :: "string \<Rightarrow> string \<Rightarrow> list_options \<Rightarrow> list_options" where
  "options lbl fld opts = opts\<lparr>LabelSelector := lbl, FieldSelector := fld\<rparr>"

definition NewFilterRetriever ::
  "('l, 'w, 'z go_world_scheme) retriever_ops \<Rightarrow> err Error \<Rightarrow> string option \<Rightarrow> string option
     \<Rightarrow> ('l, 'w, 'z go_world_scheme) retriever_ops" where
  "NewFilterRetriever iface base label_sel field_sel =
     (let lbl = stringer_value label_sel; fld = stringer_value field_sel in
      \<lparr>retr_List = (\<lambda>opts w. wrap_result base ''listing: %w'' (retr_List iface (options lbl fld opts) w)),
       retr_Watch = (\<lambda>opts w. wrap_result base ''watching: %w'' (retr_Watch iface (options lbl fld opts) w))\<rparr>)"

subsection \<open>Wrapping\<close>

lemma wrap_result_simps:
  "wrap_result base msg (Panic p) = Panic p"
  "wrap_result base msg (Ret ((x, None), w)) = Ret ((x, None), snd (alloc w))"
  "wrap_result base msg (Ret ((x, Some e), w)) =
     Ret ((x, Some (Error_New (next_addr w) base msg [AErr e])), snd (alloc w))"
  by (simp_all add: wrap_result_def Error_Wrap_def alloc_def)

lemma options_idem [simp]: "options l f (options l' f' opts) = options l f opts"
  by (simp add: options_def)

lemma err_via_w [simp]:
  "wrapped_errors b ''listing: %w'' [AErr e] = [e]" "wrapped_errors b ''watching: %w'' [AErr e] = [e]"
  by (simp_all add: run_format)

subsection \<open>The contract of a wrapping call\<close>

text \<open>
  What a client relies on: the adapter panics, succeeds and fails exactly as the call it
  adapts, with the same result; its error matches the base error, and it keeps the cause.
\<close>

locale wrapping_call =
  fixes call :: "list_options \<Rightarrow> 's \<Rightarrow> (go_arg, ('a \<times> err option) \<times> 's) outcome"
    and inner :: "list_options \<Rightarrow> 's \<Rightarrow> (go_arg, ('a \<times> err option) \<times> 's) outcome"
    and base :: "err Error"
  assumes fails_iff: "(\<exists>e w'. call opts w = Ret ((x, Some e), w')) \<longleftrightarrow>
      (\<exists>e w'. inner opts w = Ret ((x, Some e), w'))"
    and same_success: "(\<exists>w'. call opts w = Ret ((x, None), w')) \<longleftrightarrow> (\<exists>w'. inner opts w = Ret ((x, None), w'))"
    and same_panic: "call opts w = Panic v \<longleftrightarrow> inner opts w = Panic v"
    and matches_base: "call opts w = Ret ((x, Some e), w') \<Longrightarrow>
      errors_Is (Some e) (Some (ErrorPtr base))"
    and keeps_cause: "call opts w = Ret ((x, Some e), w') \<Longrightarrow>
      inner opts w = Ret ((y, Some c), w'') \<Longrightarrow> errors_Is (Some c) (Some t) \<Longrightarrow>
      errors_Is (Some e) (Some t)"
begin

lemma error_identified:
  assumes "inner opts w = Ret ((x, Some c), w'')"
  obtains e w' where "call opts w = Ret ((x, Some e), w')"
    and "errors_Is (Some e) (Some (ErrorPtr base))"
    and "\<And>t. errors_Is (Some c) (Some t) \<Longrightarrow> errors_Is (Some e) (Some t)"
proof -
  from assms fails_iff [of opts w x] obtain e w' where "call opts w = Ret ((x, Some e), w')" by blast
  then show thesis using that matches_base keeps_cause [OF _ assms] by blast
qed

end

text \<open>Two adapters on top of each other keep both base errors and the cause.\<close>

lemma stacked_outcomes:
  assumes "wrapping_call mid inner b" and "wrapping_call outer mid base"
  shows "case inner opts w of
      Panic v \<Rightarrow> outer opts w = Panic v
    | Ret ((x, None), u) \<Rightarrow> (\<exists>w'. outer opts w = Ret ((x, None), w'))
    | Ret ((x, Some c), u) \<Rightarrow> (\<exists>e w'. outer opts w = Ret ((x, Some e), w') \<and>
        errors_Is (Some e) (Some (ErrorPtr base)) \<and> errors_Is (Some e) (Some (ErrorPtr b)) \<and>
        errors_Is (Some e) (Some c) \<and> (\<forall>t. errors_Is (Some c) (Some t) \<longrightarrow> errors_Is (Some e) (Some t)))"
proof (cases "inner opts w")
  case (Panic v)
  with wrapping_call.same_panic [OF assms(1)] wrapping_call.same_panic [OF assms(2)] show ?thesis by simp
next
  case (Ret y)
  obtain x err u where y: "y = ((x, err), u)" by (metis prod_cases3 prod.collapse)
  show ?thesis
  proof (cases err)
    case None
    with Ret y wrapping_call.same_success [OF assms(1), of opts w x] wrapping_call.same_success [OF assms(2), of opts w x]
    show ?thesis by simp
  next
    case (Some c)
    from Ret y Some have "inner opts w = Ret ((x, Some c), u)" by simp
    from wrapping_call.error_identified [OF assms(1) this] obtain m v where m: "mid opts w = Ret ((x, Some m), v)"
      "errors_Is (Some m) (Some (ErrorPtr b))" "\<And>t. errors_Is (Some c) (Some t) \<Longrightarrow> errors_Is (Some m) (Some t)" by metis
    from wrapping_call.error_identified [OF assms(2) m(1)] obtain e w' where "outer opts w = Ret ((x, Some e), w')"
      "errors_Is (Some e) (Some (ErrorPtr base))" "\<And>t. errors_Is (Some m) (Some t) \<Longrightarrow> errors_Is (Some e) (Some t)" by metis
    then have "outer opts w = Ret ((x, Some e), w') \<and> errors_Is (Some e) (Some (ErrorPtr base)) \<and>
        errors_Is (Some e) (Some (ErrorPtr b)) \<and> errors_Is (Some e) (Some c) \<and>
        (\<forall>t. errors_Is (Some c) (Some t) \<longrightarrow> errors_Is (Some e) (Some t))"
      using m(2,3) errors_Is_self by blast
    with Ret y Some show ?thesis by auto
  qed
qed

lemma wrap_result_fails_iff:
  "(\<exists>e w'. wrap_result base msg r = Ret ((x, Some e), w')) \<longleftrightarrow> (\<exists>e w'. r = Ret ((x, Some e), w'))"
  by (cases r; cases "snd (fst (case r of Ret y \<Rightarrow> y))") (auto simp: wrap_result_simps)

lemma wrap_result_others:
  "(\<exists>w'. wrap_result base msg r = Ret ((x, None), w')) \<longleftrightarrow> (\<exists>w'. r = Ret ((x, None), w'))"
  "wrap_result base msg r = Panic v \<longleftrightarrow> r = Panic v"
  by (cases r; cases "snd (fst (case r of Ret y \<Rightarrow> y))"; auto simp: wrap_result_simps alloc_def)+

lemma wrap_result_error:
  assumes "wrap_result base msg r = Ret ((x, Some e), w')"
  shows "\<exists>c w. r = Ret ((x, Some c), w) \<and> e = Error_New (next_addr w) base msg [AErr c]"
  using assms
  by (cases r; cases "snd (fst (case r of Ret y \<Rightarrow> y))") (auto simp: wrap_result_simps)

lemma wrapping_call_wrap_result:
  assumes "\<And>c. wrapped_errors base msg [AErr c] = [c]"
  shows "wrapping_call (\<lambda>opts w. wrap_result base msg (inner opts w)) inner base"
proof
  fix opts w x e w'
  assume r: "wrap_result base msg (inner opts w) = Ret ((x, Some e), w')"
  from wrap_result_error [OF r] obtain c v where c: "inner opts w = Ret ((x, Some c), v)"
    and e: "e = Error_New (next_addr v) base msg [AErr c]" by auto
  show "errors_Is (Some e) (Some (ErrorPtr base))"
    unfolding e errors_Is_Error_New by (cases base; cases "Error_err base") auto
  fix y c' w'' t
  assume "inner opts w = Ret ((y, Some c'), w'')" and "errors_Is (Some c') (Some t)"
  with c show "errors_Is (Some e) (Some t)" unfolding e errors_Is_Error_New by (auto simp: assms)
qed (rule wrap_result_fails_iff wrap_result_others)+

interpretation retriever_list: wrapping_call "retr_List (NewRetriever iface base)" "retr_List iface" base
  for iface base
  using wrapping_call_wrap_result [of base "''listing: %w''"] by (simp add: NewRetriever_def)

interpretation retriever_watch: wrapping_call "retr_Watch (NewRetriever iface base)" "retr_Watch iface" base
  for iface base
  using wrapping_call_wrap_result [of base "''watching: %w''"] by (simp add: NewRetriever_def)

interpretation filter_list: wrapping_call "retr_List (NewFilterRetriever iface base lbl fld)"
    "\<lambda>opts. retr_List iface (options (stringer_value lbl) (stringer_value fld) opts)" base
  for iface base lbl fld
  using wrapping_call_wrap_result [of base "''listing: %w''"] by (simp add: NewFilterRetriever_def Let_def)

interpretation filter_watch: wrapping_call "retr_Watch (NewFilterRetriever iface base lbl fld)"
    "\<lambda>opts. retr_Watch iface (options (stringer_value lbl) (stringer_value fld) opts)" base
  for iface base lbl fld
  using wrapping_call_wrap_result [of base "''watching: %w''"] by (simp add: NewFilterRetriever_def Let_def)

text \<open>The contract does not depend on how the options are prepared.\<close>

lemma wrapping_call_options:
  assumes "wrapping_call call inner base"
  shows "wrapping_call (\<lambda>opts. call (f opts)) (\<lambda>opts. inner (f opts)) base"
proof
  fix opts w x e w' y c w'' t
  assume "call (f opts) w = Ret ((x, Some e), w')"
  then show "errors_Is (Some e) (Some (ErrorPtr base))" by (rule wrapping_call.matches_base [OF assms])
  assume "inner (f opts) w = Ret ((y, Some c), w'')" "errors_Is (Some c) (Some t)"
  with \<open>call (f opts) w = Ret ((x, Some e), w')\<close> show "errors_Is (Some e) (Some t)"
    by (rule wrapping_call.keeps_cause [OF assms])
qed (rule wrapping_call.fails_iff [OF assms] wrapping_call.same_success [OF assms] wrapping_call.same_panic [OF assms])+

subsection \<open>Properties\<close>

text \<open>
  C37. A filter retriever stacked on a plain retriever does, for a list and for a watch each
  by itself, what the client does on the options with the selectors written in: it panics
  and it succeeds exactly as the client, with the same result; and where the client fails,
  it reports an error that matches both base errors, the error of the client and everything
  that one matches.
\<close>

theorem stacked_retriever_error:
  fixes iface :: "('l, 'w, 'z go_world_scheme) retriever_ops"
  assumes "r = NewFilterRetriever (NewRetriever iface b) base lbl fld"
    and "sel = options (stringer_value lbl) (stringer_value fld) opts"
  shows "(case retr_List iface sel w of
       Panic v \<Rightarrow> retr_List r opts w = Panic v
     | Ret ((x, None), u) \<Rightarrow> (\<exists>w'. retr_List r opts w = Ret ((x, None), w'))
     | Ret ((x, Some c), u) \<Rightarrow> (\<exists>e w'. retr_List r opts w = Ret ((x, Some e), w') \<and>
         errors_Is (Some e) (Some (ErrorPtr base)) \<and> errors_Is (Some e) (Some (ErrorPtr b)) \<and>
         errors_Is (Some e) (Some c) \<and> (\<forall>t. errors_Is (Some c) (Some t) \<longrightarrow> errors_Is (Some e) (Some t)))) \<and>
    (case retr_Watch iface sel w of
       Panic v \<Rightarrow> retr_Watch r opts w = Panic v
     | Ret ((y, None), u) \<Rightarrow> (\<exists>w'. retr_Watch r opts w = Ret ((y, None), w'))
     | Ret ((y, Some d), u) \<Rightarrow> (\<exists>f w'. retr_Watch r opts w = Ret ((y, Some f), w') \<and>
         errors_Is (Some f) (Some (ErrorPtr base)) \<and> errors_Is (Some f) (Some (ErrorPtr b)) \<and>
         errors_Is (Some f) (Some d) \<and> (\<forall>t. errors_Is (Some d) (Some t) \<longrightarrow> errors_Is (Some f) (Some t))))"
proof -
  let ?sel = "\<lambda>opts. options (stringer_value lbl) (stringer_value fld) opts"
  have "wrapping_call (\<lambda>opts. retr_List (NewRetriever iface b) (?sel opts)) (\<lambda>opts. retr_List iface (?sel opts)) b"
    "wrapping_call (\<lambda>opts. retr_Watch (NewRetriever iface b) (?sel opts)) (\<lambda>opts. retr_Watch iface (?sel opts)) b"
    by (rule wrapping_call_options, rule retriever_list.wrapping_call_axioms)
      (rule wrapping_call_options, rule retriever_watch.wrapping_call_axioms)
  from stacked_outcomes [OF this(1) filter_list.wrapping_call_axioms, where opts = opts and w = w]
    stacked_outcomes [OF this(2) filter_watch.wrapping_call_axioms, where opts = opts and w = w]
  show ?thesis unfolding assms by (rule conjI)
qed

text \<open>
  The innermost filter decides: wrapping a filter retriever in another one behaves,
  for lists and for watches, exactly as wrapping it in a plain retriever, whatever selectors
  the outer one is given. The outer selectors never reach the API server.
\<close>

lemma outer_selectors_ignored:
  "NewFilterRetriever (NewFilterRetriever iface b lbl fld) base lbl' fld' =
   NewRetriever (NewFilterRetriever iface b lbl fld) base"
  by (simp add: NewFilterRetriever_def NewRetriever_def Let_def)

subsection \<open>Witness\<close>

text \<open>A client that refuses to list, but watches.\<close>

definition example_client :: "(nat, nat, go_world) retriever_ops" where
  "example_client =
     \<lparr>retr_List = (\<lambda>opts w. Ret ((0, Some (ErrorString 90 ''refused'')), w)),
      retr_Watch = (\<lambda>opts w. Ret ((7, None), w))\<rparr>"

abbreviation example_stack :: "(nat, nat, go_world) retriever_ops" where
  "example_stack \<equiv> NewFilterRetriever (NewRetriever example_client ErrQueue) ErrController None (Some ''a=b'')"

theorem stacked_retriever_error_witness:
  "(\<exists>e u. retr_List example_stack \<lparr>LabelSelector = [], FieldSelector = [], other_options = []\<rparr> \<lparr>now = 0, next_addr = 100\<rparr>
       = Ret ((0, Some e), u) \<and> errors_Is (Some e) (Some (ErrorString 90 ''refused'')) \<and>
         errors_Is (Some e) (Some (ErrorPtr ErrQueue)) \<and> errors_Is (Some e) (Some (ErrorPtr ErrController))) \<and>
   (\<exists>u. retr_Watch example_stack \<lparr>LabelSelector = [], FieldSelector = [], other_options = []\<rparr> \<lparr>now = 0, next_addr = 100\<rparr>
       = Ret ((7, None), u))"
  using stacked_retriever_error [OF refl refl, of example_client ErrQueue ErrController None "Some ''a=b''"
      "\<lparr>LabelSelector = [], FieldSelector = [], other_options = []\<rparr>" "\<lparr>now = 0, next_addr = 100\<rparr>"]
  by (simp add: example_client_def) blast

end
