(* ===== verification/Controllers.thy ===== *)
theory Controllers
  imports Processors Retrievers
begin

section \<open>Controllers: \<open>controller/controller.go\<close>\<close>

text \<open>
  A controller owns an informer of client-go, creates a queue, an event handler and a
  processor per handler, and answers look-ups from the informer's cache. Arguments of the
  model: the informer (the record \<open>informer_ops\<close>; a cache snapshot is the \<open>indexer\<close> of
  \<open>Owner_Index\<close>), the type test \<open>is_T\<close> of the type parameter \<open>T\<close>, the rate limiters
  and the queue client-go builds from one. A controller is a pointer with two lists that
  only \<open>AddHandler\<close> changes; its methods return the updated record.
\<close>

subsection \<open>The data\<close>

record ('l, 's) Config =
  cfg_Name :: string
  cfg_Workers :: int
  cfg_Sync :: duration
  cfg_Retries :: int
  cfg_Delay :: Delay
  cfg_RateLimiter :: "('s, 'l) go option"

type_synonym transform_func = "any \<Rightarrow> (go_arg, any \<times> err option) outcome"

text \<open>\<open>inf_WaitForCacheSync\<close> is \<open>None\<close> if the informer never syncs and the context is never done.\<close>

record 's informer_ops =
  inf_GetIndexer :: "'s \<Rightarrow> indexer"
  inf_SetTransform :: "transform_func \<Rightarrow> 's \<Rightarrow> err option \<times> 's"
  inf_AddEventHandler :: "'s ResourceEventHandler \<Rightarrow> duration \<Rightarrow> 's \<Rightarrow> err option \<times> 's"
  inf_Run :: "'s \<Rightarrow> 's"
  inf_WaitForCacheSync :: "'s \<Rightarrow> (bool \<times> 's) option"

record ('l, 's) controller =
  c_config :: "('l, 's) Config"
  c_informer :: "'s informer_ops"
  c_handler :: "'s ResourceEventHandler list"
  c_processor :: "'s Processor list"

subsection \<open>Reducing resources\<close>

text \<open>
  \<open>StripManagedFields\<close> writes through the pointer it is given and returns that pointer; a
  method call on nil metadata panics.
\<close>

fun StripManagedFields :: transform_func where
  "StripManagedFields (Value t b (Some (Some m)) r) =
     Ret (Value t b (Some (Some (m\<lparr>meta_managed := []\<rparr>))) r, None)"
| "StripManagedFields (Value t b (Some None) r) = Panic (AErr (RuntimeError nil_deref))"
| "StripManagedFields obj = Ret (obj, None)"

subsection \<open>Construction\<close>

text \<open>
  \<open>New\<close>: the informer is made by client-go (\<open>new_informer\<close>) from a list and a watch
  function, the re-sync interval and the indexers.
\<close>

definition New_controller ::
  "((list_options \<Rightarrow> 's \<Rightarrow> (go_arg, ('o \<times> err option) \<times> 's) outcome) \<Rightarrow>
    (list_options \<Rightarrow> 's \<Rightarrow> (go_arg, ('v \<times> err option) \<times> 's) outcome) \<Rightarrow>
    duration \<Rightarrow> (string \<rightharpoonup> index_func) \<Rightarrow> 's informer_ops)
   \<Rightarrow> ('l, 's) Config \<Rightarrow> ('o, 'v, 's) retriever_ops \<Rightarrow> (string \<rightharpoonup> index_func) \<Rightarrow> ('l, 's) controller" where
  "New_controller new_informer config retriever indexers =
     \<lparr>c_config = config,
      c_informer = new_informer (\<lambda>opts w. retr_List retriever opts w) (retr_Watch retriever)
        (cfg_Sync config) indexers,
      c_handler = [], c_processor = []\<rparr>"

definition SetTransform ::
  "('l, 'z go_world_scheme) controller \<Rightarrow> transform_func \<Rightarrow> 'z go_world_scheme \<Rightarrow> err option \<times> 'z go_world_scheme" where
  "SetTransform c transform w =
     (case inf_SetTransform (c_informer c) transform w of
        (Some e, w1) \<Rightarrow>
          (case alloc w1 of (a, w2) \<Rightarrow>
            (Some (Error_New a ErrController ''set transform [name=%s]: %w''
               [AStr (cfg_Name (c_config c)), AErr e]), w2))
      | (None, w1) \<Rightarrow> (None, w1))"

definition addHandler ::
  "('l, 'z go_world_scheme) controller \<Rightarrow> string \<Rightarrow> 'z go_world_scheme ResourceEventHandler
     \<Rightarrow> 'z go_world_scheme \<Rightarrow> (err option \<times> ('l, 'z go_world_scheme) controller) \<times> 'z go_world_scheme" where
  "addHandler c name handler w =
     (case inf_AddEventHandler (c_informer c) handler (cfg_Sync (c_config c)) w of
        (Some e, w1) \<Rightarrow>
          (case alloc w1 of (a, w2) \<Rightarrow>
            ((Some (Error_New a ErrController ''event handler [name=%s, handler=%s] %w''
               [AStr (cfg_Name (c_config c)), AStr name, AErr e]), c), w2))
      | (None, w1) \<Rightarrow> ((None, c\<lparr>c_handler := c_handler c @ [handler]\<rparr>), w1))"

definition AddHandler ::
  "('q, string) wq_ops \<Rightarrow> ('l \<Rightarrow> 'q) \<Rightarrow> (('q, string, 'z) queue_world_scheme, 'l) go
   \<Rightarrow> ('l, ('q, string, 'z) queue_world_scheme) controller \<Rightarrow> string
   \<Rightarrow> ('q, string, 'z) queue_world_scheme handler_ops
   \<Rightarrow> ('q, string, 'z) queue_world_scheme recorder_ops option
   \<Rightarrow> ('q, string, 'z) queue_world_scheme event_filter option list
   \<Rightarrow> (('q, string, 'z) queue_world_scheme,
       err option \<times> ('l, ('q, string, 'z) queue_world_scheme) controller) go" where
  "AddHandler wq queue_of default_limiter c name handler recorder fs w =
     (let limiter = (case cfg_RateLimiter (c_config c) of None \<Rightarrow> default_limiter | Some f \<Rightarrow> f)
      in case limiter w of
           (Panic v, w1) \<Rightarrow> (Panic v, w1)
         | (Ret l, w1) \<Rightarrow>
             (case alloc w1 of (a, w2) \<Rightarrow>
               (case NewRateLimitedQueue wq a name (queue_of l) (cfg_Retries (c_config c)) recorder w2 of
                  Panic v \<Rightarrow> (Panic v, w2)
                | Ret (queue, w3) \<Rightarrow>
                    (case addHandler c name
                            (NewResourceEventHandler handler queue (cfg_Delay (c_config c)) fs) w3 of
                       ((Some err, c'), w4) \<Rightarrow> (Ret (Some err, c'), w4)
                     | ((None, c'), w4) \<Rightarrow>
                         (Ret (None, c'\<lparr>c_processor := c_processor c' @
                            [NewProcessor handler (inf_GetIndexer (c_informer c'))
                               (cfg_Workers (c_config c')) queue recorder]\<rparr>), w4)))))"

text \<open>\<open>Init\<close>: the errors it sends on the channel, \<open>None\<close> if it never returns.\<close>

definition controller_Init ::
  "('l, 'z go_world_scheme) controller \<Rightarrow> 'z go_world_scheme \<Rightarrow> (err list \<times> 'z go_world_scheme) option" where
  "controller_Init c w =
     (case inf_WaitForCacheSync (c_informer c) (inf_Run (c_informer c) w) of
        None \<Rightarrow> None
      | Some (synced, w1) \<Rightarrow>
          if \<not> synced then
            (case alloc w1 of (a, w2) \<Rightarrow>
              Some ([Error_New a ErrController ''running [name=%s]: %s''
                       [AStr (cfg_Name (c_config c)), AStr ''timed out waiting for sync'']], w2))
          else Some ([], w1))"

subsection \<open>Look-ups\<close>

text \<open>\<open>Get\<close>: the result is \<open>None\<close> for the zero value of \<open>T\<close>.\<close>

definition controller_Get ::
  "(any \<Rightarrow> bool) \<Rightarrow> ('l, 'z go_world_scheme) controller \<Rightarrow> string \<Rightarrow> 'z go_world_scheme
     \<Rightarrow> (any option \<times> err option) \<times> 'z go_world_scheme" where
  "controller_Get is_T c key w =
     (case GetByKey (inf_GetIndexer (c_informer c) w) key of (obj, exists, err) \<Rightarrow>
        (case err of
           Some e \<Rightarrow>
             (case alloc w of (a, w') \<Rightarrow>
               ((None, Some (Error_New a ErrController ''get by key [name=%s, key=%s]: %w''
                   [AStr (cfg_Name (c_config c)), AStr key, AErr e])), w'))
         | None \<Rightarrow>
             if \<not> is_T obj \<and> exists then
               (case alloc w of (a, w') \<Rightarrow>
                 ((None, Some (Error_New a ErrController ''type [name=%s, key=%s]: %T''
                     [AStr (cfg_Name (c_config c)), AStr key, arg_of_any obj])), w'))
             else ((if is_T obj then Some obj else None, None), w)))"

text \<open>\<open>owner\<close>: the nil dereference happens only where the namespace or the owners are read.\<close>

fun oref_matches :: "string \<Rightarrow> string \<Rightarrow> owner_ref list \<Rightarrow> bool" where
  "oref_matches name uid [] = False"
| "oref_matches name uid (oref # orefs) =
     (if (uid = [] \<or> uid = oref_uid oref) \<and> (name = [] \<or> name = oref_name oref) then True
      else oref_matches name uid orefs)"

definition owner :: "string \<Rightarrow> string \<Rightarrow> string \<Rightarrow> any \<Rightarrow> (go_arg, bool) outcome" where
  "owner namespace name uid obj =
     (case as_accessor obj of
        None \<Rightarrow> Ret False
      | Some m \<Rightarrow>
          if namespace \<noteq> [] \<and> m = None then Panic (AErr (RuntimeError nil_deref))
          else if namespace \<noteq> [] \<and> meta_namespace (the m) \<noteq> namespace then Ret False
          else if name = [] \<and> uid = [] then Ret True
          else (case m of
                  None \<Rightarrow> Panic (AErr (RuntimeError nil_deref))
                | Some o_meta \<Rightarrow> Ret (oref_matches name uid (meta_owners o_meta))))"

definition lookup :: "indexer \<Rightarrow> string \<Rightarrow> string \<Rightarrow> any list" where
  "lookup ix name uid =
     (let by_name = (if name \<noteq> [] then
            (case ByIndex ix IndexOwnerName name of Inr values \<Rightarrow> values | Inl _ \<Rightarrow> List_all ix)
          else List_all ix)
      in if uid \<noteq> [] then
           (case ByIndex ix IndexOwnerUID uid of Inr values \<Rightarrow> values | Inl _ \<Rightarrow> by_name)
         else by_name)"

fun list_loop :: "(any \<Rightarrow> bool) \<Rightarrow> (any \<Rightarrow> (go_arg, bool) outcome) \<Rightarrow> any list \<Rightarrow> (go_arg, any list) outcome" where
  "list_loop is_T owned [] = Ret []"
| "list_loop is_T owned (obj # objs) =
     (if is_T obj then
        (case owned obj of
           Panic v \<Rightarrow> Panic v
         | Ret b \<Rightarrow>
             (case list_loop is_T owned objs of
                Panic v \<Rightarrow> Panic v
              | Ret results \<Rightarrow> Ret (if b then obj # results else results)))
      else list_loop is_T owned objs)"

definition controller_List ::
  "(any \<Rightarrow> bool) \<Rightarrow> bool \<Rightarrow> ('l, ('q, 'k, 'z) kube_world_scheme) controller \<Rightarrow> string \<Rightarrow> string \<Rightarrow> string
     \<Rightarrow> (('q, 'k, 'z) kube_world_scheme, any list) go" where
  "controller_List is_T trace c namespace name uid w =
     (case list_loop is_T (owner namespace name uid)
             (lookup (inf_GetIndexer (c_informer c) w) name uid) of
        Panic v \<Rightarrow> (Panic v, w)
      | Ret results \<Rightarrow>
          (Ret results,
           if trace then
             log_do [LogTrace namespace name uid (length results) (''listing '' @ cfg_Name (c_config c))] w
           else w))"

definition controller_ListByIndex ::
  "(any \<Rightarrow> bool) \<Rightarrow> ('l, 's) controller \<Rightarrow> string \<Rightarrow> string \<Rightarrow> 's \<Rightarrow> any list" where
  "controller_ListByIndex is_T c index v w =
     (case ByIndex (inf_GetIndexer (c_informer c) w) index v of
        Inl _ \<Rightarrow> []
      | Inr values \<Rightarrow> foldl (\<lambda>results obj. if is_T obj then results @ [obj] else results) [] values)"

subsection \<open>The look-ups compute what they should\<close>

text \<open>The ownership relation: namespace, and one owner reference with the wanted uid and name.\<close>

definition owned_by :: "string \<Rightarrow> string \<Rightarrow> string \<Rightarrow> any \<Rightarrow> bool" where
  "owned_by namespace name uid obj =
     (case as_accessor obj of
        Some (Some m) \<Rightarrow> (namespace = [] \<or> meta_namespace m = namespace) \<and>
          (name = [] \<and> uid = [] \<or>
           (\<exists>r \<in> set (meta_owners m). (uid = [] \<or> oref_uid r = uid) \<and> (name = [] \<or> oref_name r = name)))
      | _ \<Rightarrow> False)"

lemma oref_matches_iff:
  "oref_matches name uid orefs \<longleftrightarrow>
     (\<exists>r \<in> set orefs. (uid = [] \<or> oref_uid r = uid) \<and> (name = [] \<or> oref_name r = name))"
  by (induction orefs) auto

lemma owner_owned_by:
  "as_accessor obj \<noteq> Some None \<Longrightarrow> owner namespace name uid obj = Ret (owned_by namespace name uid obj)"
  by (auto simp: owner_def owned_by_def oref_matches_iff split: option.split)

lemma list_loop_filter:
  "(\<And>obj. obj \<in> set objs \<Longrightarrow> is_T obj \<Longrightarrow> owned obj = Ret (f obj)) \<Longrightarrow>
     list_loop is_T owned objs = Ret (filter (\<lambda>obj. is_T obj \<and> f obj) objs)"
  by (induction objs) auto

text \<open>An index, if it is registered, narrows the candidates without losing an owned object.\<close>

lemma ByIndex_owned:
  assumes "registered ix index f \<or> unregistered ix index"
    and "\<And>obj. obj \<in> set (List_all ix) \<Longrightarrow> P obj \<Longrightarrow> indexed_under f v obj"
    and "set rest \<subseteq> set (List_all ix)" and "filter_mset P (mset rest) = filter_mset P (mset (List_all ix))"
    and "values = (case ByIndex ix index v of Inr values \<Rightarrow> values | Inl _ \<Rightarrow> rest)"
  shows "set values \<subseteq> set (List_all ix) \<and> filter_mset P (mset values) = filter_mset P (mset (List_all ix))"
  using assms(1)
proof
  assume "registered ix index f"
  then obtain xs where xs: "ByIndex ix index v = Inr xs"
    "mset xs = filter_mset (indexed_under f v) (mset (List_all ix))"
    unfolding registered_def by blast
  have "filter_mset P (mset xs) = filter_mset P (mset (List_all ix))"
    unfolding xs(2) filter_filter_mset using assms(2) by (auto intro: filter_mset_cong)
  moreover have "set xs \<subseteq> set (List_all ix)"
    using xs(2) by (metis filter_is_subset mset_filter set_mset_mset)
  ultimately show ?thesis using xs(1) assms(5) by simp
next
  assume "unregistered ix index"
  then obtain e where "ByIndex ix index v = Inl e" unfolding unregistered_def by blast
  with assms(3,4,5) show ?thesis by simp
qed

lemma lookup_complete:
  assumes "registered ix IndexOwnerUID OwnerUIDIndexFunc \<or> unregistered ix IndexOwnerUID"
    and "registered ix IndexOwnerName OwnerNameIndexFunc \<or> unregistered ix IndexOwnerName"
    and "\<And>obj. obj \<in> set (List_all ix) \<Longrightarrow> as_accessor obj \<noteq> Some None"
  shows "set (lookup ix name uid) \<subseteq> set (List_all ix) \<and>
    filter_mset (owned_by ns name uid) (mset (lookup ix name uid)) =
    filter_mset (owned_by ns name uid) (mset (List_all ix))"
proof -
  define rest where "rest = (if name \<noteq> [] then
      (case ByIndex ix IndexOwnerName name of Inr values \<Rightarrow> values | Inl _ \<Rightarrow> List_all ix) else List_all ix)"
  have by_name: "indexed_under OwnerNameIndexFunc name obj"
    if "obj \<in> set (List_all ix)" "owned_by ns name uid obj" "name \<noteq> []" for obj
    using that assms(3) [of obj] indexed_under_owner(2) [of obj name] by (auto simp: owned_by_def split: option.splits)
  have by_uid: "indexed_under OwnerUIDIndexFunc uid obj"
    if "obj \<in> set (List_all ix)" "owned_by ns name uid obj" "uid \<noteq> []" for obj
    using that assms(3) [of obj] indexed_under_owner(1) [of obj uid] by (auto simp: owned_by_def split: option.splits)
  have rest: "set rest \<subseteq> set (List_all ix)"
    "filter_mset (owned_by ns name uid) (mset rest) = filter_mset (owned_by ns name uid) (mset (List_all ix))"
    using ByIndex_owned [OF assms(2) by_name subset_refl refl refl] by (auto simp: rest_def)
  show ?thesis
    using ByIndex_owned [OF assms(1) by_uid rest refl] rest
    by (auto simp: lookup_def Let_def rest_def [symmetric])
qed

subsection \<open>Properties: look-ups\<close>

text \<open>
  C6. \<open>List\<close> does not depend on which owner indexes are registered: with either index
  registered or not, and no cached object with nil metadata, it returns exactly the cached
  objects of type \<open>T\<close> that are owned as asked for, each as often as the cache holds it.
\<close>

theorem list_is_index_independent:
  assumes "registered (inf_GetIndexer (c_informer c) w) IndexOwnerUID OwnerUIDIndexFunc \<or>
      unregistered (inf_GetIndexer (c_informer c) w) IndexOwnerUID"
    and "registered (inf_GetIndexer (c_informer c) w) IndexOwnerName OwnerNameIndexFunc \<or>
      unregistered (inf_GetIndexer (c_informer c) w) IndexOwnerName"
    and "\<forall>obj \<in> set (List_all (inf_GetIndexer (c_informer c) w)). as_accessor obj \<noteq> Some None"
  shows "\<exists>xs w'. controller_List is_T trace c ns name uid w = (Ret xs, w') \<and>
    mset xs = filter_mset (\<lambda>obj. is_T obj \<and> owned_by ns name uid obj)
      (mset (List_all (inf_GetIndexer (c_informer c) w)))"
proof -
  let ?ix = "inf_GetIndexer (c_informer c) w"
  let ?xs = "filter (\<lambda>obj. is_T obj \<and> owned_by ns name uid obj) (lookup ?ix name uid)"
  from lookup_complete [OF assms(1,2)] assms(3)
  have sub: "set (lookup ?ix name uid) \<subseteq> set (List_all ?ix)"
    and eq: "filter_mset (owned_by ns name uid) (mset (lookup ?ix name uid)) =
      filter_mset (owned_by ns name uid) (mset (List_all ?ix))" by blast+
  have "list_loop is_T (owner ns name uid) (lookup ?ix name uid) = Ret ?xs"
    using sub assms(3) by (intro list_loop_filter owner_owned_by) blast
  moreover have "mset ?xs = filter_mset (\<lambda>obj. is_T obj \<and> owned_by ns name uid obj) (mset (List_all ?ix))"
    using arg_cong [OF eq, of "filter_mset is_T"]
    by (simp add: filter_filter_mset conj_commute)
  ultimately show ?thesis by (simp add: controller_List_def)
qed

text \<open>
  \<open>List\<close> without namespace, name and uid never consults an index and never panics; it
  returns, in cache order, the cached objects of type \<open>T\<close> that have a metadata accessor:
  objects without one are left out. A trace entry with the number of results is written
  exactly at the trace level.
\<close>

lemma list_all_objects:
  "controller_List is_T trace c [] [] [] w =
     (let xs = filter (\<lambda>obj. is_T obj \<and> as_accessor obj \<noteq> None) (List_all (inf_GetIndexer (c_informer c) w))
      in (Ret xs, w\<lparr>logs := logs w @
            (if trace then [LogTrace [] [] [] (length xs) (''listing '' @ cfg_Name (c_config c))] else [])\<rparr>))"
proof -
  have "list_loop is_T (owner [] [] []) objs = Ret (filter (\<lambda>obj. is_T obj \<and> as_accessor obj \<noteq> None) objs)" for objs
    by (rule list_loop_filter) (auto simp: owner_def split: option.splits)
  then show ?thesis by (simp add: controller_List_def lookup_def Let_def log_do_def)
qed

text \<open>
  \<open>Get\<close> on every branch: an index error and a cached value of another type are errors
  matching \<open>ErrController\<close> (the index error is kept as cause) with the zero value; a
  missing key is the zero value without an error; otherwise the cached value is returned.
\<close>

lemma get_result:
  "(case GetByKey (inf_GetIndexer (c_informer c) w) key of
      (obj, exists, Some e) \<Rightarrow> (\<exists>e'. fst (controller_Get is_T c key w) = (None, Some e') \<and>
         errors_Is (Some e') (Some (ErrorPtr ErrController)) \<and> errors_Is (Some e') (Some e))
    | (obj, exists, None) \<Rightarrow>
        if is_T obj then controller_Get is_T c key w = ((Some obj, None), w)
        else if exists then (\<exists>e'. fst (controller_Get is_T c key w) = (None, Some e') \<and>
          errors_Is (Some e') (Some (ErrorPtr ErrController)))
        else controller_Get is_T c key w = ((None, None), w))"
  by (auto simp: controller_Get_def errors_Is_Error_New run_format alloc_def split: prod.split option.split)

text \<open>
  Where the owner index is registered, \<open>ListByIndex\<close> on it and \<open>List\<close> by uid return
  the same list, in the same order; where an index is not registered, \<open>ListByIndex\<close> is
  empty although \<open>List\<close> falls back to the scan.
\<close>

lemma list_by_index_agrees:
  assumes "registered (inf_GetIndexer (c_informer c) w) IndexOwnerUID OwnerUIDIndexFunc" and "uid \<noteq> []"
    and "\<forall>obj \<in> set (List_all (inf_GetIndexer (c_informer c) w)). as_accessor obj \<noteq> Some None"
    and "unregistered (inf_GetIndexer (c_informer c) w) other"
  shows "fst (controller_List is_T trace c [] [] uid w) = Ret (controller_ListByIndex is_T c IndexOwnerUID uid w) \<and>
    controller_ListByIndex is_T c other v w = []"
proof -
  let ?ix = "inf_GetIndexer (c_informer c) w"
  from assms(1) obtain xs where xs: "ByIndex ?ix IndexOwnerUID uid = Inr xs"
    "mset xs = filter_mset (indexed_under OwnerUIDIndexFunc uid) (mset (List_all ?ix))"
    unfolding registered_def by blast
  have owned: "owner [] [] uid obj = Ret True" if "obj \<in> set xs" for obj
  proof -
    from that have "obj \<in># filter_mset (indexed_under OwnerUIDIndexFunc uid) (mset (List_all ?ix))"
      unfolding xs(2) [symmetric] by simp
    then have "obj \<in> set (List_all ?ix)" and under: "indexed_under OwnerUIDIndexFunc uid obj" by simp_all
    with assms(3) have acc: "as_accessor obj \<noteq> Some None" by blast
    with under assms(2) have "owned_by [] [] uid obj"
      by (auto simp: indexed_under_owner owned_by_def)
    with owner_owned_by [OF acc, of "[]" "[]" uid] show ?thesis by simp
  qed
  have "list_loop is_T (owner [] [] uid) xs = Ret (filter (\<lambda>obj. is_T obj \<and> True) xs)"
    by (rule list_loop_filter) (rule owned)
  moreover have "foldl (\<lambda>results obj. if is_T obj then results @ [obj] else results) ys zs = ys @ filter is_T zs" for ys zs
    by (induction zs arbitrary: ys) auto
  moreover from assms(4) obtain e where "ByIndex ?ix other v = Inl e" unfolding unregistered_def by blast
  ultimately show ?thesis
    using xs(1) assms(2) by (simp add: controller_List_def controller_ListByIndex_def lookup_def Let_def)
qed

subsection \<open>Handlers and their processors\<close>

text \<open>The handler list and the processor list belong together: same handler, same queue.\<close>

definition wired :: "('l, 's) controller \<Rightarrow> bool" where
  "wired c \<longleftrightarrow> list_all2 (\<lambda>r p. reh_handler r = p_handler p \<and> reh_queue r = p_queue p \<and>
      reh_delay r = cfg_Delay (c_config c) \<and> p_workers p = cfg_Workers (c_config c) \<and>
      p_indexer p = inf_GetIndexer (c_informer c)) (c_handler c) (c_processor c)"

lemma addHandler_cases:
  "(\<exists>e w'. addHandler c name h w = ((Some (Error_New (next_addr w') ErrController
       ''event handler [name=%s, handler=%s] %w'' [AStr (cfg_Name (c_config c)), AStr name, AErr e]), c),
       snd (alloc w')) \<and> inf_AddEventHandler (c_informer c) h (cfg_Sync (c_config c)) w = (Some e, w')) \<or>
   (\<exists>w'. addHandler c name h w = ((None, c\<lparr>c_handler := c_handler c @ [h]\<rparr>), w') \<and>
      inf_AddEventHandler (c_informer c) h (cfg_Sync (c_config c)) w = (None, w'))"
  by (auto simp: addHandler_def alloc_def split: prod.splits option.splits)

lemma AddHandler_cases:
  assumes "AddHandler wq queue_of dl c name h rec fs w = (Ret (res, c'), w')"
  obtains (failed) e where "res = Some e" and "c' = c" and "errors_Is (Some e) (Some (ErrorPtr ErrController))"
  | (added) a where "res = None" and
      "c' = c\<lparr>c_handler := c_handler c @
           [NewResourceEventHandler h (built_queue wq \<lparr>rq_name = name, rq_queue = a, rq_retries = cfg_Retries (c_config c)\<rparr> rec)
             (cfg_Delay (c_config c)) fs],
         c_processor := c_processor c @
           [NewProcessor h (inf_GetIndexer (c_informer c)) (cfg_Workers (c_config c))
             (built_queue wq \<lparr>rq_name = name, rq_queue = a, rq_retries = cfg_Retries (c_config c)\<rparr> rec) rec]\<rparr>"
proof -
  from assms obtain l w1 a w2 queue w3 where steps:
    "(case cfg_RateLimiter (c_config c) of None \<Rightarrow> dl | Some f \<Rightarrow> f) w = (Ret l, w1)" "alloc w1 = (a, w2)"
    "NewRateLimitedQueue wq a name (queue_of l) (cfg_Retries (c_config c)) rec w2 = Ret (queue, w3)"
    by (auto simp: AddHandler_def Let_def split: prod.splits outcome.splits)
  note queue = NewRateLimitedQueue_built [OF steps(3)]
  show thesis
    using addHandler_cases [of c name "NewResourceEventHandler h queue (cfg_Delay (c_config c)) fs" w3]
      assms steps failed added [of a]
    by (auto simp: AddHandler_def Let_def queue)
qed

text \<open>A sequence of requests to add a handler, with their results.\<close>

type_synonym 's request =
  "string \<times> 's handler_ops \<times> 's recorder_ops option \<times> 's event_filter option list"

fun add_handlers ::
  "('q, string) wq_ops \<Rightarrow> ('l \<Rightarrow> 'q) \<Rightarrow> (('q, string, 'z) queue_world_scheme, 'l) go
   \<Rightarrow> ('q, string, 'z) queue_world_scheme request list
   \<Rightarrow> ('l, ('q, string, 'z) queue_world_scheme) controller
   \<Rightarrow> (('q, string, 'z) queue_world_scheme, err option list \<times> ('l, ('q, string, 'z) queue_world_scheme) controller) go" where
  "add_handlers wq queue_of dl [] c w = (Ret ([], c), w)"
| "add_handlers wq queue_of dl ((name, h, rec, fs) # reqs) c w =
     (case AddHandler wq queue_of dl c name h rec fs w of
        (Panic v, w1) \<Rightarrow> (Panic v, w1)
      | (Ret (err, c1), w1) \<Rightarrow>
          (case add_handlers wq queue_of dl reqs c1 w1 of
             (Panic v, w2) \<Rightarrow> (Panic v, w2)
           | (Ret (errs, c2), w2) \<Rightarrow> (Ret (err # errs, c2), w2)))"

definition accepted :: "'s request list \<Rightarrow> err option list \<Rightarrow> (string \<times> 's handler_ops) list" where
  "accepted reqs errs = map (\<lambda>((name, h, _, _), _). (name, h)) (filter (\<lambda>(_, e). e = None) (zip reqs errs))"

definition served :: "('l, 's) controller \<Rightarrow> (string \<times> 's handler_ops) list" where
  "served c = map (\<lambda>p. (q_Name (p_queue p), p_handler p)) (c_processor c)"

lemma NewProcessor_simps [simp]:
  "p_handler (NewProcessor h ix n q rec) = h" "p_queue (NewProcessor h ix n q rec) = q"
  "p_workers (NewProcessor h ix n q rec) = n" "p_indexer (NewProcessor h ix n q rec) = ix"
  "p_recorder (NewProcessor h ix n q rec) = rec"
  by (simp_all add: NewProcessor_def)

lemma NewResourceEventHandler_simps [simp]:
  "reh_handler (NewResourceEventHandler h q d fs) = h" "reh_queue (NewResourceEventHandler h q d fs) = q"
  "reh_delay (NewResourceEventHandler h q d fs) = d"
  by (simp_all add: NewResourceEventHandler_def)

lemma AddHandler_wired:
  assumes "AddHandler wq queue_of dl c name h rec fs w = (Ret (res, c'), w')" and "wired c"
  shows "wired c' \<and> served c' = served c @ (if res = None then [(name, h)] else []) \<and>
    (res \<noteq> None \<longrightarrow> errors_Is res (Some (ErrorPtr ErrController)))"
  using assms(1)
proof (cases rule: AddHandler_cases)
  case (added a)
  with assms(2) show ?thesis by (simp add: wired_def served_def list_all2_appendI)
qed (simp_all add: assms(2))

lemma add_handlers_wired:
  assumes "add_handlers wq queue_of dl reqs c w = (Ret (errs, c'), w')" and "wired c"
  shows "wired c' \<and> served c' = served c @ accepted reqs errs \<and>
    (\<forall>e \<in> set errs. e \<noteq> None \<longrightarrow> errors_Is e (Some (ErrorPtr ErrController)))"
  using assms
proof (induction wq queue_of dl reqs c w arbitrary: errs c' w' rule: add_handlers.induct)
  case (2 wq queue_of dl name h rec fs reqs c w)
  from "2.prems"(1) obtain err c1 w1 errs' w2 where
    one: "AddHandler wq queue_of dl c name h rec fs w = (Ret (err, c1), w1)" and
    rest: "add_handlers wq queue_of dl reqs c1 w1 = (Ret (errs', c'), w2)" and errs: "errs = err # errs'"
    by (auto split: prod.splits outcome.splits)
  note step = AddHandler_wired [OF one "2.prems"(2)]
  with "2.IH" [OF one [symmetric] refl refl, of errs' c' w2] rest errs show ?case
    by (auto simp: accepted_def)
qed (simp add: accepted_def)

text \<open>
  C23. A controller built by \<open>New\<close> and any sequence of \<open>AddHandler\<close> calls has, for each
  accepted handler in order and for no other, one event handler and one processor that
  share the handler and the queue (named as asked for), with the configured delay, number
  of workers and the informer's cache; a refused handler leaves both lists alone and its
  error matches \<open>ErrController\<close>.
\<close>

theorem handlers_wired:
  "(case add_handlers wq queue_of dl reqs (New_controller new_informer config retriever indexers) w of
      (Panic v, w') \<Rightarrow> True
    | (Ret (errs, c), w') \<Rightarrow> wired c \<and> served c = accepted reqs errs \<and>
        list_all (\<lambda>e. e = None \<or> errors_Is e (Some (ErrorPtr ErrController))) errs)"
proof -
  let ?c = "New_controller new_informer config retriever indexers"
  have "wired ?c" and "served ?c = []" by (simp_all add: New_controller_def wired_def served_def)
  with add_handlers_wired [of wq queue_of dl reqs ?c w] show ?thesis
    by (fastforce simp: list_all_iff split: prod.split outcome.split)
qed

text \<open>The length gauge of a queue with a default recorder.\<close>

lemma default_queue_registers:
  assumes "NewRateLimitedQueue wq a name fresh n (Some (default_recorder rejects r)) w = Ret (queue, w')"
  shows "len_gauge r name \<in> set (collectors w')"
  using assms
  by (auto simp: NewRateLimitedQueue_def NewMonitorQueue_def NewRetryQueue_def retry_queue_def default_recorder_def
      RegisterLen_def Let_def split: outcome.splits option.splits)

lemma registered_queue_panics:
  assumes "\<forall>cs x. x \<in> set cs \<longrightarrow> rejects cs x \<noteq> None" and "len_gauge r name \<in> set (collectors w)"
  shows "panics (NewRateLimitedQueue wq a name fresh n (Some (default_recorder rejects r)) w)"
  using assms
  by (auto simp: NewRateLimitedQueue_def NewMonitorQueue_def NewRetryQueue_def retry_queue_def default_recorder_def
      RegisterLen_def Let_def split: outcome.splits option.splits)

text \<open>
  C39. A failed \<open>AddHandler\<close> is not undone: with a default recorder, whose registry rejects
  a collector it already holds, the length gauge of the refused handler's queue stays
  registered, so adding a handler under the same name panics in every later state in which
  nothing was unregistered, whatever the handler and the filters; with the configured rate
  limiter as with the default one, as long as making the limiter and adding the event
  handler to the informer unregister no collector.
\<close>

theorem failed_add_handler_blocks_name:
  assumes "\<forall>cs x. x \<in> set cs \<longrightarrow> rejects cs x \<noteq> None"
    and "\<forall>h d w. set (collectors w) \<subseteq> set (collectors (snd (inf_AddEventHandler (c_informer c) h d w)))"
    and "limiter = (case cfg_RateLimiter (c_config c) of None \<Rightarrow> dl | Some f \<Rightarrow> f)"
    and "\<forall>w. set (collectors w) \<subseteq> set (collectors (snd (limiter w)))"
    and "AddHandler wq queue_of dl c name h (Some (default_recorder rejects r)) fs w = (Ret (Some e, c'), w')"
    and "set (collectors w') \<subseteq> set (collectors v)"
  shows "panics (fst (AddHandler wq queue_of dl c' name h' (Some (default_recorder rejects r)) fs' v))"
proof -
  let ?rec = "Some (default_recorder rejects r)"
  have c': "c' = c" using assms(5) by (cases rule: AddHandler_cases) simp_all
  from assms(5) obtain l w1 queue w3 where steps: "limiter w = (Ret l, w1)"
    "NewRateLimitedQueue wq (next_addr w1) name (queue_of l) (cfg_Retries (c_config c)) ?rec (snd (alloc w1)) = Ret (queue, w3)"
    "addHandler c name (NewResourceEventHandler h queue (cfg_Delay (c_config c)) fs) w3 = ((Some e, c'), w')"
    by (auto simp: AddHandler_def assms(3) alloc_def Let_def split: prod.splits outcome.splits option.splits)
  from steps(3) have "collectors w' = collectors (snd (inf_AddEventHandler (c_informer c)
      (NewResourceEventHandler h queue (cfg_Delay (c_config c)) fs) (cfg_Sync (c_config c)) w3))"
    by (auto simp: addHandler_def alloc_def split: prod.splits option.splits)
  moreover from assms(2) have "set (collectors w3) \<subseteq> set (collectors (snd (inf_AddEventHandler (c_informer c)
      (NewResourceEventHandler h queue (cfg_Delay (c_config c)) fs) (cfg_Sync (c_config c)) w3)))" by simp
  ultimately have v: "len_gauge r name \<in> set (collectors v)"
    using default_queue_registers [OF steps(2)] assms(6) by (metis subsetD)
  show ?thesis
  proof (cases "limiter v")
    case (Pair res v1)
    from assms(4) Pair v have "len_gauge r name \<in> set (collectors (snd (alloc v1)))"
      by (auto simp: alloc_def dest!: spec [of _ v])
    from registered_queue_panics [OF assms(1) this]
    have blocked: "\<exists>x. NewRateLimitedQueue wq (next_addr v1) name fresh n ?rec (snd (alloc v1)) = Panic x" for fresh n
      unfolding panics_iff .
    show ?thesis
    proof (cases res)
      case (Panic x)
      with Pair show ?thesis by (simp add: AddHandler_def c' assms(3) [symmetric])
    next
      case (Ret l')
      from blocked [of "queue_of l'" "cfg_Retries (c_config c)"] Pair Ret show ?thesis
        by (auto simp: AddHandler_def c' assms(3) [symmetric] alloc_def)
    qed
  qed
qed

subsection \<open>Running a controller\<close>

text \<open>
  \<open>Run\<close> of the controller calls \<open>Run\<close> of its processors one after the other; \<open>Run\<close> of a
  processor notifies the handler, starts its workers as goroutines, blocks until the
  context is done, notifies again and, deferred, shuts its queue down. \<open>run_main\<close> holds
  the steps of the goroutine executing the controller's \<open>Run\<close>, \<open>run_step\<close> adds the
  cancellation of the context and the effects of all other goroutines (\<open>others\<close>: the workers, the informer, user code)
  at any point in between. A state in which \<open>rs_index\<close> is the number of processors has
  returned; a panic of \<open>Notify\<close> leaves \<open>Run\<close> after the deferred call.
\<close>

datatype run_phase = Begin | Spawn nat | Wait | Crashed go_arg

record 's run_state =
  rs_world :: 's
  rs_done :: bool
  rs_index :: nat
  rs_phase :: run_phase
  rs_workers :: "nat list"

abbreviation current :: "'s Processor list \<Rightarrow> 's run_state \<Rightarrow> 's Processor" where
  "current ps s \<equiv> ps ! rs_index s"

inductive run_main :: "'s Processor list \<Rightarrow> 's run_state \<Rightarrow> 's run_state \<Rightarrow> bool" for ps where
  start: "rs_index s < length ps \<Longrightarrow> rs_phase s = Begin \<Longrightarrow>
    h_Notify (p_handler (current ps s)) ''starting processor'' None (rs_world s) = (Ret u, w) \<Longrightarrow>
    run_main ps s (s\<lparr>rs_world := w, rs_phase := Spawn 0\<rparr>)"
| start_panic: "rs_index s < length ps \<Longrightarrow> rs_phase s = Begin \<Longrightarrow>
    h_Notify (p_handler (current ps s)) ''starting processor'' None (rs_world s) = (Panic v, w) \<Longrightarrow>
    run_main ps s (s\<lparr>rs_world := q_ShutDown (p_queue (current ps s)) w, rs_phase := Crashed v\<rparr>)"
| spawn: "rs_phase s = Spawn n \<Longrightarrow> int n < p_workers (current ps s) \<Longrightarrow>
    run_main ps s (s\<lparr>rs_phase := Spawn (Suc n), rs_workers := rs_workers s @ [rs_index s]\<rparr>)"
| spawned: "rs_phase s = Spawn n \<Longrightarrow> \<not> int n < p_workers (current ps s) \<Longrightarrow>
    run_main ps s (s\<lparr>rs_phase := Wait\<rparr>)"
| stop: "rs_phase s = Wait \<Longrightarrow> rs_done s \<Longrightarrow>
    h_Notify (p_handler (current ps s)) ''stopping processor'' None (rs_world s) = (Ret u, w) \<Longrightarrow>
    run_main ps s (s\<lparr>rs_world := q_ShutDown (p_queue (current ps s)) w, rs_phase := Begin,
      rs_index := Suc (rs_index s)\<rparr>)"
| stop_panic: "rs_phase s = Wait \<Longrightarrow> rs_done s \<Longrightarrow>
    h_Notify (p_handler (current ps s)) ''stopping processor'' None (rs_world s) = (Panic v, w) \<Longrightarrow>
    run_main ps s (s\<lparr>rs_world := q_ShutDown (p_queue (current ps s)) w, rs_phase := Crashed v\<rparr>)"

inductive run_step :: "'s Processor list \<Rightarrow> 's run_state \<Rightarrow> 's run_state \<Rightarrow> bool" for ps where
  main: "run_main ps s t \<Longrightarrow> run_step ps s t"
| cancel: "run_step ps s (s\<lparr>rs_done := True\<rparr>)"
| others: "run_step ps s (s\<lparr>rs_world := w\<rparr>)"

definition run_start :: "'s run_state \<Rightarrow> bool" where
  "run_start s \<longleftrightarrow> rs_index s = 0 \<and> rs_phase s = Begin \<and> rs_workers s = []"

definition controller_Run :: "('l, 's) controller \<Rightarrow> 's run_state \<Rightarrow> bool" where
  "controller_Run c = reach run_start (run_step (c_processor c))"

text \<open>How many workers of processor \<open>i\<close> the code has started in a phase.\<close>

fun started_now :: "int \<Rightarrow> run_phase \<Rightarrow> nat set" where
  "started_now n Begin = {0}"
| "started_now n (Spawn k) = (if k \<le> nat n then {k} else {})"
| "started_now n Wait = {nat n}"
| "started_now n (Crashed v) = {0, nat n}"

definition run_inv :: "'s Processor list \<Rightarrow> 's run_state \<Rightarrow> bool" where
  "run_inv ps s \<longleftrightarrow> rs_index s \<le> length ps \<and> (rs_phase s \<noteq> Begin \<longrightarrow> rs_index s < length ps) \<and>
     (0 < rs_index s \<longrightarrow> rs_done s) \<and>
     (\<forall>i. if i < rs_index s then count_list (rs_workers s) i = nat (p_workers (ps ! i))
          else if i = rs_index s then count_list (rs_workers s) i \<in> started_now (p_workers (ps ! i)) (rs_phase s)
          else count_list (rs_workers s) i = 0)"

lemma count_list_snoc [simp]: "count_list (xs @ [x]) y = count_list xs y + (if x = y then 1 else 0)"
  by (induction xs) auto

lemma run_inv_current:
  "run_inv ps s \<Longrightarrow>
     count_list (rs_workers s) (rs_index s) \<in> started_now (p_workers (current ps s)) (rs_phase s)"
  unfolding run_inv_def by (metis less_irrefl)

lemma run_inv_main:
  assumes "run_inv ps s" and "run_main ps s t"
  shows "run_inv ps t"
  using assms(2,1)
proof cases
  case (spawn n)
  from run_inv_current [OF assms(1)] spawn have "count_list (rs_workers s) (rs_index s) = n" by (simp split: if_splits)
  with assms(1) spawn show ?thesis by (auto simp: run_inv_def)
next
  case (stop u w)
  have "rs_index s < length ps" and "rs_done s"
    using assms(1) stop by (auto simp: run_inv_def)
  moreover have "if i < Suc (rs_index s) then count_list (rs_workers s) i = nat (p_workers (ps ! i))
      else count_list (rs_workers s) i = 0" for i
    using assms(1) stop run_inv_current [OF assms(1)] by (auto simp: run_inv_def less_Suc_eq)
  ultimately show ?thesis using stop by (auto simp: run_inv_def)
next
  case (spawned n)
  with run_inv_current [OF assms(1)]
  have "count_list (rs_workers s) (rs_index s) = nat (p_workers (current ps s))"
    by (auto split: if_splits)
  with assms(1) spawned show ?thesis by (auto simp: run_inv_def)
qed (use run_inv_current [OF assms(1)] in \<open>auto simp: run_inv_def\<close>)

lemma run_inv_step: "run_inv ps s \<Longrightarrow> run_step ps s t \<Longrightarrow> run_inv ps t"
  by (erule run_step.cases) (auto intro: run_inv_main, auto simp: run_inv_def)

interpretation run: step_invariant run_start "run_step ps" "run_inv ps" for ps
proof
  fix s t :: "'a run_state"
  show "run_start s \<Longrightarrow> run_inv ps s" by (auto simp: run_start_def run_inv_def)
  show "run_inv ps s \<Longrightarrow> run_step ps s t \<Longrightarrow> run_inv ps t" by (rule run_inv_step)
qed

text \<open>From a cancelled state the goroutine's own steps lead to the end of \<open>Run\<close>.\<close>

lemma spawn_all:
  "rs_phase s = Spawn k \<Longrightarrow> \<exists>t. (run_main ps)\<^sup>*\<^sup>* s t \<and> rs_phase t = Wait \<and>
     rs_index t = rs_index s \<and> rs_done t = rs_done s"
proof (induction "nat (p_workers (current ps s)) - k" arbitrary: s k)
  case 0
  then have "\<not> int k < p_workers (current ps s)" by linarith
  with 0 have "run_main ps s (s\<lparr>rs_phase := Wait\<rparr>)" by (intro spawned)
  then show ?case by (intro exI [of _ "s\<lparr>rs_phase := Wait\<rparr>"]) simp
next
  case (Suc m)
  let ?t = "s\<lparr>rs_phase := Spawn (Suc k), rs_workers := rs_workers s @ [rs_index s]\<rparr>"
  from Suc have "run_main ps s ?t" by (intro spawn) simp_all
  moreover have "m = nat (p_workers (current ps ?t)) - Suc k" using Suc.hyps(2) by simp
  from Suc.hyps(1) [OF this] obtain t where "(run_main ps)\<^sup>*\<^sup>* ?t t"
    "rs_phase t = Wait" "rs_index t = rs_index s" "rs_done t = rs_done s" by auto
  ultimately show ?case by (meson converse_rtranclp_into_rtranclp)
qed

lemma main_steps: "(run_main ps)\<^sup>*\<^sup>* s t \<Longrightarrow> (run_step ps)\<^sup>*\<^sup>* s t"
  by (rule rtranclp_mono [THEN predicate2D]) (auto intro: run_step.main)

definition never_panics :: "'s handler_ops \<Rightarrow> bool" where
  "never_panics h \<longleftrightarrow> (\<forall>msg e w. \<not> panics (fst (h_Notify h msg e w)))"

lemma never_panics_Ret: "never_panics h \<Longrightarrow> \<exists>w'. h_Notify h msg e w = (Ret (), w')"
  unfolding never_panics_def by (metis (full_types) outcome.exhaust panics.simps(1) prod.collapse old.unit.exhaust)

lemma run_one:
  assumes "rs_index s < length ps" and "rs_done s" and "\<forall>v. rs_phase s \<noteq> Crashed v"
    and "never_panics (p_handler (current ps s))"
  shows "\<exists>t. (run_main ps)\<^sup>*\<^sup>* s t \<and> rs_phase t = Begin \<and> rs_index t = Suc (rs_index s) \<and> rs_done t"
proof -
  have stopped: "\<exists>t. (run_main ps)\<^sup>*\<^sup>* u t \<and> rs_phase t = Begin \<and> rs_index t = Suc (rs_index s) \<and> rs_done t"
    if "rs_phase u = Wait" "rs_index u = rs_index s" "rs_done u" for u
  proof -
    from never_panics_Ret [OF assms(4)] that(2) obtain w where
      "h_Notify (p_handler (current ps u)) ''stopping processor'' None (rs_world u) = (Ret (), w)" by metis
    from stop [OF that(1,3) this] that show ?thesis
      by (intro exI [of _ "u\<lparr>rs_world := q_ShutDown (p_queue (current ps u)) w, rs_phase := Begin,
          rs_index := Suc (rs_index u)\<rparr>"]) (simp add: r_into_rtranclp)
  qed
  have spawning: ?thesis if "(run_main ps)\<^sup>*\<^sup>* s u" "rs_phase u = Spawn k" "rs_index u = rs_index s" "rs_done u" for u k
    using spawn_all [OF that(2), of ps] stopped that by (metis rtranclp_trans)
  show ?thesis
  proof (cases "rs_phase s")
    case Begin
    from never_panics_Ret [OF assms(4)] obtain w where
      "h_Notify (p_handler (current ps s)) ''starting processor'' None (rs_world s) = (Ret (), w)" by metis
    from start [OF assms(1) Begin this] assms(2) show ?thesis
      by (intro spawning [of "s\<lparr>rs_world := w, rs_phase := Spawn 0\<rparr>" 0]) simp_all
  qed (use assms stopped spawning in auto)
qed

lemma run_rest:
  assumes "\<forall>p \<in> set ps. never_panics (p_handler p)"
  shows "rs_done s \<Longrightarrow> \<forall>v. rs_phase s \<noteq> Crashed v \<Longrightarrow> rs_index s \<le> length ps \<Longrightarrow>
    \<exists>t. (run_main ps)\<^sup>*\<^sup>* s t \<and> rs_index t = length ps"
proof (induction "length ps - rs_index s" arbitrary: s)
  case (Suc m)
  then have "rs_index s < length ps" by simp
  with run_one [OF this Suc.prems(1,2)] assms obtain u where
    "(run_main ps)\<^sup>*\<^sup>* s u" "rs_phase u = Begin" "rs_index u = Suc (rs_index s)" "rs_done u" by auto
  moreover from this Suc.hyps(1) [of u] Suc.hyps(2) \<open>rs_index s < length ps\<close> have
    "\<exists>t. (run_main ps)\<^sup>*\<^sup>* u t \<and> rs_index t = length ps" by simp
  ultimately show ?case by (meson rtranclp_trans)
qed auto

subsection \<open>Properties: running\<close>

text \<open>
  The processors run one after the other: before the context is cancelled, whatever
  else happens, only workers of the first handler's processor exist, never more than
  configured; so every later handler's queue is left without workers, and with at least
  one processor \<open>Run\<close> does not return.
\<close>

lemma only_first_processor_works:
  assumes "controller_Run c s" and "\<not> rs_done s"
  shows "rs_index s = 0 \<and> set (rs_workers s) \<subseteq> {0} \<and>
    length (rs_workers s) \<le> nat (p_workers (c_processor c ! 0))"
proof -
  from assms(1) have "run_inv (c_processor c) s"
    unfolding controller_Run_def by (rule run.reach_inv)
  with assms(2) have inv: "rs_index s = 0" "\<And>i. i \<noteq> 0 \<Longrightarrow> count_list (rs_workers s) i = 0"
    by (auto simp: run_inv_def split: if_splits)
  from \<open>run_inv (c_processor c) s\<close> have
    now: "count_list (rs_workers s) 0 \<in> started_now (p_workers (c_processor c ! 0)) (rs_phase s)"
    using run_inv_current inv(1) by metis
  from inv have sub: "set (rs_workers s) \<subseteq> {0}" by (auto simp: count_list_0_iff)
  then have "length (rs_workers s) = count_list (rs_workers s) 0"
    by (subst count_list_eq_length_filter, subst filter_True) auto
  also have "\<dots> \<le> nat (p_workers (c_processor c ! 0))"
    using now by (cases "rs_phase s") (auto split: if_splits)
  finally show ?thesis using inv(1) sub by simp
qed

text \<open>
  Cancelling the context ends \<open>Run\<close>: from every state \<open>Run\<close> can reach, cancelled and
  without a panic of a \<open>Notify\<close>, its own steps lead to its return if no \<open>Notify\<close> panics;
  by then every processor has started exactly its configured number of workers (none for a
  number below one), the later ones only after the cancellation.
\<close>

lemma run_returns_after_cancel:
  assumes "controller_Run c s" and "rs_done s" and "\<forall>v. rs_phase s \<noteq> Crashed v"
    and "\<forall>p \<in> set (c_processor c). never_panics (p_handler p)"
  shows "\<exists>t. (run_step (c_processor c))\<^sup>*\<^sup>* s t \<and> rs_index t = length (c_processor c) \<and>
    (\<forall>i < length (c_processor c). count_list (rs_workers t) i = nat (p_workers (c_processor c ! i)))"
proof -
  from assms(1) have inv: "run_inv (c_processor c) s"
    unfolding controller_Run_def by (rule run.reach_inv)
  then have "rs_index s \<le> length (c_processor c)" by (simp add: run_inv_def)
  from run_rest [OF assms(4,2,3) this] obtain t where t: "(run_step (c_processor c))\<^sup>*\<^sup>* s t"
    "rs_index t = length (c_processor c)" by (blast intro: main_steps)
  from run.steps_inv [OF t(1) inv] t(2) have
    "\<forall>i < length (c_processor c). count_list (rs_workers t) i = nat (p_workers (c_processor c ! i))"
    unfolding run_inv_def by metis
  with t show ?thesis by blast
qed

subsection \<open>Witnesses\<close>

definition example_owned :: any where
  "example_owned = Value ''*v1.Pod'' True
     (Some (Some ((example_meta ''b'' ''1'')\<lparr>meta_owners := [\<lparr>oref_uid = ''u1'', oref_name = ''set''\<rparr>]\<rparr>))) 0"

text \<open>A cache with the uid index only.\<close>

definition owner_cache :: indexer where
  "owner_cache =
     \<lparr>GetByKey = (\<lambda>key. (Nil_any, False, None)),
      ByIndex = (\<lambda>name v. if name = IndexOwnerUID
         then Inr (filter (indexed_under OwnerUIDIndexFunc v) [example_pod ''a'' ''1'', example_owned])
         else Inl (ErrorString 90 ''no index'')),
      List_all = [example_pod ''a'' ''1'', example_owned]\<rparr>"

definition example_informer :: "err option \<Rightarrow> (example_queue, string) kube_world informer_ops" where
  "example_informer refused =
     \<lparr>inf_GetIndexer = (\<lambda>_. owner_cache), inf_SetTransform = (\<lambda>_ w. (None, w)),
      inf_AddEventHandler = (\<lambda>_ _ w. (refused, w)), inf_Run = (\<lambda>w. w),
      inf_WaitForCacheSync = (\<lambda>w. Some (True, w))\<rparr>"

definition example_Config :: "(example_queue, (example_queue, string) kube_world) Config" where
  "example_Config =
     \<lparr>cfg_Name = ''pods'', cfg_Workers = 2, cfg_Sync = 0, cfg_Retries = 1, cfg_Delay = NewDelay 0 0,
      cfg_RateLimiter = Some (\<lambda>w. (Ret ([], \<lambda>_. 0, False), w))\<rparr>"

definition example_controller ::
  "err option \<Rightarrow> (example_queue, (example_queue, string) kube_world) controller" where
  "example_controller refused =
     \<lparr>c_config = example_Config, c_informer = example_informer refused, c_handler = [],
      c_processor = [example_processor works, example_processor fails]\<rparr>"

lemma example_controller_simps [simp]:
  "inf_GetIndexer (c_informer (example_controller e)) w = owner_cache"
  "c_processor (example_controller e) = [example_processor works, example_processor fails]"
  by (simp_all add: example_controller_def example_informer_def)

lemma owner_cache_registered: "registered owner_cache IndexOwnerUID OwnerUIDIndexFunc"
  by (simp add: registered_def owner_cache_def)

lemma owner_cache_unregistered: "unregistered owner_cache IndexOwnerName"
  by (simp add: unregistered_def owner_cache_def IndexOwnerUID_def IndexOwnerName_def)

lemma owner_cache_meta: "\<forall>obj \<in> set (List_all owner_cache). as_accessor obj \<noteq> Some None"
  by (simp add: owner_cache_def example_owned_def)

theorem list_is_index_independent_witness:
  "\<exists>xs w'. controller_List (\<lambda>_. True) False (example_controller None) [] [] ''u1'' (example_kube [] False) = (Ret xs, w') \<and>
     mset xs = {#example_owned#}"
  using list_is_index_independent [of "example_controller None" "example_kube [] False" "\<lambda>_. True" False "[]" "[]" "''u1''"]
    owner_cache_registered owner_cache_unregistered owner_cache_meta
  by (simp add: owned_by_def) (simp add: owner_cache_def example_owned_def)

lemma list_by_index_agrees_witness:
  "fst (controller_List (\<lambda>_. True) False (example_controller None) [] [] ''u1'' (example_kube [] False)) =
     Ret (controller_ListByIndex (\<lambda>_. True) (example_controller None) ''owner-uid'' ''u1'' (example_kube [] False))"
  using list_by_index_agrees [of "example_controller None" "example_kube [] False" "''u1''" IndexOwnerName "\<lambda>_. True" False]
    owner_cache_registered owner_cache_unregistered owner_cache_meta
  by (simp add: IndexOwnerUID_def)

definition registry :: registerer where
  "registry cs c = (if c \<in> set cs then Some (ErrorString 94 ''already registered'') else None)"

text \<open>With the default rate limiter.\<close>

abbreviation stopped_controller :: "(example_queue, (example_queue, string) kube_world) controller" where
  "stopped_controller \<equiv> example_controller (Some (ErrorString 93 ''stopped''))
     \<lparr>c_config := (c_config (example_controller None))\<lparr>cfg_RateLimiter := None\<rparr>\<rparr>"

theorem failed_add_handler_blocks_name_witness:
  "\<exists>w'. panics (fst (AddHandler example_wq (\<lambda>l. l) (\<lambda>w. (Ret ([], \<lambda>_. 0, False), w)) stopped_controller ''main''
     (example_handler works) (Some (default_recorder registry example_recorder)) [] w'))"
proof -
  let ?add = "AddHandler example_wq (\<lambda>l. l) (\<lambda>w. (Ret ([], \<lambda>_. 0, False), w)) stopped_controller ''main''
     (example_handler fails) (Some (default_recorder registry example_recorder)) [] (example_kube [] False)"
  have "\<exists>e w'. ?add = (Ret (Some e, stopped_controller), w')"
    by (simp add: AddHandler_def NewRateLimitedQueue_def NewMonitorQueue_def NewRetryQueue_def retry_queue_def
        addHandler_def default_recorder_def RegisterLen_def registry_def example_kube_def on_wq_def alloc_def Let_def
        example_controller_def example_informer_def example_Config_def)
  then obtain e w' where "?add = (Ret (Some e, stopped_controller), w')" by blast
  from failed_add_handler_blocks_name [OF _ _ refl _ this subset_refl] show ?thesis
    by (auto simp: registry_def example_controller_def example_informer_def example_Config_def)
qed

definition example_run :: "bool \<Rightarrow> (example_queue, string) kube_world run_state" where
  "example_run cancelled =
     \<lparr>rs_world = example_kube [] False, rs_done = cancelled, rs_index = 0, rs_phase = Begin, rs_workers = []\<rparr>"

lemma example_run_start: "controller_Run (example_controller None) (example_run b)"
  by (simp add: controller_Run_def reach_start run_start_def example_run_def)

lemma only_first_processor_works_witness:
  "\<exists>s. controller_Run (example_controller None) s \<and> rs_phase s = Wait \<and> set (rs_workers s) \<subseteq> {0}"
proof -
  let ?ps = "[example_processor works, example_processor fails]"
  obtain w where hello: "h_Notify (p_handler (?ps ! 0)) ''starting processor'' None (example_kube [] False) = (Ret (), w)"
    by (simp add: example_handler_def NewHandler_def handler_Notify_def New_def Error_Error_def)
  let ?s = "(example_run False)\<lparr>rs_world := w, rs_phase := Spawn 0\<rparr>"
  have "run_step ?ps (example_run False) ?s"
    using start [of "example_run False" ?ps "()" w, THEN run_step.main] hello by (simp add: example_run_def)
  moreover obtain t where t: "(run_step ?ps)\<^sup>*\<^sup>* ?s t" "rs_phase t = Wait" "rs_done t = rs_done ?s"
    using spawn_all [of ?s 0 ?ps] by (auto intro: main_steps)
  ultimately have run: "controller_Run (example_controller None) t"
    using example_run_start [of False] unfolding controller_Run_def
    by (auto intro: reach_steps reach_step)
  moreover have "\<not> rs_done t" using t(3) by (simp add: example_run_def)
  from only_first_processor_works [OF run this] have "set (rs_workers t) \<subseteq> {0}" by blast
  ultimately show ?thesis using t(2) by blast
qed

lemma example_never_panics: "never_panics (example_handler h)"
  by (simp add: never_panics_def example_handler_def NewHandler_def handler_Notify_named Error_Error_def New_def)

lemma run_returns_after_cancel_witness:
  "\<exists>t. (run_step [example_processor works, example_processor fails])\<^sup>*\<^sup>* (example_run True) t \<and> rs_index t = 2"
  using run_returns_after_cancel [OF example_run_start [of True]] example_never_panics
  by (auto simp: example_run_def)

end
