(* ===== verification/Workers.thy ===== *)
theory Workers
  imports Processors
begin

section \<open>The workers of a processor: \<open>Run\<close> of \<open>controller/processor.go\<close>\<close>

text \<open>
  \<open>Processor.Run\<close> starts its workers as \<open>go wait.Until(Process, time.Second, ctx.Done())\<close>.
  They share the queue with each other and with the event handlers. Here \<open>process\<close> is cut
  into the pieces between which other goroutines can run (\<open>Get\<close>, \<open>handle\<close> up to the return
  of the user's handler, the rest of \<open>handle\<close>, and the end with \<open>Forget\<close>, the recorder and
  the deferred \<open>Done\<close>), and the goroutines are a step relation. \<open>wait.Until\<close> looks at the context before each call, calls again after a pause
  and lets a panic of its function through, which ends the program. The steps keep a
  history, newest event first, which no step reads: the properties are about it.
\<close>

subsection \<open>The pieces of \<open>process\<close>\<close>

definition process_begin :: "'z go_world_scheme Processor \<Rightarrow> 'z go_world_scheme \<Rightarrow> time" where
  "process_begin p w = (case p_recorder p of None \<Rightarrow> 0 | Some _ \<Rightarrow> now w)"

definition process_end ::
  "'s Processor \<Rightarrow> string \<Rightarrow> time \<Rightarrow> err option \<Rightarrow> 's \<Rightarrow> 's" where
  "process_end p key start err w =
     (let w1 = (if err = None then q_Forget (p_queue p) key w else w);
          w2 = (case p_recorder p of
                  None \<Rightarrow> w1
                | Some r \<Rightarrow> rec_DoneEvent r (q_Name (p_queue p)) (err = None) start w1)
      in q_Done (p_queue p) key w2)"

text \<open>Run without interruption, the pieces are \<open>process\<close>.\<close>

lemma process_pieces:
  "Processor_process p w =
     (case q_Get (p_queue p) w of
        None \<Rightarrow> None
      | Some ((key, exit), w1) \<Rightarrow>
          if exit then Some (Ret True, w1)
          else case handle_call p key w1 of
            (c, w2) \<Rightarrow>
              (case handle_rest p key c w2 of
                 (Panic v, w3) \<Rightarrow> Some (Panic v, q_Done (p_queue p) key w3)
               | (Ret err, w3) \<Rightarrow> Some (Ret False, process_end p key (process_begin p w) err w3)))"
  by (cases "p_recorder p")
    (auto simp: Processor_process_def process_begin_def process_end_def Let_def handle_pieces
      split: option.split prod.split outcome.split)

subsection \<open>The goroutines\<close>

datatype worker =
    Resting
  | Looping
  | Getting time
  | Handling string time
  | Following string time called
  | Finishing string time "err option"
  | Exited

datatype pool_event =
    Enqueued string
  | Started nat string
  | Handled nat string bool
  | Finished nat string bool

record 's pool =
  pl_world :: 's
  pl_workers :: "worker list"
  pl_done :: bool
  pl_crash :: "go_arg option"
  pl_hist :: "pool_event list"

text \<open>The steps of worker \<open>i\<close>.\<close>

inductive worker_step ::
  "'z go_world_scheme Processor \<Rightarrow> nat \<Rightarrow> 'z go_world_scheme pool \<Rightarrow> 'z go_world_scheme pool \<Rightarrow> bool"
  for p i where
  enter: "i < length (pl_workers s) \<Longrightarrow> pl_workers s ! i = Resting \<Longrightarrow> \<not> pl_done s \<Longrightarrow>
    worker_step p i s (s\<lparr>pl_workers := (pl_workers s)[i := Looping]\<rparr>)"
| leave: "i < length (pl_workers s) \<Longrightarrow> pl_workers s ! i = Resting \<Longrightarrow> pl_done s \<Longrightarrow>
    worker_step p i s (s\<lparr>pl_workers := (pl_workers s)[i := Exited]\<rparr>)"
| begin_process: "i < length (pl_workers s) \<Longrightarrow> pl_workers s ! i = Looping \<Longrightarrow>
    worker_step p i s (s\<lparr>pl_workers := (pl_workers s)[i := Getting (process_begin p (pl_world s))]\<rparr>)"
| get: "i < length (pl_workers s) \<Longrightarrow> pl_workers s ! i = Getting start \<Longrightarrow>
    q_Get (p_queue p) (pl_world s) = Some ((key, False), w) \<Longrightarrow>
    worker_step p i s (s\<lparr>pl_world := w, pl_workers := (pl_workers s)[i := Handling key start],
      pl_hist := Started i key # pl_hist s\<rparr>)"
| get_exit: "i < length (pl_workers s) \<Longrightarrow> pl_workers s ! i = Getting start \<Longrightarrow>
    q_Get (p_queue p) (pl_world s) = Some ((key, True), w) \<Longrightarrow>
    worker_step p i s (s\<lparr>pl_world := w, pl_workers := (pl_workers s)[i := Resting]\<rparr>)"
| call: "i < length (pl_workers s) \<Longrightarrow> pl_workers s ! i = Handling key start \<Longrightarrow>
    handle_call p key (pl_world s) = (c, w) \<Longrightarrow>
    worker_step p i s (s\<lparr>pl_world := w, pl_workers := (pl_workers s)[i := Following key start c]\<rparr>)"
| follow: "i < length (pl_workers s) \<Longrightarrow> pl_workers s ! i = Following key start c \<Longrightarrow>
    handle_rest p key c (pl_world s) = (Ret err, w) \<Longrightarrow>
    worker_step p i s (s\<lparr>pl_world := w, pl_workers := (pl_workers s)[i := Finishing key start err],
      pl_hist := Handled i key (call_failed c) # pl_hist s\<rparr>)"
| follow_panic: "i < length (pl_workers s) \<Longrightarrow> pl_workers s ! i = Following key start c \<Longrightarrow>
    handle_rest p key c (pl_world s) = (Panic v, w) \<Longrightarrow>
    worker_step p i s (s\<lparr>pl_world := q_Done (p_queue p) key w, pl_workers := (pl_workers s)[i := Exited],
      pl_crash := Some v, pl_hist := Finished i key False # Handled i key (call_failed c) # pl_hist s\<rparr>)"
| finish: "i < length (pl_workers s) \<Longrightarrow> pl_workers s ! i = Finishing key start err \<Longrightarrow>
    worker_step p i s (s\<lparr>pl_world := process_end p key start err (pl_world s),
      pl_workers := (pl_workers s)[i := Looping], pl_hist := Finished i key (err = None) # pl_hist s\<rparr>)"

text \<open>
  The steps of the pool: of its workers, of the event handlers (\<open>add\<close>, \<open>add_after\<close>), of
  \<open>Run\<close> (\<open>shutdown\<close>, deferred to its end) and of the rest of the program (\<open>cancel\<close>,
  \<open>crash\<close> of another goroutine, \<open>others\<close>, within what the relation \<open>env\<close> allows). A
  program that crashed does no step.
\<close>

inductive pool_step ::
  "('z go_world_scheme \<Rightarrow> 'z go_world_scheme \<Rightarrow> bool) \<Rightarrow> 'z go_world_scheme Processor
     \<Rightarrow> 'z go_world_scheme pool \<Rightarrow> 'z go_world_scheme pool \<Rightarrow> bool"
  for env p where
  worker: "pl_crash s = None \<Longrightarrow> worker_step p i s t \<Longrightarrow> pool_step env p s t"
| add: "pl_crash s = None \<Longrightarrow>
    pool_step env p s (s\<lparr>pl_world := q_Add (p_queue p) key (pl_world s), pl_hist := Enqueued key # pl_hist s\<rparr>)"
| add_after: "pl_crash s = None \<Longrightarrow>
    pool_step env p s (s\<lparr>pl_world := q_AddAfter (p_queue p) key delay (pl_world s),
      pl_hist := Enqueued key # pl_hist s\<rparr>)"
| cancel: "pl_crash s = None \<Longrightarrow> pool_step env p s (s\<lparr>pl_done := True\<rparr>)"
| shutdown: "pl_crash s = None \<Longrightarrow>
    pool_step env p s (s\<lparr>pl_world := q_ShutDown (p_queue p) (pl_world s)\<rparr>)"
| crash: "pl_crash s = None \<Longrightarrow> pool_step env p s (s\<lparr>pl_crash := Some v\<rparr>)"
| others: "pl_crash s = None \<Longrightarrow> env (pl_world s) w \<Longrightarrow> pool_step env p s (s\<lparr>pl_world := w\<rparr>)"

definition pool_start :: "'s Processor \<Rightarrow> 's \<Rightarrow> 's pool \<Rightarrow> bool" where
  "pool_start p w s \<longleftrightarrow> pl_world s = w \<and> pl_workers s = replicate (nat (p_workers p)) Resting \<and>
     \<not> pl_done s \<and> pl_crash s = None \<and> pl_hist s = []"

definition worker_pool ::
  "('z go_world_scheme \<Rightarrow> 'z go_world_scheme \<Rightarrow> bool) \<Rightarrow> 'z go_world_scheme Processor
     \<Rightarrow> 'z go_world_scheme \<Rightarrow> 'z go_world_scheme pool \<Rightarrow> bool" where
  "worker_pool env p w = reach (pool_start p w) (pool_step env p)"

text \<open>The item a worker has in hand.\<close>

fun in_hand :: "worker \<Rightarrow> string option" where
  "in_hand (Handling key _) = Some key"
| "in_hand (Following key _ _) = Some key"
| "in_hand (Finishing key _ _) = Some key"
| "in_hand _ = None"

subsection \<open>What client-go documents of its queue\<close>

text \<open>
  An abstract view of a queue: the items waiting to be handed out (delayed ones included),
  the items handed out and not yet done, and whether it is shut down. An item that is added
  waits from then on unless the queue is shut down; \<open>Get\<close> hands out a waiting item that is
  not being processed; \<open>Done\<close> ends the processing. Shutting down may drop waiting items.
\<close>

record wq_view =
  v_pend :: "string set"
  v_proc :: "string set"
  v_shut :: bool

definition adds :: "string \<Rightarrow> wq_view \<Rightarrow> wq_view \<Rightarrow> bool" where
  "adds key v v' \<longleftrightarrow> v_proc v' = v_proc v \<and> v_shut v' = v_shut v \<and> v_pend v \<subseteq> v_pend v' \<and>
     (v_shut v \<or> key \<in> v_pend v')"

definition hands_out :: "string \<Rightarrow> wq_view \<Rightarrow> wq_view \<Rightarrow> bool" where
  "hands_out key v v' \<longleftrightarrow> key \<in> v_pend v \<and> key \<notin> v_proc v \<and> v_proc v' = insert key (v_proc v) \<and>
     v_shut v' = v_shut v \<and> v_pend v - {key} \<subseteq> v_pend v'"

definition workqueue_laws :: "('q, string) wq_ops \<Rightarrow> ('q \<Rightarrow> wq_view) \<Rightarrow> bool" where
  "workqueue_laws wq view \<longleftrightarrow>
     (\<forall>k q. adds k (view q) (view (wq_Add wq k q))) \<and>
     (\<forall>t k d q. adds k (view q) (view (wq_AddAfter wq t k d q))) \<and>
     (\<forall>t k q. adds k (view q) (view (wq_AddRateLimited wq t k q))) \<and>
     (\<forall>k q. view (wq_Forget wq k q) = view q) \<and>
     (\<forall>k q. view (wq_Done wq k q) = (view q)\<lparr>v_proc := v_proc (view q) - {k}\<rparr>) \<and>
     (\<forall>q. v_proc (view (wq_ShutDown wq q)) = v_proc (view q) \<and> v_shut (view (wq_ShutDown wq q))) \<and>
     (\<forall>t q k exit n q'. wq_Get wq t q = Some ((k, exit), n, q') \<longrightarrow>
        (if exit then view q' = view q else hands_out k (view q) (view q')))"

lemma workqueue_lawsD:
  assumes "workqueue_laws wq view"
  shows "adds k (view q) (view (wq_Add wq k q))" "adds k (view q) (view (wq_AddAfter wq t k d q))"
    "adds k (view q) (view (wq_AddRateLimited wq t k q))" "view (wq_Forget wq k q) = view q"
    "view (wq_Done wq k q) = (view q)\<lparr>v_proc := v_proc (view q) - {k}\<rparr>"
    "v_proc (view (wq_ShutDown wq q)) = v_proc (view q)" "v_shut (view (wq_ShutDown wq q))"
    "wq_Get wq t q = Some ((k, True), n, q') \<Longrightarrow> view q' = view q"
    "wq_Get wq t q = Some ((k, False), n, q') \<Longrightarrow> hands_out k (view q) (view q')"
proof -
  from assms have get: "wq_Get wq t q = Some ((k, exit), n, q') \<Longrightarrow>
      if exit then view q' = view q else hands_out k (view q) (view q')" for exit
    unfolding workqueue_laws_def by blast
  from get [of True] get [of False]
  show "wq_Get wq t q = Some ((k, True), n, q') \<Longrightarrow> view q' = view q"
    "wq_Get wq t q = Some ((k, False), n, q') \<Longrightarrow> hands_out k (view q) (view q')" by simp_all
qed (use assms in \<open>simp_all add: workqueue_laws_def\<close>)

text \<open>
  The handler and the rest of the program leave the queue alone: what they do to the state
  changes neither its view nor the requeue counts.
\<close>

definition same_queue ::
  "('q, string) wq_ops \<Rightarrow> ('q \<Rightarrow> wq_view) \<Rightarrow> addr \<Rightarrow>
     ('q, string, 'z) queue_world_scheme \<Rightarrow> ('q, string, 'z) queue_world_scheme \<Rightarrow> bool" where
  "same_queue wq view a w w' \<longleftrightarrow> view (wqs w' a) = view (wqs w a) \<and>
     (\<forall>k. wq_NumRequeues wq k (wqs w' a) = wq_NumRequeues wq k (wqs w a))"

definition leaves_queue ::
  "('q, string) wq_ops \<Rightarrow> ('q \<Rightarrow> wq_view) \<Rightarrow> addr \<Rightarrow>
     ('q, string, 'z) queue_world_scheme handler_ops \<Rightarrow> bool" where
  "leaves_queue wq view a h \<longleftrightarrow>
     (\<forall>obj w. same_queue wq view a w (snd (h_Handle h obj w))) \<and>
     (\<forall>k e w. same_queue wq view a w (snd (h_Notify h k e w)))"

lemma same_queue_refl [simp, intro]: "same_queue wq view a w w"
  by (simp add: same_queue_def)

lemma same_queue_trans [trans]:
  "same_queue wq view a u v \<Longrightarrow> same_queue wq view a v w \<Longrightarrow> same_queue wq view a u w"
  by (simp add: same_queue_def)

lemma same_queue_wqs: "wqs w' = wqs w \<Longrightarrow> same_queue wq view a w w'"
  by (simp add: same_queue_def)

subsection \<open>What the processor does to the queue\<close>

lemma built_wqs:
  fixes w :: "('q, 'k, 'z) queue_world_scheme"
  shows
  "wqs (q_Add (built_queue wq q (default_recorder_opt rejects dr)) k w) =
     (wqs w)(rq_queue q := wq_Add wq k (wqs w (rq_queue q)))"
  "wqs (q_AddAfter (built_queue wq q (default_recorder_opt rejects dr)) k d w) =
     (wqs w)(rq_queue q := wq_AddAfter wq (now w) k d (wqs w (rq_queue q)))"
  "wqs (snd (q_Requeue (built_queue wq q (default_recorder_opt rejects dr)) k w)) =
     (wqs w)(rq_queue q := if rq_retries q < 0 \<or> fails_of wq q w k < rq_retries q
        then wq_AddRateLimited wq (now w) k (wqs w (rq_queue q)) else wq_Forget wq k (wqs w (rq_queue q)))"
  "wqs (q_Forget (built_queue wq q (default_recorder_opt rejects dr)) k w) =
     (wqs w)(rq_queue q := wq_Forget wq k (wqs w (rq_queue q)))"
  "wqs (q_Done (built_queue wq q (default_recorder_opt rejects dr)) k w) =
     (wqs w)(rq_queue q := wq_Done wq k (wqs w (rq_queue q)))"
  "wqs (q_ShutDown (built_queue wq q (default_recorder_opt rejects dr)) w) =
     (wqs w)(rq_queue q := wq_ShutDown wq (wqs w (rq_queue q)))"
  using built_do_transparent [of wq q rejects dr "CAdd k" w] built_do_transparent [of wq q rejects dr "CAddAfter k d" w]
    built_do_transparent [of wq q rejects dr "CRequeue k" w] built_do_transparent [of wq q rejects dr "CForget k" w]
    built_do_transparent [of wq q rejects dr "CDone k" w] built_do_transparent [of wq q rejects dr CShutDown w]
  by (simp_all add: same_wq_def retry_defs fails_of_def)

text \<open>The queue seen from outside: nothing but additions, and given requeue counts.\<close>

definition grown ::
  "('q, string) wq_ops \<Rightarrow> ('q \<Rightarrow> wq_view) \<Rightarrow> addr \<Rightarrow> wq_view \<Rightarrow> (string \<Rightarrow> int) \<Rightarrow>
     ('q, string, 'z) queue_world_scheme \<Rightarrow> bool" where
  "grown wq view a v C w \<longleftrightarrow> v_proc (view (wqs w a)) = v_proc v \<and> v_shut (view (wqs w a)) = v_shut v \<and>
     v_pend v \<subseteq> v_pend (view (wqs w a)) \<and> (\<forall>k. wq_NumRequeues wq k (wqs w a) = C k)"

lemma grown_same_queue: "grown wq view a v C w \<Longrightarrow> same_queue wq view a w w' \<Longrightarrow> grown wq view a v C w'"
  by (simp add: grown_def same_queue_def)

lemma requeue_lawsD:
  assumes "requeue_laws wq"
  shows "wq_NumRequeues wq k' (wq_AddRateLimited wq t k q) = wq_NumRequeues wq k' q + (if k' = k then 1 else 0)"
    "wq_NumRequeues wq k' (wq_Forget wq k q) = (if k' = k then 0 else wq_NumRequeues wq k' q)"
    "wq_NumRequeues wq k' (wq_Add wq k q) = wq_NumRequeues wq k' q"
    "wq_NumRequeues wq k' (wq_AddAfter wq t k d q) = wq_NumRequeues wq k' q"
    "wq_NumRequeues wq k' (wq_Done wq k q) = wq_NumRequeues wq k' q"
    "wq_NumRequeues wq k' (wq_ShutDown wq q) = wq_NumRequeues wq k' q"
    "wq_Get wq t q = Some (r, n, q') \<Longrightarrow> wq_NumRequeues wq k' q' = wq_NumRequeues wq k' q"
proof -
  show "wq_Get wq t q = Some (r, n, q') \<Longrightarrow> wq_NumRequeues wq k' q' = wq_NumRequeues wq k' q"
    using assms unfolding requeue_laws_def by blast
qed (use assms in \<open>simp_all add: requeue_laws_def\<close>)

lemma call_same_queue:
  assumes "leaves_queue wq view a (p_handler p)"
  shows "same_queue wq view a w (snd (handle_call p key w))"
proof (rule call_invariant [where I = "same_queue wq view a w"])
  fix v assume v: "same_queue wq view a w v"
  show "same_queue wq view a w (snd (alloc v))" using v by (simp add: same_queue_def alloc_def)
qed (use assms in \<open>auto simp: leaves_queue_def intro: same_queue_trans\<close>)

lemma rest_grows:
  fixes w :: "('q, string, 'z) queue_world_scheme"
  assumes laws: "workqueue_laws wq view" "requeue_laws wq"
    and p: "p_queue p = built_queue wq q (default_recorder_opt rejects dr)"
    and leaves: "leaves_queue wq view (rq_queue q) (p_handler p)"
  shows "grown wq view (rq_queue q) (view (wqs w (rq_queue q)))
    (if call_failed c then retry_spec (rq_retries q) (CRequeue key) (fails_of wq q w) else fails_of wq q w)
    (snd (handle_rest p key c w))"
proof -
  let ?a = "rq_queue q"
  let ?v = "view (wqs w ?a)"
  note laws = workqueue_lawsD [OF laws(1)] requeue_lawsD [OF laws(2)]
  have alloc: "grown wq view ?a ?v C (snd (alloc u))" if "grown wq view ?a ?v C u"
    for C and u :: "('q, string, 'z) queue_world_scheme"
    using that by (rule grown_same_queue) (simp add: same_queue_def alloc_def)
  have notify: "grown wq view ?a ?v C (snd (h_Notify (p_handler p) k e u))" if "grown wq view ?a ?v C u" for C k e u
    using that by (rule grown_same_queue) (use leaves in \<open>simp add: leaves_queue_def\<close>)
  have start: "grown wq view ?a ?v (fails_of wq q w) w" by (simp add: grown_def fails_of_def)
  show ?thesis
  proof (cases "call_failed c")
    case True
    have requeue: "grown wq view ?a ?v (retry_spec (rq_retries q) (CRequeue key) (fails_of wq q w))
        (snd (q_Requeue (p_queue p) key u))" if "grown wq view ?a ?v (fails_of wq q w) u" for u
      using that laws(3) [of key "wqs u ?a" "now u"]
      by (auto simp: grown_def p built_wqs adds_def laws fails_of_def)
    from rest_failed [where I = "grown wq view ?a ?v (fails_of wq q w)", OF True alloc alloc requeue notify start] True
    show ?thesis by simp
  next
    case False
    have add_after: "grown wq view ?a ?v C (q_AddAfter (p_queue p) k d u)" if "grown wq view ?a ?v C u" for C k d u
      using that laws(2) [of k "wqs u ?a" "now u" d] by (auto simp: grown_def p built_wqs adds_def laws)
    have "grown wq view ?a ?v (fails_of wq q w) (snd (handle_rest p key c w))"
      by (rule rest_invariant [where I = "grown wq view ?a ?v (fails_of wq q w)"])
        (use False in \<open>simp_all add: alloc notify add_after start\<close>)
    with False show ?thesis by simp
  qed
qed

subsection \<open>The abstract specification\<close>

text \<open>
  The life of the items: enqueued, taken by a worker, worked on, given back. The
  specification keeps the view of the queue, the requeue count of each item, the item each
  worker has in hand, and the history.
\<close>

record item_spec =
  sp_view :: wq_view
  sp_count :: "string \<Rightarrow> int"
  sp_hand :: "string option list"
  sp_hist :: "pool_event list"

inductive spec_step :: "int \<Rightarrow> item_spec \<Rightarrow> item_spec \<Rightarrow> bool" for retries where
  take: "i < length (sp_hand s) \<Longrightarrow> sp_hand s ! i = None \<Longrightarrow> hands_out k (sp_view s) v \<Longrightarrow>
    spec_step retries s (s\<lparr>sp_view := v, sp_hand := (sp_hand s)[i := Some k], sp_hist := Started i k # sp_hist s\<rparr>)"
| work: "i < length (sp_hand s) \<Longrightarrow> sp_hand s ! i = Some k \<Longrightarrow> v_proc v = v_proc (sp_view s) \<Longrightarrow>
    v_shut v = v_shut (sp_view s) \<Longrightarrow> v_pend (sp_view s) \<subseteq> v_pend v \<Longrightarrow>
    spec_step retries s (s\<lparr>sp_view := v,
      sp_count := (if failed then retry_spec retries (CRequeue k) (sp_count s) else sp_count s),
      sp_hist := Handled i k failed # sp_hist s\<rparr>)"
| give_back: "i < length (sp_hand s) \<Longrightarrow> sp_hand s ! i = Some k \<Longrightarrow>
    spec_step retries s (s\<lparr>sp_view := (sp_view s)\<lparr>v_proc := v_proc (sp_view s) - {k}\<rparr>,
      sp_count := (if ok then (sp_count s)(k := 0) else sp_count s),
      sp_hand := (sp_hand s)[i := None], sp_hist := Finished i k ok # sp_hist s\<rparr>)"
| enqueued: "adds k (sp_view s) v \<Longrightarrow>
    spec_step retries s (s\<lparr>sp_view := v, sp_hist := Enqueued k # sp_hist s\<rparr>)"
| close: "v_proc v = v_proc (sp_view s) \<Longrightarrow> v_shut v \<Longrightarrow> spec_step retries s (s\<lparr>sp_view := v\<rparr>)"

definition spec_start :: "item_spec \<Rightarrow> bool" where
  "spec_start s \<longleftrightarrow> set (sp_hand s) \<subseteq> {None} \<and> sp_count s = (\<lambda>_. 0) \<and> sp_hist s = []"

text \<open>What the history tells.\<close>

fun unseen :: "pool_event list \<Rightarrow> string set" where
  "unseen [] = {}"
| "unseen (Enqueued k # h) = insert k (unseen h)"
| "unseen (Started i k # h) = unseen h - {k}"
| "unseen (Handled i k failed # h) = unseen h"
| "unseen (Finished i k ok # h) = unseen h"

fun failures :: "pool_event list \<Rightarrow> string \<Rightarrow> nat" where
  "failures [] k = 0"
| "failures (Handled i k' failed # h) k = (if failed \<and> k' = k then Suc (failures h k) else failures h k)"
| "failures (Finished i k' ok # h) k = (if ok \<and> k' = k then 0 else failures h k)"
| "failures (e # h) k = failures h k"

fun budget :: "int \<Rightarrow> pool_event list \<Rightarrow> string \<Rightarrow> int" where
  "budget r [] = (\<lambda>_. 0)"
| "budget r (Handled i k failed # h) =
     (if failed then retry_spec r (CRequeue k) (budget r h) else budget r h)"
| "budget r (Finished i k ok # h) = (if ok then (budget r h)(k := 0) else budget r h)"
| "budget r (e # h) = budget r h"

lemma budget_failures: "0 \<le> r \<Longrightarrow> budget r h k = int (failures h k) mod (r + 1)"
proof (induction h)
  case (Cons e h)
  then show ?case using mod_Suc_cases [of r "failures h k"] by (cases e) auto
qed simp

text \<open>The invariant: an item in hand is being processed and in one hand only; nothing is lost.\<close>

definition spec_inv :: "int \<Rightarrow> item_spec \<Rightarrow> bool" where
  "spec_inv retries s \<longleftrightarrow>
     (\<forall>i < length (sp_hand s). \<forall>k. sp_hand s ! i = Some k \<longrightarrow> k \<in> v_proc (sp_view s)) \<and>
     (\<forall>i < length (sp_hand s). \<forall>j < length (sp_hand s). \<forall>k.
        sp_hand s ! i = Some k \<longrightarrow> sp_hand s ! j = Some k \<longrightarrow> i = j) \<and>
     (v_shut (sp_view s) \<or> unseen (sp_hist s) \<subseteq> v_pend (sp_view s)) \<and>
     sp_count s = budget retries (sp_hist s)"

lemma spec_inv_step:
  assumes "spec_inv retries s" and "spec_step retries s t"
  shows "spec_inv retries t"
  using assms(2)
proof cases
  case (take i k v)
  with assms(1) show ?thesis
    by (auto simp: spec_inv_def hands_out_def nth_list_update split: if_splits)
next
  case (work i k v failed)
  with assms(1) show ?thesis by (auto simp: spec_inv_def)
next
  case (give_back i k ok)
  with assms(1) show ?thesis by (auto simp: spec_inv_def nth_list_update split: if_splits)
next
  case (enqueued k v)
  with assms(1) show ?thesis by (auto simp: spec_inv_def adds_def)
next
  case (close v)
  with assms(1) show ?thesis by (auto simp: spec_inv_def)
qed

interpretation items: step_invariant spec_start "spec_step retries" "spec_inv retries" for retries
proof
  fix s t
  show "spec_start s \<Longrightarrow> spec_inv retries s"
    by (auto simp: spec_start_def spec_inv_def dest: nth_mem)
  show "spec_inv retries s \<Longrightarrow> spec_step retries s t \<Longrightarrow> spec_inv retries t"
    by (rule spec_inv_step)
qed

subsection \<open>The refinement\<close>

definition pool_abs ::
  "('q, string) wq_ops \<Rightarrow> ('q \<Rightarrow> wq_view) \<Rightarrow> RetryQueue \<Rightarrow> ('q, string, 'z) queue_world_scheme pool \<Rightarrow> item_spec" where
  "pool_abs wq view q s =
     \<lparr>sp_view = view (wqs (pl_world s) (rq_queue q)), sp_count = fails_of wq q (pl_world s),
      sp_hand = map in_hand (pl_workers s), sp_hist = pl_hist s\<rparr>"

lemma wqs_process_end:
  assumes "p_queue p = built_queue wq q (default_recorder_opt rejects dr)"
    and "p_recorder p = default_recorder_opt rejects dr"
  shows "wqs (process_end p key start err w) = (wqs w)(rq_queue q :=
    wq_Done wq key (if err = None then wq_Forget wq key (wqs w (rq_queue q)) else wqs w (rq_queue q)))"
  using assms
  by (auto simp: process_end_def Let_def built_wqs recorder_defs retry_defs split: option.split)

lemma fails_of_same: "same_queue wq view (rq_queue q) w w' \<Longrightarrow> fails_of wq q w' = fails_of wq q w"
  by (simp add: same_queue_def fails_of_def fun_eq_iff)

lemma fails_of_built:
  assumes "requeue_laws wq"
  shows "fails_of wq q (q_Add (built_queue wq q (default_recorder_opt rejects dr)) k w) = fails_of wq q w"
    "fails_of wq q (q_AddAfter (built_queue wq q (default_recorder_opt rejects dr)) k d w) = fails_of wq q w"
    "fails_of wq q (q_ShutDown (built_queue wq q (default_recorder_opt rejects dr)) w) = fails_of wq q w"
  by (simp_all add: fun_eq_iff fails_of_def built_wqs requeue_lawsD [OF assms])

text \<open>The steps of the specification for the effects of the code's steps.\<close>

lemma spec_work:
  fixes s :: "('q, string, 'z) queue_world_scheme pool"
  assumes laws: "workqueue_laws wq view" "requeue_laws wq"
    and p: "p_queue p = built_queue wq q (default_recorder_opt rejects dr)"
    and leaves: "leaves_queue wq view (rq_queue q) (p_handler p)"
    and i: "i < length (pl_workers s)" "in_hand (pl_workers s ! i) = Some key" "in_hand x = Some key"
    and h: "handle_rest p key c (pl_world s) = (res, w)"
  shows "spec_step (rq_retries q) (pool_abs wq view q s)
    (pool_abs wq view q (s\<lparr>pl_world := w, pl_workers := (pl_workers s)[i := x],
       pl_hist := Handled i key (call_failed c) # pl_hist s\<rparr>))"
proof -
  let ?S = "pool_abs wq view q s"
  from rest_grows [OF laws p leaves, of "pl_world s" c key] h
  have g: "v_proc (view (wqs w (rq_queue q))) = v_proc (sp_view ?S)"
    "v_shut (view (wqs w (rq_queue q))) = v_shut (sp_view ?S)"
    "v_pend (sp_view ?S) \<subseteq> v_pend (view (wqs w (rq_queue q)))"
    and count: "fails_of wq q w = (if call_failed c
      then retry_spec (rq_retries q) (CRequeue key) (sp_count ?S) else sp_count ?S)"
    by (auto simp: grown_def pool_abs_def fails_of_def fun_eq_iff)
  have hand: "i < length (sp_hand ?S)" "sp_hand ?S ! i = Some key" using i by (simp_all add: pool_abs_def)
  have "map in_hand ((pl_workers s)[i := x]) = map in_hand (pl_workers s)"
    using i by (simp add: map_update) (metis length_map list_update_id nth_map)
  then show ?thesis
    using spec_step.work [OF hand g, of "rq_retries q" "call_failed c"] count
    by (simp add: pool_abs_def)
qed

lemma spec_give_back:
  fixes s :: "('q, string, 'z) queue_world_scheme pool"
  assumes laws: "workqueue_laws wq view" "requeue_laws wq"
    and i: "i < length (pl_workers s)" "in_hand (pl_workers s ! i) = Some key" "in_hand x = None"
    and w: "wqs w = (wqs (pl_world s))(rq_queue q := wq_Done wq key
      (if ok then wq_Forget wq key (wqs (pl_world s) (rq_queue q)) else wqs (pl_world s) (rq_queue q)))"
  shows "spec_step (rq_retries q) (pool_abs wq view q s)
    (pool_abs wq view q (s\<lparr>pl_world := w, pl_workers := (pl_workers s)[i := x],
       pl_hist := Finished i key ok # pl_hist s\<rparr>))"
proof -
  let ?S = "pool_abs wq view q s"
  have hand: "i < length (sp_hand ?S)" "sp_hand ?S ! i = Some key" using i by (simp_all add: pool_abs_def)
  have "view (wqs w (rq_queue q)) = (sp_view ?S)\<lparr>v_proc := v_proc (sp_view ?S) - {key}\<rparr>"
    "fails_of wq q w = (if ok then (sp_count ?S)(key := 0) else sp_count ?S)"
    by (auto simp: w pool_abs_def fails_of_def fun_eq_iff workqueue_lawsD [OF laws(1)] requeue_lawsD [OF laws(2)])
  with spec_step.give_back [OF hand, of "rq_retries q" ok] i(3) show ?thesis
    by (simp add: pool_abs_def map_update)
qed

lemma abs_stutter:
  assumes "same_queue wq view (rq_queue q) (pl_world s) (pl_world t)"
    and "map in_hand (pl_workers t) = map in_hand (pl_workers s)" and "pl_hist t = pl_hist s"
  shows "pool_abs wq view q t = pool_abs wq view q s"
  using assms fails_of_same [OF assms(1)] by (simp add: pool_abs_def same_queue_def)

lemma same_hand:
  "i < length ws \<Longrightarrow> in_hand x = in_hand (ws ! i) \<Longrightarrow> map in_hand (ws[i := x]) = map in_hand ws"
  by (simp add: map_update) (metis length_map list_update_id nth_map)

lemma worker_step_refines:
  fixes s :: "('q, string, 'z) queue_world_scheme pool"
  assumes laws: "workqueue_laws wq view" "requeue_laws wq"
    and p: "p_queue p = built_queue wq q (default_recorder_opt rejects dr)"
      "p_recorder p = default_recorder_opt rejects dr"
    and leaves: "leaves_queue wq view (rq_queue q) (p_handler p)"
    and "worker_step p i s t"
  shows "(spec_step (rq_retries q))\<^sup>*\<^sup>* (pool_abs wq view q s) (pool_abs wq view q t)"
proof -
  let ?a = "rq_queue q"
  let ?S = "pool_abs wq view q s"
  note laws' = workqueue_lawsD [OF laws(1)] requeue_lawsD [OF laws(2)]
  have stutter: ?thesis if "same_queue wq view ?a (pl_world s) (pl_world t)"
    "map in_hand (pl_workers t) = map in_hand (pl_workers s)" "pl_hist t = pl_hist s"
    using abs_stutter [OF that] by simp
  from assms(6) show ?thesis
  proof cases
    case (get start key w)
    from get(4) obtain n q' where q': "wq_Get wq (now (pl_world s)) (wqs (pl_world s) ?a) = Some ((key, False), n, q')"
      "wqs w = (wqs (pl_world s))(?a := q')"
      using built_Get [of wq q rejects dr] p(1) by metis
    have "hands_out key (sp_view ?S) (view q')" using laws'(9) [OF q'(1)] by (simp add: pool_abs_def)
    moreover have "i < length (sp_hand ?S)" "sp_hand ?S ! i = None" using get by (simp_all add: pool_abs_def)
    ultimately have "spec_step (rq_retries q) ?S (?S\<lparr>sp_view := view q', sp_hand := (sp_hand ?S)[i := Some key],
        sp_hist := Started i key # sp_hist ?S\<rparr>)" by (intro spec_step.take)
    moreover have "fails_of wq q w = fails_of wq q (pl_world s)"
      using laws'(16) [OF q'(1)] q'(2) by (simp add: fails_of_def fun_eq_iff)
    ultimately show ?thesis using get(1) q'(2) by (simp add: pool_abs_def map_update r_into_rtranclp)
  next
    case (get_exit start key w)
    from get_exit(4) obtain n q' where q': "wq_Get wq (now (pl_world s)) (wqs (pl_world s) ?a) = Some ((key, True), n, q')"
      "wqs w = (wqs (pl_world s))(?a := q')"
      using built_Get [of wq q rejects dr] p(1) by metis
    from laws'(8) [OF q'(1)] laws'(16) [OF q'(1)] q'(2) have "same_queue wq view ?a (pl_world s) w"
      by (simp add: same_queue_def)
    with get_exit show ?thesis by (intro stutter) (simp_all add: same_hand)
  next
    case (call key start c w)
    from call_same_queue [OF leaves, of "pl_world s" key] call(4) have "same_queue wq view ?a (pl_world s) w" by simp
    with call show ?thesis by (intro stutter) (simp_all add: same_hand)
  next
    case (follow key start c err w)
    from spec_work [OF laws p(1) leaves follow(2) _ _ follow(4)] follow show ?thesis
      by (simp add: r_into_rtranclp)
  next
    case (follow_panic key start c v w)
    let ?u = "s\<lparr>pl_world := w, pl_workers := (pl_workers s)[i := Following key start c],
       pl_hist := Handled i key (call_failed c) # pl_hist s\<rparr>"
    have "spec_step (rq_retries q) ?S (pool_abs wq view q ?u)"
      using follow_panic by (intro spec_work [OF laws p(1) leaves _ _ _ follow_panic(4)]) simp_all
    moreover have "spec_step (rq_retries q) (pool_abs wq view q ?u)
        (pool_abs wq view q (?u\<lparr>pl_world := q_Done (p_queue p) key w, pl_workers := (pl_workers ?u)[i := Exited],
           pl_hist := Finished i key False # pl_hist ?u\<rparr>))"
      using follow_panic(2) by (intro spec_give_back [OF laws]) (simp_all add: p(1) retry_defs)
    ultimately show ?thesis using follow_panic(1) by (simp add: pool_abs_def)
  next
    case (finish key start err)
    from spec_give_back [OF laws finish(2) _ _ wqs_process_end [OF p, of key start err "pl_world s"], of Looping]
    show ?thesis using finish by (simp add: r_into_rtranclp)
  qed (intro stutter; simp add: same_hand)+
qed

lemma pool_step_refines:
  fixes s :: "('q, string, 'z) queue_world_scheme pool"
  assumes laws: "workqueue_laws wq view" "requeue_laws wq"
    and p: "p_queue p = built_queue wq q (default_recorder_opt rejects dr)"
      "p_recorder p = default_recorder_opt rejects dr"
    and leaves: "leaves_queue wq view (rq_queue q) (p_handler p)"
    and env: "\<And>w w'. env w w' \<Longrightarrow> same_queue wq view (rq_queue q) w w'"
    and "pool_step env p s t"
  shows "(spec_step (rq_retries q))\<^sup>*\<^sup>* (pool_abs wq view q s) (pool_abs wq view q t)"
proof -
  let ?a = "rq_queue q"
  let ?S = "pool_abs wq view q s"
  note laws' = workqueue_lawsD [OF laws(1)] requeue_lawsD [OF laws(2)]
  from assms(7) show ?thesis
  proof cases
    case (worker i)
    then show ?thesis by (intro worker_step_refines [OF laws p leaves])
  next
    case (add key)
    have "spec_step (rq_retries q) ?S (?S\<lparr>sp_view := view (wq_Add wq key (wqs (pl_world s) ?a)),
        sp_hist := Enqueued key # sp_hist ?S\<rparr>)"
      by (rule spec_step.enqueued) (simp add: pool_abs_def laws')
    with add show ?thesis
      by (simp add: pool_abs_def p(1) built_wqs fails_of_built [OF laws(2)] r_into_rtranclp)
  next
    case (add_after key delay)
    have "spec_step (rq_retries q) ?S
        (?S\<lparr>sp_view := view (wq_AddAfter wq (now (pl_world s)) key delay (wqs (pl_world s) ?a)),
        sp_hist := Enqueued key # sp_hist ?S\<rparr>)"
      by (rule spec_step.enqueued) (simp add: pool_abs_def laws')
    with add_after show ?thesis
      by (simp add: pool_abs_def p(1) built_wqs fails_of_built [OF laws(2)] r_into_rtranclp)
  next
    case shutdown
    have "spec_step (rq_retries q) ?S (?S\<lparr>sp_view := view (wq_ShutDown wq (wqs (pl_world s) ?a))\<rparr>)"
      by (rule spec_step.close) (simp_all add: pool_abs_def laws')
    with shutdown show ?thesis
      by (simp add: pool_abs_def p(1) built_wqs fails_of_built [OF laws(2)] r_into_rtranclp)
  next
    case cancel
    then show ?thesis using abs_stutter [of wq view q s t] by simp
  next
    case (crash v)
    then show ?thesis using abs_stutter [of wq view q s t] by simp
  next
    case (others w)
    with env show ?thesis using abs_stutter [of wq view q s t] by simp
  qed
qed

lemma pool_reaches_spec:
  fixes s :: "('q, string, 'z) queue_world_scheme pool"
  assumes laws: "workqueue_laws wq view" "requeue_laws wq"
    and p: "p_queue p = built_queue wq q (default_recorder_opt rejects dr)"
      "p_recorder p = default_recorder_opt rejects dr"
    and leaves: "leaves_queue wq view (rq_queue q) (p_handler p)"
    and env: "\<forall>u v. env u v \<longrightarrow> same_queue wq view (rq_queue q) u v"
    and fresh: "fails_of wq q w = (\<lambda>_. 0)" and "worker_pool env p w s"
  shows "reach spec_start (spec_step (rq_retries q)) (pool_abs wq view q s)"
  using assms(8) unfolding worker_pool_def
proof (induction rule: reach.induct)
  case (reach_start s)
  then have "spec_start (pool_abs wq view q s)"
    using fresh by (auto simp: pool_start_def spec_start_def pool_abs_def)
  then show ?case by (rule reach.reach_start)
next
  case (reach_step s t)
  have "(spec_step (rq_retries q))\<^sup>*\<^sup>* (pool_abs wq view q s) (pool_abs wq view q t)"
    using env by (intro pool_step_refines [OF laws p leaves _ reach_step(2)]) blast
  then show ?case using reach_step.IH by (rule reach_steps)
qed

subsection \<open>Winding down\<close>

text \<open>
  A queue of client-go that is shut down, with other workers about: \<open>Get\<close> never blocks and
  every item it hands out is one less; it reports the shutdown also while items that were
  added during their processing are still in the hands of others.
\<close>

definition winds_down :: "('q, 'k) wq_ops \<Rightarrow> ('q \<Rightarrow> bool) \<Rightarrow> ('q \<Rightarrow> nat) \<Rightarrow> bool" where
  "winds_down wq shut left \<longleftrightarrow> ignores_adds wq shut left \<and>
     (\<forall>t q. shut q \<longrightarrow> (\<exists>item exit n q'. wq_Get wq t q = Some ((item, exit), n, q') \<and>
        shut q' \<and> left q' \<le> left q \<and> (\<not> exit \<longrightarrow> left q' < left q)))"

lemma winds_down_Get:
  assumes "winds_down wq shut left" and "shut q"
  obtains item exit n q' where "wq_Get wq t q = Some ((item, exit), n, q')"
    and "shut q'" and "left q' \<le> left q" and "\<not> exit \<Longrightarrow> left q' < left q"
  using assms unfolding winds_down_def by meson

fun weight :: "worker \<Rightarrow> nat" where
  "weight Exited = 0"
| "weight Resting = 1"
| "weight (Getting _) = 2"
| "weight Looping = 3"
| "weight (Finishing _ _ _) = 4"
| "weight (Following _ _ _) = 5"
| "weight (Handling _ _) = 6"

text \<open>What is left to do: the items in the queue and the way of each worker to its exit.\<close>

definition work_left :: "('q \<Rightarrow> nat) \<Rightarrow> addr \<Rightarrow> ('q, string, 'z) queue_world_scheme pool \<Rightarrow> nat" where
  "work_left left a s = 7 * left (wqs (pl_world s) a) + sum_list (map weight (pl_workers s))"

lemma weight_update:
  "i < length ws \<Longrightarrow> sum_list (map weight (ws[i := x])) + weight (ws ! i) = sum_list (map weight ws) + weight x"
  by (induction ws arbitrary: i) (auto split: nat.split)

definition winding_down :: "('q \<Rightarrow> bool) \<Rightarrow> addr \<Rightarrow> ('q, string, 'z) queue_world_scheme pool \<Rightarrow> bool" where
  "winding_down shut a s \<longleftrightarrow> pl_crash s = None \<and> pl_done s \<and> shut (wqs (pl_world s) a)"

lemma winding_step:
  fixes s :: "('q, string, 'z) queue_world_scheme pool"
  assumes down: "winds_down wq shut left" and respects: "respects_shutdown shut left (rq_queue q) (p_handler p)"
    and p: "p_queue p = built_queue wq q (default_recorder_opt rejects dr)"
      "p_recorder p = default_recorder_opt rejects dr"
    and notify: "\<forall>msg e w. \<exists>u w'. h_Notify (p_handler p) msg e w = (Ret u, w')"
    and s: "winding_down shut (rq_queue q) s" and i: "i < length (pl_workers s)" "pl_workers s ! i \<noteq> Exited"
  shows "\<exists>t. worker_step p i s t \<and> winding_down shut (rq_queue q) t \<and>
    work_left left (rq_queue q) t < work_left left (rq_queue q) s"
proof -
  let ?a = "rq_queue q"
  from s have s': "pl_crash s = None" "pl_done s" "shut (wqs (pl_world s) ?a)" by (simp_all add: winding_down_def)
  have moved: ?thesis
    if "worker_step p i s t" "pl_workers t = (pl_workers s)[i := x]" "pl_crash t = None" "pl_done t"
      "shut (wqs (pl_world t) ?a)"
      "7 * left (wqs (pl_world t) ?a) + weight x < 7 * left (wqs (pl_world s) ?a) + weight (pl_workers s ! i)"
    for t :: "('q, string, 'z) queue_world_scheme pool" and x
    using that weight_update [OF i(1), of x]
    by (intro exI [of _ t]) (simp add: winding_down_def work_left_def)
  show ?thesis
  proof (cases "pl_workers s ! i")
    case Resting
    show ?thesis
      by (rule moved [where x = "Exited", OF leave [OF i(1) Resting s'(2)]]) (use s' Resting in simp_all)
  next
    case Looping
    show ?thesis
      by (rule moved [where x = "Getting (process_begin p (pl_world s))", OF begin_process [OF i(1) Looping]]) (use s' Looping in simp_all)
  next
    case (Getting start)
    obtain item exit n q' where q': "wq_Get wq (now (pl_world s)) (wqs (pl_world s) ?a) = Some ((item, exit), n, q')"
      "shut q'" "left q' \<le> left (wqs (pl_world s) ?a)" "\<not> exit \<Longrightarrow> left q' < left (wqs (pl_world s) ?a)"
      using winds_down_Get [OF down s'(3)] by metis
    obtain w where w: "q_Get (p_queue p) (pl_world s) = Some ((item, exit), w)" "wqs w = (wqs (pl_world s))(?a := q')"
      using built_Get_Some [OF q'(1), of rejects dr] unfolding p(1) by blast
    show ?thesis
    proof (cases exit)
      case True
      with w have got: "q_Get (p_queue p) (pl_world s) = Some ((item, True), w)" by simp
      show ?thesis
        by (rule moved [where x = "Resting", OF get_exit [OF i(1) Getting got]]) (use s' Getting w q' in simp_all)
    next
      case False
      with w have got: "q_Get (p_queue p) (pl_world s) = Some ((item, False), w)" by simp
      show ?thesis
        by (rule moved [where x = "Handling item start", OF get [OF i(1) Getting got]]) (use s' Getting w q'(2) q'(4) [OF False] in simp_all)
    qed
  next
    case (Handling key start)
    obtain c w where c: "handle_call p key (pl_world s) = (c, w)" by force
    have m: "shut_with shut left ?a (left (wqs (pl_world s) ?a)) (pl_world s)" using s' by (simp add: shut_with_def)
    have "shut_with shut left ?a (left (wqs (pl_world s) ?a)) (snd (handle_call p key (pl_world s)))"
      by (rule call_invariant [where I = "shut_with shut left ?a (left (wqs (pl_world s) ?a))"])
        (use respects m in \<open>auto simp: respects_shutdown_def shut_with_alloc\<close>)
    with c have w: "shut (wqs w ?a)" "left (wqs w ?a) \<le> left (wqs (pl_world s) ?a)" by (simp_all add: shut_with_def)
    show ?thesis
      by (rule moved [where x = "Following key start c", OF call [OF i(1) Handling c]]) (use s' Handling w in simp_all)
  next
    case (Following key start c)
    obtain err w where h: "handle_rest p key c (pl_world s) = (Ret err, w)"
      using rest_returns [OF notify] by blast
    have "shut_with shut left ?a (left (wqs (pl_world s) ?a)) (pl_world s)" using s' by (simp add: shut_with_def)
    from rest_shut [OF _ respects p(1) this, of key c] h down
    have "shut_with shut left ?a (left (wqs (pl_world s) ?a)) w" by (simp add: winds_down_def)
    then have w: "shut (wqs w ?a)" "left (wqs w ?a) \<le> left (wqs (pl_world s) ?a)" by (simp_all add: shut_with_def)
    show ?thesis
      by (rule moved [where x = "Finishing key start err", OF follow [OF i(1) Following h]]) (use s' Following w in simp_all)
  next
    case (Finishing key start err)
    let ?w = "process_end p key start err (pl_world s)"
    have ign: "shut u \<Longrightarrow> shut (wq_Done wq key u) \<and> left (wq_Done wq key u) \<le> left u"
      "shut u \<Longrightarrow> shut (wq_Forget wq key u) \<and> left (wq_Forget wq key u) \<le> left u" for u
      using down by (simp_all add: winds_down_def ignores_adds_def)
    have "shut (wqs ?w ?a) \<and> left (wqs ?w ?a) \<le> left (wqs (pl_world s) ?a)"
      using ign(1) [of "wqs (pl_world s) ?a"] ign(2) [of "wqs (pl_world s) ?a"]
        ign(1) [of "wq_Forget wq key (wqs (pl_world s) ?a)"] s'(3)
      by (auto simp: wqs_process_end [OF p])
    then show ?thesis
      by (intro moved [where x = "Looping", OF finish [OF i(1) Finishing]]) (use s' Finishing in simp_all)
  qed (use i in simp)
qed

lemma winding_down_ends:
  fixes s :: "('q, string, 'z) queue_world_scheme pool"
  assumes "winds_down wq shut left" and "respects_shutdown shut left (rq_queue q) (p_handler p)"
    and "p_queue p = built_queue wq q (default_recorder_opt rejects dr)"
    and "p_recorder p = default_recorder_opt rejects dr"
    and "\<forall>msg e w. \<exists>u w'. h_Notify (p_handler p) msg e w = (Ret u, w')"
    and "winding_down shut (rq_queue q) s"
  shows "\<exists>t. (pool_step env p)\<^sup>*\<^sup>* s t \<and> (\<forall>i < length (pl_workers t). pl_workers t ! i = Exited) \<and> pl_crash t = None"
  using assms(6)
proof (induction "work_left left (rq_queue q) s" arbitrary: s rule: less_induct)
  case less
  show ?case
  proof (cases "\<forall>i < length (pl_workers s). pl_workers s ! i = Exited")
    case True
    with less.prems show ?thesis by (auto simp: winding_down_def)
  next
    case False
    then obtain i where i: "i < length (pl_workers s)" "pl_workers s ! i \<noteq> Exited" by blast
    from winding_step [OF assms(1-5) less.prems i] obtain t where
      t: "worker_step p i s t" "winding_down shut (rq_queue q) t"
      "work_left left (rq_queue q) t < work_left left (rq_queue q) s" by blast
    from less.prems have "pl_crash s = None" by (simp add: winding_down_def)
    then have "pool_step env p s t" using t(1) by (rule pool_step.worker)
    with less.hyps [OF t(3,2)] show ?thesis by (meson converse_rtranclp_into_rtranclp)
  qed
qed

subsection \<open>Informer events as steps of the pool\<close>

lemma enqueue_steps:
  assumes "reh_queue r = p_queue p" and "keyfn obj = (key, None)" and "pl_crash s = None"
    and "case reh_filter r of None \<Rightarrow> v = pl_world s
       | Some f \<Rightarrow> f oper (object prev) (object obj) (pl_world s) = (True, v) \<and> env (pl_world s) v"
    and "enqueue r oper prev obj keyfn (pl_world s) = (res, w)"
  shows "(pool_step env p)\<^sup>*\<^sup>* s (s\<lparr>pl_world := w, pl_hist := Enqueued key # pl_hist s\<rparr>)"
proof -
  let ?s = "s\<lparr>pl_world := v\<rparr>"
  have filtered: "(pool_step env p)\<^sup>*\<^sup>* s ?s"
  proof (cases "reh_filter r")
    case (Some f)
    with assms(3,4) have "pool_step env p s ?s" by (intro others) simp_all
    then show ?thesis ..
  qed (use assms(4) in simp)
  have "w = q_Add (p_queue p) key v \<or> (\<exists>d. w = q_AddAfter (p_queue p) key d v)"
    using assms by (auto simp: enqueue_def Let_def split: option.splits if_splits)
  then have "pool_step env p ?s (s\<lparr>pl_world := w, pl_hist := Enqueued key # pl_hist s\<rparr>)"
    using add [of ?s env p key] add_after [of ?s env p key] assms(3) by auto
  with filtered show ?thesis by (rule rtranclp.rtrancl_into_rtrancl)
qed

lemma worker_step_frame:
  assumes "worker_step p i s t"
  shows "pl_done t = pl_done s" and "length (pl_workers t) = length (pl_workers s)"
    and "\<exists>newer. pl_hist t = newer @ pl_hist s"
  using assms by (cases; auto intro: exI [of _ "[]"] exI [of _ "[_]"] exI [of _ "[_, _]"])+

lemma pool_hist_grows: "(pool_step env p)\<^sup>*\<^sup>* s t \<Longrightarrow> \<exists>newer. pl_hist t = newer @ pl_hist s"
proof (induction rule: rtranclp_induct)
  case (step t u)
  from step.hyps(2) have "\<exists>newer. pl_hist u = newer @ pl_hist t"
    by cases (auto intro: exI [of _ "[]"] exI [of _ "[_]"] dest: worker_step_frame(3))
  with step.IH show ?case by auto
qed simp

text \<open>
  An item that was enqueued after a worker last took it is waiting in the queue, as long as
  the queue is not shut down.
\<close>

lemma unseen_pending:
  fixes s :: "('q, string, 'z) queue_world_scheme pool"
  assumes "workqueue_laws wq view" and "requeue_laws wq"
    and "p_queue p = built_queue wq q (default_recorder_opt rejects dr)"
    and "p_recorder p = default_recorder_opt rejects dr"
    and "leaves_queue wq view (rq_queue q) (p_handler p)"
    and "\<forall>u v. env u v \<longrightarrow> same_queue wq view (rq_queue q) u v"
    and "fails_of wq q w = (\<lambda>_. 0)" and "worker_pool env p w s"
    and "\<not> v_shut (view (wqs (pl_world s) (rq_queue q)))"
    and "pl_hist s = newer @ Enqueued key # older" and "\<forall>i. Started i key \<notin> set newer"
  shows "key \<in> v_pend (view (wqs (pl_world s) (rq_queue q)))"
proof -
  have "key \<in> unseen (newer @ Enqueued key # older)"
    using assms(11) by (induction newer rule: unseen.induct) auto
  with items.reach_inv [OF pool_reaches_spec [OF assms(1-8)]] assms(9,10) show ?thesis
    by (auto simp: spec_inv_def pool_abs_def)
qed

subsection \<open>Properties\<close>

text \<open>
  C8. The workers of a processor implement the life of the items: with the queue, the
  recorder and \<open>handle\<close> of this package over a client-go queue that keeps its laws, and
  a handler and a rest of the program that leave the queue alone, every state the pool
  reaches from fresh requeue counts is, seen abstractly, a state of the specification.
\<close>

theorem pool_implements_spec:
  assumes "workqueue_laws wq view" and "requeue_laws wq"
    and "p_queue p = built_queue wq q (default_recorder_opt rejects dr)"
    and "p_recorder p = default_recorder_opt rejects dr"
    and "leaves_queue wq view (rq_queue q) (p_handler p)"
    and "\<forall>u v. env u v \<longrightarrow> same_queue wq view (rq_queue q) u v"
    and "fails_of wq q w = (\<lambda>_. 0)" and "worker_pool env p w s"
  shows "reach spec_start (spec_step (rq_retries q)) (pool_abs wq view q s)"
  using assms(8) by (rule pool_reaches_spec [OF assms(1-7)])

text \<open>
  C7. An item is never handled by two workers at once, although every worker calls
  \<open>handle\<close> on whatever it gets and events and requeues may add the item again meanwhile:
  in every reachable state two workers with the same item in hand are the same worker.
\<close>

theorem no_concurrent_handling:
  assumes "workqueue_laws wq view" and "requeue_laws wq"
    and "p_queue p = built_queue wq q (default_recorder_opt rejects dr)"
    and "p_recorder p = default_recorder_opt rejects dr"
    and "leaves_queue wq view (rq_queue q) (p_handler p)"
    and "\<forall>u v. env u v \<longrightarrow> same_queue wq view (rq_queue q) u v"
    and "fails_of wq q w = (\<lambda>_. 0)" and "worker_pool env p w s"
    and "i < length (pl_workers s)" and "j < length (pl_workers s)"
    and "in_hand (pl_workers s ! i) = Some key" and "in_hand (pl_workers s ! j) = Some key"
  shows "i = j"
  using items.reach_inv [OF pool_reaches_spec [OF assms(1-8)]] assms(9-12)
  by (simp add: spec_inv_def pool_abs_def)

text \<open>
  C9. The retry budget holds for the whole pool: with a limit that is not negative, the
  requeue count of an item is the number of handler failures since its last success,
  modulo the limit plus one, whichever workers handled it, whatever events added it
  meanwhile, and whatever other errors occurred; so a failing item is retried exactly as
  often as configured before it is dropped.
\<close>

theorem pool_retry_budget:
  assumes "workqueue_laws wq view" and "requeue_laws wq"
    and "p_queue p = built_queue wq q (default_recorder_opt rejects dr)"
    and "p_recorder p = default_recorder_opt rejects dr"
    and "leaves_queue wq view (rq_queue q) (p_handler p)"
    and "\<forall>u v. env u v \<longrightarrow> same_queue wq view (rq_queue q) u v"
    and "fails_of wq q w = (\<lambda>_. 0)" and "worker_pool env p w s" and "0 \<le> rq_retries q"
  shows "wq_NumRequeues wq key (wqs (pl_world s) (rq_queue q)) =
    int (failures (pl_hist s) key) mod (rq_retries q + 1)"
proof -
  from items.reach_inv [OF pool_reaches_spec [OF assms(1-8)]]
  have "fails_of wq q (pl_world s) = budget (rq_retries q) (pl_hist s)"
    by (simp add: spec_inv_def pool_abs_def)
  with budget_failures [OF assms(9)] show ?thesis by (metis fails_of_def)
qed

text \<open>
  From the informer to the queue, for good: when an informer event of a processor's
  event handler passes the filters, then in every later state of the pool before the
  shutdown the key of the resource is waiting in the queue or a worker has taken it since;
  whatever the workers, other events and the rest of the program do in between.
\<close>

lemma passed_event_pending:
  assumes "workqueue_laws wq view" and "requeue_laws wq"
    and "p_queue p = built_queue wq q (default_recorder_opt rejects dr)"
    and "p_recorder p = default_recorder_opt rejects dr"
    and "leaves_queue wq view (rq_queue q) (p_handler p)"
    and "\<forall>u v. env u v \<longrightarrow> same_queue wq view (rq_queue q) u v"
    and "fails_of wq q w = (\<lambda>_. 0)" and "worker_pool env p w s" and "pl_crash s = None"
    and "reh_queue r = p_queue p" and "keyfn obj = (key, None)"
    and "case reh_filter r of None \<Rightarrow> v = pl_world s
       | Some f \<Rightarrow> f oper (object prev) (object obj) (pl_world s) = (True, v) \<and> env (pl_world s) v"
    and "enqueue r oper prev obj keyfn (pl_world s) = (res, w')"
    and "t = s\<lparr>pl_world := w', pl_hist := Enqueued key # pl_hist s\<rparr>"
    and "(pool_step env p)\<^sup>*\<^sup>* t u" and "\<not> v_shut (view (wqs (pl_world u) (rq_queue q)))"
  shows "key \<in> v_pend (view (wqs (pl_world u) (rq_queue q))) \<or>
    (\<exists>newer i. pl_hist u = newer @ pl_hist t \<and> Started i key \<in> set newer)"
proof -
  from assms(15) obtain newer where newer: "pl_hist u = newer @ Enqueued key # pl_hist s"
    using pool_hist_grows assms(14) by fastforce
  have "(pool_step env p)\<^sup>*\<^sup>* s t" unfolding assms(14)
    by (rule enqueue_steps [where r = r and keyfn = keyfn and obj = obj and oper = oper and prev = prev
          and v = v and res = res]) (fact assms)+
  then have "worker_pool env p w u"
    using assms(8,15) unfolding worker_pool_def by (blast intro: reach_steps)
  from unseen_pending [OF assms(1-7) this assms(16) newer] newer show ?thesis
    by (auto simp: assms(14))
qed

text \<open>
  The pool winds down: from every state in which the context is done, the queue is
  shut down and no \<open>Notify\<close> panics, the workers can hand out what is left, give back what
  they have in hand and exit, all of them, whatever their handlers return.
\<close>

lemma pool_winds_down:
  assumes "winds_down wq shut left" and "respects_shutdown shut left (rq_queue q) (p_handler p)"
    and "p_queue p = built_queue wq q (default_recorder_opt rejects dr)"
    and "p_recorder p = default_recorder_opt rejects dr"
    and "\<forall>msg e w. \<exists>u w'. h_Notify (p_handler p) msg e w = (Ret u, w')"
    and "pl_crash s = None" and "pl_done s" and "shut (wqs (pl_world s) (rq_queue q))"
  shows "\<exists>t. (pool_step env p)\<^sup>*\<^sup>* s t \<and>
    (\<forall>i < length (pl_workers t). pl_workers t ! i = Exited) \<and> pl_crash t = None"
  using assms(6-8) by (intro winding_down_ends [OF assms(1-5)]) (simp add: winding_down_def)

subsection \<open>Witnesses\<close>

text \<open>
  A queue that knows what is being processed: the waiting items, the items handed out, the
  requeue counts and the closed flag.
\<close>

type_synonym busy_queue = "string list \<times> string list \<times> (string \<Rightarrow> int) \<times> bool"

fun busy_add :: "string \<Rightarrow> busy_queue \<Rightarrow> busy_queue" where
  "busy_add k (xs, ps, f, shut) = (if shut \<or> k \<in> set xs then (xs, ps, f, shut) else (xs @ [k], ps, f, shut))"

fun busy_get :: "busy_queue \<Rightarrow> ((string \<times> bool) \<times> nat \<times> busy_queue) option" where
  "busy_get (xs, ps, f, shut) =
     (case filter (\<lambda>x. x \<notin> set ps) xs of
        [] \<Rightarrow> (if shut then Some (([], True), 0, (xs, ps, f, shut)) else None)
      | x # _ \<Rightarrow> Some ((x, False), 5, (removeAll x xs, x # ps, f, shut)))"

definition busy_wq :: "(busy_queue, string) wq_ops" where
  "busy_wq =
     \<lparr>wq_Len = (\<lambda>(xs, ps, f, c). int (length xs)),
      wq_Add = busy_add,
      wq_AddAfter = (\<lambda>t k d. busy_add k),
      wq_AddRateLimited = (\<lambda>t k (xs, ps, f, c). busy_add k (xs, ps, f(k := f k + 1), c)),
      wq_NumRequeues = (\<lambda>k (xs, ps, f, c). f k),
      wq_Forget = (\<lambda>k (xs, ps, f, c). (xs, ps, f(k := 0), c)),
      wq_Get = (\<lambda>t q. busy_get q),
      wq_Done = (\<lambda>k (xs, ps, f, c). (xs, removeAll k ps, f, c)),
      wq_ShutDown = (\<lambda>(xs, ps, f, c). (xs, ps, f, True))\<rparr>"

fun busy_view :: "busy_queue \<Rightarrow> wq_view" where
  "busy_view (xs, ps, f, c) = \<lparr>v_pend = set xs, v_proc = set ps, v_shut = c\<rparr>"

lemma busy_get_hands_out:
  assumes "busy_get q = Some ((k, exit), n, q')"
  shows "if exit then busy_view q' = busy_view q else hands_out k (busy_view q) (busy_view q')"
proof -
  obtain xs ps f c where q: "q = (xs, ps, f, c)" by (cases q)
  show ?thesis
  proof (cases "filter (\<lambda>x. x \<notin> set ps) xs")
    case Nil
    with assms q show ?thesis by (auto split: if_splits)
  next
    case (Cons x ys)
    then have "x \<in> set xs" "x \<notin> set ps" by (auto simp: filter_eq_Cons_iff)
    with Cons assms q show ?thesis by (auto simp: hands_out_def)
  qed
qed

lemma busy_wq_laws: "workqueue_laws busy_wq busy_view"
proof -
  have adding: "adds k (busy_view q) (busy_view (busy_add k q))" for k q
    by (cases q) (auto simp: adds_def)
  have rated: "adds k (busy_view q) (busy_view (case q of (xs, ps, f, c) \<Rightarrow> busy_add k (xs, ps, f(k := f k + 1), c)))" for k q
    by (cases q) (auto simp: adds_def)
  have others: "busy_view (case q of (xs, ps, f, c) \<Rightarrow> (xs, ps, f(k := 0), c)) = busy_view q"
    "busy_view (case q of (xs, ps, f, c) \<Rightarrow> (xs, removeAll k ps, f, c)) = (busy_view q)\<lparr>v_proc := v_proc (busy_view q) - {k}\<rparr>"
    "v_proc (busy_view (case q of (xs, ps, f, c) \<Rightarrow> (xs, ps, f, True))) = v_proc (busy_view q)"
    "v_shut (busy_view (case q of (xs, ps, f, c) \<Rightarrow> (xs, ps, f, True)))" for k q
    by (cases q; simp; fail)+
  show ?thesis
    unfolding workqueue_laws_def busy_wq_def wq_ops.simps
    by (intro conjI allI impI adding rated others busy_get_hands_out)
qed

lemma busy_wq_requeue_laws: "requeue_laws busy_wq"
  by (auto simp: requeue_laws_def busy_wq_def split: if_splits list.splits)

definition busy_rq :: RetryQueue where
  "busy_rq = \<lparr>rq_name = ''q'', rq_queue = 0, rq_retries = 1\<rparr>"

definition busy_processor :: "(busy_queue, string) kube_world Processor" where
  "busy_processor =
     NewProcessor (NewHandler [] (\<lambda>_. True) (\<lambda>obj w. (Ret (None, Some (ErrorString 91 ''bad'')), w)) (New 50 51 ''pods''))
       (\<lambda>_. example_cache) 2 (built_queue busy_wq busy_rq None) None"

definition busy_world :: "(busy_queue, string) kube_world" where
  "busy_world =
     \<lparr>now = 0, next_addr = 100, trackers = (\<lambda>_. example_tracker), prom = [], collectors = [],
      client_once = False, client_metrics = None,
      wqs = (\<lambda>_. ([], [], \<lambda>_. 0, False)), queued = (\<lambda>_ _. None), logs = []\<rparr>"

abbreviation busy_pool :: "(busy_queue, string) kube_world pool \<Rightarrow> bool" where
  "busy_pool \<equiv> worker_pool (\<lambda>_ _. False) busy_processor busy_world"

lemma busy_processor_queue:
  "p_queue busy_processor = built_queue busy_wq busy_rq (default_recorder_opt duplicates_only None)"
  "p_recorder busy_processor = default_recorder_opt duplicates_only None"
  by (simp_all add: busy_processor_def NewProcessor_def)

lemma busy_handler_frame:
  "wqs (snd (h_Notify (p_handler busy_processor) k e w)) = wqs w"
  "snd (h_Handle (p_handler busy_processor) obj w) = w"
proof -
  have h: "p_handler busy_processor = NewHandler [] (\<lambda>_. True)
      (\<lambda>obj w. (Ret (None, Some (ErrorString 91 ''bad'')), w)) (New 50 51 ''pods'')"
    by (simp add: busy_processor_def NewProcessor_def)
  show "wqs (snd (h_Notify (p_handler busy_processor) k e w)) = wqs w"
    unfolding h by (rule new_handler.notify_frame)
  show "snd (h_Handle (p_handler busy_processor) obj w) = w"
    by (simp add: h NewHandler_def handler_Handle_def)
qed

lemma busy_leaves: "leaves_queue busy_wq busy_view (rq_queue busy_rq) (p_handler busy_processor)"
  by (simp add: leaves_queue_def same_queue_def busy_handler_frame)

lemma busy_fresh: "fails_of busy_wq busy_rq busy_world = (\<lambda>_. 0)"
  by (simp add: fails_of_def fun_eq_iff busy_wq_def busy_world_def)

lemma busy_env: "\<forall>u v. (\<lambda>_ _. False) u v \<longrightarrow> same_queue busy_wq busy_view (rq_queue busy_rq) u v"
  by simp

text \<open>An event adds an item, a worker takes it, and its handler fails.\<close>

lemma busy_added:
  "\<exists>s. busy_pool s \<and> pl_workers s = [Looping, Resting] \<and> pl_crash s = None \<and> pl_hist s = [Enqueued ''a''] \<and>
     wqs (pl_world s) 0 = ([''a''], [], \<lambda>_. 0, False)"
proof -
  define s0 where "s0 = \<lparr>pl_world = busy_world, pl_workers = [Resting, Resting], pl_done = False,
    pl_crash = None, pl_hist = []\<rparr>"
  define s1 where "s1 = s0\<lparr>pl_workers := (pl_workers s0)[0 := Looping]\<rparr>"
  define s2 where "s2 = s1\<lparr>pl_world := q_Add (p_queue busy_processor) ''a'' (pl_world s1),
    pl_hist := Enqueued ''a'' # pl_hist s1\<rparr>"
  have "busy_pool s0" unfolding worker_pool_def
    by (rule reach_start) (simp add: pool_start_def s0_def busy_processor_def NewProcessor_def numeral_2_eq_2)
  moreover have "pool_step (\<lambda>_ _. False) busy_processor s0 s1"
    unfolding s1_def by (rule pool_step.worker [OF _ enter [where i = 0]]) (simp_all add: s0_def)
  moreover have "pool_step (\<lambda>_ _. False) busy_processor s1 s2"
    unfolding s2_def by (rule add) (simp add: s1_def s0_def)
  ultimately have "busy_pool s2" unfolding worker_pool_def by (blast intro: reach_step)
  moreover have "wqs (pl_world s2) 0 = ([''a''], [], \<lambda>_. 0, False)"
    by (simp add: s2_def s1_def s0_def busy_processor_def NewProcessor_def built_queue_def retry_defs busy_rq_def
        busy_wq_def busy_world_def)
  ultimately show ?thesis by (intro exI [of _ s2]) (simp add: s2_def s1_def s0_def)
qed

lemma busy_taken:
  "\<exists>s start. busy_pool s \<and> pl_workers s = [Handling ''a'' start, Resting] \<and> pl_crash s = None \<and>
     pl_hist s = [Started 0 ''a'', Enqueued ''a'']"
proof -
  obtain s where s: "busy_pool s" "pl_workers s = [Looping, Resting]" "pl_crash s = None"
    "pl_hist s = [Enqueued ''a'']" "wqs (pl_world s) 0 = ([''a''], [], \<lambda>_. 0, False)"
    using busy_added by blast
  have "wq_Get busy_wq (now (pl_world s)) (wqs (pl_world s) (rq_queue busy_rq)) =
      Some ((''a'', False), 5, ([], [''a''], \<lambda>_. 0, False))"
    using s(5) by (simp add: busy_wq_def busy_rq_def)
  from built_Get_Some [OF this, of duplicates_only None] obtain w where
    w: "q_Get (p_queue busy_processor) (pl_world s) = Some ((''a'', False), w)"
    by (auto simp: busy_processor_queue)
  define s1 where "s1 = s\<lparr>pl_workers := (pl_workers s)[0 := Getting (process_begin busy_processor (pl_world s))]\<rparr>"
  define s2 where "s2 = s1\<lparr>pl_world := w,
      pl_workers := (pl_workers s1)[0 := Handling ''a'' (process_begin busy_processor (pl_world s))],
      pl_hist := Started 0 ''a'' # pl_hist s1\<rparr>"
  have "pool_step (\<lambda>_ _. False) busy_processor s s1"
    unfolding s1_def by (rule pool_step.worker [OF _ begin_process [where i = 0]]) (simp_all add: s)
  moreover have "pool_step (\<lambda>_ _. False) busy_processor s1 s2"
    unfolding s2_def by (rule pool_step.worker [OF _ get [where i = 0]]) (simp_all add: s1_def s w)
  ultimately have "busy_pool s2" using s(1) unfolding worker_pool_def by (blast intro: reach_step)
  then show ?thesis by (intro exI [of _ s2]) (simp add: s2_def s1_def s)
qed

lemma busy_handled:
  "\<exists>s. busy_pool s \<and> pl_hist s = [Handled 0 ''a'' True, Started 0 ''a'', Enqueued ''a'']"
proof -
  obtain s start where s: "busy_pool s" "pl_workers s = [Handling ''a'' start, Resting]" "pl_crash s = None"
    "pl_hist s = [Started 0 ''a'', Enqueued ''a'']"
    using busy_taken by blast
  let ?c = "Called (Ret (None, Some (ErrorString 91 ''bad'')))"
  have c: "handle_call busy_processor ''a'' (pl_world s) = (?c, pl_world s)"
    by (simp add: handle_call_def busy_processor_def NewProcessor_def example_cache_def NewHandler_def handler_Handle_def)
  have "\<forall>msg e w. \<exists>u w'. h_Notify (p_handler busy_processor) msg e w = (Ret u, w')"
    by (simp add: busy_processor_def NewProcessor_def NewHandler_def handler_Notify_named Error_Error_def New_def)
  then obtain err w where h: "handle_rest busy_processor ''a'' ?c (pl_world s) = (Ret err, w)"
    using rest_returns by blast
  define s1 where "s1 = s\<lparr>pl_world := pl_world s, pl_workers := (pl_workers s)[0 := Following ''a'' start ?c]\<rparr>"
  define s2 where "s2 = s1\<lparr>pl_world := w, pl_workers := (pl_workers s1)[0 := Finishing ''a'' start err],
      pl_hist := Handled 0 ''a'' (call_failed ?c) # pl_hist s1\<rparr>"
  have "pool_step (\<lambda>_ _. False) busy_processor s s1"
    unfolding s1_def by (rule pool_step.worker [OF _ call [where i = 0]]) (simp_all add: s c)
  moreover have "pool_step (\<lambda>_ _. False) busy_processor s1 s2"
    unfolding s2_def by (rule pool_step.worker [OF _ follow [where i = 0]]) (simp_all add: s1_def s h)
  ultimately have "busy_pool s2" using s(1) unfolding worker_pool_def by (blast intro: reach_step)
  then show ?thesis by (intro exI [of _ s2]) (simp add: s2_def s1_def s)
qed

lemmas busy_setup = busy_wq_laws busy_wq_requeue_laws busy_processor_queue busy_leaves busy_env busy_fresh

theorem pool_implements_spec_witness:
  "\<exists>s :: (busy_queue, string) kube_world pool. reach spec_start (spec_step 1) (pool_abs busy_wq busy_view busy_rq s) \<and>
     sp_hist (pool_abs busy_wq busy_view busy_rq s) = [Handled 0 ''a'' True, Started 0 ''a'', Enqueued ''a'']"
proof -
  obtain s where s: "busy_pool s" "pl_hist s = [Handled 0 ''a'' True, Started 0 ''a'', Enqueued ''a'']"
    using busy_handled by blast
  from pool_implements_spec [OF busy_setup s(1)] s(2) show ?thesis
    by (intro exI [of _ s]) (simp add: pool_abs_def busy_rq_def)
qed

theorem no_concurrent_handling_witness:
  "\<exists>s. busy_pool s \<and> in_hand (pl_workers s ! 0) = Some ''a'' \<and>
     \<not> in_hand (pl_workers s ! 1) = Some ''a''"
proof -
  obtain s start where s: "busy_pool s" "pl_workers s = [Handling ''a'' start, Resting]"
    using busy_taken by blast
  have "\<not> in_hand (pl_workers s ! 1) = Some ''a''"
  proof
    assume "in_hand (pl_workers s ! 1) = Some ''a''"
    with s no_concurrent_handling [OF busy_setup s(1), of 0 1 "''a''"] show False by simp
  qed
  with s show ?thesis by auto
qed

theorem pool_retry_budget_witness:
  "\<exists>s. busy_pool s \<and> wq_NumRequeues busy_wq ''a'' (wqs (pl_world s) 0) = 1"
proof -
  obtain s where s: "busy_pool s" "pl_hist s = [Handled 0 ''a'' True, Started 0 ''a'', Enqueued ''a'']"
    using busy_handled by blast
  with pool_retry_budget [OF busy_setup s(1), of "''a''"] show ?thesis
    by (auto simp: busy_rq_def)
qed

lemma passed_event_pending_witness:
  "\<exists>u. busy_pool u \<and> pl_hist u = [Enqueued ''a''] \<and>
     ''a'' \<in> v_pend (busy_view (wqs (pl_world u) (rq_queue busy_rq)))"
proof -
  define r where "r = NewResourceEventHandler (p_handler busy_processor) (p_queue busy_processor) (NewDelay 0 0) []"
  define s where "s = \<lparr>pl_world = busy_world, pl_workers = [Resting, Resting], pl_done = False,
    pl_crash = None, pl_hist = []\<rparr>"
  define w where "w = snd (enqueue r OpAdd Nil_any (example_pod ''a'' ''1'') (\<lambda>_. (''a'', None)) (pl_world s))"
  define u where "u = s\<lparr>pl_world := w, pl_hist := Enqueued ''a'' # pl_hist s\<rparr>"
  have s: "busy_pool s" unfolding worker_pool_def
    by (rule reach_start) (simp add: pool_start_def s_def busy_processor_def NewProcessor_def numeral_2_eq_2)
  have r: "reh_queue r = p_queue busy_processor"
    "case reh_filter r of None \<Rightarrow> pl_world s = pl_world s
       | Some f \<Rightarrow> f OpAdd (object Nil_any) (object (example_pod ''a'' ''1'')) (pl_world s) = (True, pl_world s) \<and> False"
    by (simp_all add: r_def NewResourceEventHandler_def combine_def)
  have e: "enqueue r OpAdd Nil_any (example_pod ''a'' ''1'') (\<lambda>_. (''a'', None)) (pl_world s) =
    (fst (enqueue r OpAdd Nil_any (example_pod ''a'' ''1'') (\<lambda>_. (''a'', None)) (pl_world s)), w)"
    by (simp add: w_def)
  have "pl_world u = q_Add (p_queue busy_processor) ''a'' busy_world"
    by (simp add: u_def w_def s_def r_def enqueue_def NewResourceEventHandler_def combine_def delay_for_def NewDelay_def)
  then have q: "wqs (pl_world u) (rq_queue busy_rq) = ([''a''], [], \<lambda>_. 0, False)"
    by (simp add: busy_processor_def NewProcessor_def built_queue_def retry_defs busy_rq_def busy_wq_def busy_world_def)
  have "pool_step (\<lambda>_ _. False) busy_processor s u"
  proof -
    have "u = s\<lparr>pl_world := q_Add (p_queue busy_processor) ''a'' (pl_world s), pl_hist := Enqueued ''a'' # pl_hist s\<rparr>"
      using \<open>pl_world u = q_Add (p_queue busy_processor) ''a'' busy_world\<close> by (simp add: u_def s_def)
    then show ?thesis using add [of s "\<lambda>_ _. False" busy_processor "''a''"] by (simp add: s_def)
  qed
  with s have "busy_pool u" unfolding worker_pool_def by (rule reach_step)
  moreover have "pl_hist u = [Enqueued ''a'']" by (simp add: u_def s_def)
  moreover have "''a'' \<in> v_pend (busy_view (wqs (pl_world u) (rq_queue busy_rq))) \<or>
      (\<exists>newer i. pl_hist u = newer @ pl_hist u \<and> Started i ''a'' \<in> set newer)"
    using q by (intro passed_event_pending [OF busy_setup s _ r(1) refl r(2) e u_def])
      (simp_all add: s_def)
  ultimately show ?thesis by auto
qed

lemma busy_winds_down: "winds_down busy_wq (\<lambda>(xs, ps, f, c). c) (\<lambda>(xs, ps, f, c). length xs)"
proof -
  have get: "\<exists>item exit n xs' ps' f' c'. busy_get (xs, ps, f, True) = Some ((item, exit), n, xs', ps', f', c') \<and>
      c' \<and> length xs' \<le> length xs \<and> (\<not> exit \<longrightarrow> length xs' < length xs)" for xs ps f
  proof (cases "filter (\<lambda>x. x \<notin> set ps) xs")
    case (Cons x ys)
    then have "x \<in> set xs" by (auto simp: filter_eq_Cons_iff)
    then have "length (removeAll x xs) < length xs" by (rule length_removeAll_less)
    with Cons show ?thesis by auto
  qed auto
  then show ?thesis by (auto simp: winds_down_def ignores_adds_def busy_wq_def)
qed

lemma pool_winds_down_witness:
  "\<exists>t. (pool_step (\<lambda>_ _. False) busy_processor)\<^sup>*\<^sup>*
       \<lparr>pl_world = busy_world\<lparr>wqs := \<lambda>_. ([''b''], [''a''], \<lambda>_. 0, True)\<rparr>,
        pl_workers = [Handling ''a'' 0, Resting], pl_done = True, pl_crash = None, pl_hist = []\<rparr> t \<and>
     (\<forall>i < length (pl_workers t). pl_workers t ! i = Exited) \<and> pl_crash t = None"
proof (rule pool_winds_down [OF busy_winds_down _ busy_processor_queue])
  show "respects_shutdown (\<lambda>(xs, ps, f, c). c) (\<lambda>(xs, ps, f, c). length xs) (rq_queue busy_rq)
      (p_handler busy_processor)"
    by (simp add: respects_shutdown_def shut_with_def busy_handler_frame)
  show "\<forall>msg e w. \<exists>u w'. h_Notify (p_handler busy_processor) msg e w = (Ret u, w')"
    by (simp add: busy_processor_def NewProcessor_def NewHandler_def handler_Notify_named Error_Error_def New_def)
qed simp_all

end
