(* ===== verification/Isolation.thy ===== *)
theory Isolation
  imports Controllers Workers
begin

section \<open>Several handlers of one controller\<close>

text \<open>
  Every handler added to a controller has a queue of its own. This theory follows the
  allocation of the queues through a sequence of \<open>AddHandler\<close> calls and shows that the
  event handler and the processor of one handler do not touch the queues of the others.
\<close>

subsection \<open>Effects on the queues\<close>

definition only_queue :: "addr \<Rightarrow> ('q, 'k, 'z) queue_world_scheme \<Rightarrow> ('q, 'k, 'z) queue_world_scheme \<Rightarrow> bool" where
  "only_queue a w w' \<longleftrightarrow> (\<forall>x. x \<noteq> a \<longrightarrow> wqs w' x = wqs w x)"

lemma only_queue_refl [simp]: "only_queue a w w"
  by (simp add: only_queue_def)

lemma only_queue_trans: "only_queue a u v \<Longrightarrow> only_queue a v w \<Longrightarrow> only_queue a u w"
  by (simp add: only_queue_def)

lemma only_queue_wqs: "wqs w' = wqs w \<Longrightarrow> only_queue a w w'"
  by (simp add: only_queue_def)

text \<open>Handlers and filters that leave the queues alone.\<close>

definition quiet_handler :: "('q, 'k, 'z) queue_world_scheme handler_ops \<Rightarrow> bool" where
  "quiet_handler h \<longleftrightarrow> (\<forall>obj w. wqs (snd (h_Handle h obj w)) = wqs w) \<and>
     (\<forall>msg e w. wqs (snd (h_Notify h msg e w)) = wqs w)"

definition quiet_filter :: "('q, 'k, 'z) queue_world_scheme event_filter \<Rightarrow> bool" where
  "quiet_filter f \<longleftrightarrow> (\<forall>oper prev obj w. wqs (snd (f oper prev obj w)) = wqs w)"

definition quiet_request ::
  "registerer \<Rightarrow> ('q, 'k, 'z) queue_world_scheme request \<Rightarrow> bool" where
  "quiet_request rejects req = (case req of (name, h, rec, fs) \<Rightarrow>
     quiet_handler h \<and> (\<forall>f. Some f \<in> set fs \<longrightarrow> quiet_filter f) \<and>
     (\<exists>dr. rec = default_recorder_opt rejects dr))"

lemma quiet_And: "\<forall>f. Some f \<in> set fs \<longrightarrow> quiet_filter f \<Longrightarrow> quiet_filter (And fs)"
proof (induction fs)
  case (Cons x fs)
  then have IH: "quiet_filter (And fs)" by simp
  show ?case
  proof (cases x)
    case (Some f)
    with Cons.prems have "wqs (snd (f oper prev obj w)) = wqs w" for oper prev obj w
      by (auto simp: quiet_filter_def)
    with IH Some show ?thesis
      by (auto simp: quiet_filter_def split: prod.split bool.split) (metis snd_conv)+
  qed (use IH in \<open>simp add: quiet_filter_def\<close>)
qed (simp add: quiet_filter_def)

text \<open>An event handler and a processor on the queue at an address.\<close>

definition own_queue ::
  "('q, string) wq_ops \<Rightarrow> registerer \<Rightarrow> addr \<Rightarrow> ('q, string, 'z) queue_world_scheme ResourceEventHandler
     \<Rightarrow> ('q, string, 'z) queue_world_scheme Processor \<Rightarrow> bool" where
  "own_queue wq rejects a r p \<longleftrightarrow> (\<exists>q dr. rq_queue q = a \<and>
     reh_queue r = built_queue wq q (default_recorder_opt rejects dr) \<and> p_queue p = reh_queue r \<and>
     p_recorder p = default_recorder_opt rejects dr)"

definition quiet_pair ::
  "('q, string, 'z) queue_world_scheme ResourceEventHandler \<Rightarrow> ('q, string, 'z) queue_world_scheme Processor \<Rightarrow> bool" where
  "quiet_pair r p \<longleftrightarrow> quiet_handler (reh_handler r) \<and> quiet_handler (p_handler p) \<and>
     (\<forall>f. reh_filter r = Some f \<longrightarrow> quiet_filter f)"

definition serves_only ::
  "addr \<Rightarrow> ('q, string, 'z) queue_world_scheme ResourceEventHandler
     \<Rightarrow> ('q, string, 'z) queue_world_scheme Processor \<Rightarrow> bool" where
  "serves_only a r p \<longleftrightarrow>
     (\<forall>oper prev obj keyfn w. only_queue a w (snd (enqueue r oper prev obj keyfn w))) \<and>
     (\<forall>w res w'. Processor_process p w = Some (res, w') \<longrightarrow> only_queue a w w')"

lemma enqueue_own:
  assumes "own_queue wq rejects a r p" and "quiet_pair r p"
  shows "only_queue a w (snd (enqueue r oper prev obj keyfn w))"
proof -
  from assms(1) obtain q dr where q: "rq_queue q = a"
    "reh_queue r = built_queue wq q (default_recorder_opt rejects dr)"
    by (auto simp: own_queue_def)
  have add: "only_queue a w (q_Add (reh_queue r) k v)" "only_queue a w (q_AddAfter (reh_queue r) k d v)"
    if "wqs v = wqs w" for k d v
    using that q(1) by (simp_all add: q(2) only_queue_def built_wqs)
  have notify: "wqs (snd (h_Notify (reh_handler r) msg e w)) = wqs w" for msg e
    using assms(2) by (simp add: quiet_pair_def quiet_handler_def)
  obtain key err where key: "keyfn obj = (key, err)" by force
  show ?thesis
  proof (cases "reh_filter r")
    case None
    with key add(1) [of w] add(2) [of w] notify show ?thesis
      by (cases err) (auto simp: enqueue_def Let_def only_queue_wqs)
  next
    case (Some f)
    obtain pass v where f: "f oper (object prev) (object obj) w = (pass, v)" by force
    from assms(2) Some have "quiet_filter f" by (simp add: quiet_pair_def)
    then have "wqs (snd (f oper (object prev) (object obj) w)) = wqs w" by (simp add: quiet_filter_def)
    with f have v: "wqs v = wqs w" by simp
    from Some key f add [OF v] notify v show ?thesis
      by (cases err) (auto simp: enqueue_def Let_def only_queue_wqs)
  qed
qed

lemma process_own:
  fixes w :: "('q, string, 'z) queue_world_scheme"
  assumes "own_queue wq rejects a r p" and "quiet_pair r p" and "Processor_process p w = Some (res, w')"
  shows "only_queue a w w'"
proof -
  from assms(1) obtain q dr where q: "rq_queue q = a"
    and p: "p_queue p = built_queue wq q (default_recorder_opt rejects dr)" "p_recorder p = default_recorder_opt rejects dr"
    by (auto simp: own_queue_def)
  have h: "wqs (snd (h_Handle (p_handler p) obj v)) = wqs v" "wqs (snd (h_Notify (p_handler p) msg e v)) = wqs v"
    for obj msg e v using assms(2) by (simp_all add: quiet_pair_def quiet_handler_def)
  from assms(3) obtain key exit w1 where get: "q_Get (p_queue p) w = Some ((key, exit), w1)"
    by (auto simp: Processor_process_def Let_def split: option.splits)
  then have w1: "only_queue a w w1"
    using built_Get [of wq q rejects dr w key exit w1] p(1) q by (metis fun_upd_apply only_queue_def)
  show ?thesis
  proof (cases exit)
    case True
    with get assms(3) w1 show ?thesis by (simp add: process_pieces)
  next
    case False
    obtain r2 w2 where hd: "Processor_handle p key w1 = (r2, w2)" by force
    have "only_queue a w1 (snd (Processor_handle p key w1))"
      by (rule handle_invariant [where I = "only_queue a w1"])
        (auto simp: p(1) q only_queue_def built_wqs h alloc_def)
    with hd have w2: "only_queue a w1 w2" by simp
    from process_wqs [OF p _ hd, of w] get False obtain w3 where
      "Processor_process p w = Some (case r2 of Panic v \<Rightarrow> Panic v | Ret _ \<Rightarrow> Ret False, w3)"
      "wqs w3 = (wqs w2)(rq_queue q := finish_item wq key r2 (wqs w2 (rq_queue q)))" by auto
    with assms(3) q have "only_queue a w2 w'" by (simp add: only_queue_def)
    with w1 w2 show ?thesis by (blast intro: only_queue_trans)
  qed
qed

lemma serves_own:
  "own_queue wq rejects a r p \<Longrightarrow> quiet_pair r p \<Longrightarrow> serves_only a r p"
  unfolding serves_only_def by (blast intro: enqueue_own process_own)

subsection \<open>Following the allocations\<close>

text \<open>Foreign code may allocate, too, but it gives no address back.\<close>

definition allocates_only ::
  "(('q, string, 'z) queue_world_scheme, 'l) go \<Rightarrow> ('l, ('q, string, 'z) queue_world_scheme) controller \<Rightarrow> bool" where
  "allocates_only dl c \<longleftrightarrow>
     (\<forall>w. next_addr w \<le> next_addr (snd ((case cfg_RateLimiter (c_config c) of None \<Rightarrow> dl | Some f \<Rightarrow> f) w))) \<and>
     (\<forall>h d w. next_addr w \<le> next_addr (snd (inf_AddEventHandler (c_informer c) h d w)))"

lemma NewRateLimitedQueue_next_addr:
  assumes "NewRateLimitedQueue wq a name fresh n (default_recorder_opt rejects dr) w = Ret (queue, w')"
  shows "next_addr w' = next_addr w"
proof (cases dr)
  case None
  with assms show ?thesis by (auto simp: NewRateLimitedQueue_def Let_def)
next
  case (Some r)
  show ?thesis
  proof (cases "rec_RegisterLen (default_recorder rejects r) name (on_wq a (\<lambda>_. fresh) w)")
    case (Ret u)
    with assms Some have "w' = u\<lparr>queued := (queued u)(a := Map.empty)\<rparr>"
      by (simp add: NewRateLimitedQueue_def NewMonitorQueue_def NewRetryQueue_def retry_queue_def Let_def)
    with arg_cong [OF default_rec.RegisterLen_only [OF Ret], of next_addr] show ?thesis by simp
  qed (use assms Some in \<open>simp add: NewRateLimitedQueue_def NewMonitorQueue_def NewRetryQueue_def retry_queue_def Let_def\<close>)
qed

lemma AddHandler_allocates:
  assumes "AddHandler wq queue_of dl c name h (default_recorder_opt rejects dr) fs w = (Ret (res, c'), w')"
    and "allocates_only dl c"
  obtains (failed) "c' = c" and "next_addr w \<le> next_addr w'"
  | (added) a r p where "c' = c\<lparr>c_handler := c_handler c @ [r], c_processor := c_processor c @ [p]\<rparr>"
      and "next_addr w \<le> a" and "a < next_addr w'" and "own_queue wq rejects a r p"
      and "reh_handler r = h" and "p_handler p = h" and "reh_filter r = combine fs"
proof -
  let ?rec = "default_recorder_opt rejects dr"
  from assms(1) obtain l w1 a w2 queue w3 where steps:
    "(case cfg_RateLimiter (c_config c) of None \<Rightarrow> dl | Some f \<Rightarrow> f) w = (Ret l, w1)" "alloc w1 = (a, w2)"
    "NewRateLimitedQueue wq a name (queue_of l) (cfg_Retries (c_config c)) ?rec w2 = Ret (queue, w3)"
    by (auto simp: AddHandler_def Let_def split: prod.splits outcome.splits)
  let ?r = "NewResourceEventHandler h queue (cfg_Delay (c_config c)) fs"
  let ?p = "NewProcessor h (inf_GetIndexer (c_informer c)) (cfg_Workers (c_config c)) queue ?rec"
  from assms(2) have mono:
    "next_addr w \<le> next_addr (snd ((case cfg_RateLimiter (c_config c) of None \<Rightarrow> dl | Some f \<Rightarrow> f) w))"
    "next_addr w3 \<le> next_addr (snd (inf_AddEventHandler (c_informer c) ?r (cfg_Sync (c_config c)) w3))"
    by (simp_all add: allocates_only_def)
  from mono(1) steps(1) have w1: "next_addr w \<le> next_addr w1" by simp
  from steps(2) have a: "a = next_addr w1" "next_addr w2 = Suc a" by (auto simp: alloc_def)
  note w3 = NewRateLimitedQueue_next_addr [OF steps(3)]
  have own: "own_queue wq rejects a ?r ?p"
    using NewRateLimitedQueue_built [OF steps(3)]
    by (auto simp: own_queue_def intro!: exI [of _ "\<lparr>rq_name = name, rq_queue = a, rq_retries = cfg_Retries (c_config c)\<rparr>"]
        exI [of _ dr])
  from addHandler_cases [of c name ?r w3] show thesis
  proof (elim disjE exE conjE)
    fix e v
    assume "addHandler c name ?r w3 = ((Some (Error_New (next_addr v) ErrController
       ''event handler [name=%s, handler=%s] %w'' [AStr (cfg_Name (c_config c)), AStr name, AErr e]), c), snd (alloc v))"
      and v: "inf_AddEventHandler (c_informer c) ?r (cfg_Sync (c_config c)) w3 = (Some e, v)"
    with assms(1) steps have "c' = c" "w' = snd (alloc v)" by (simp_all add: AddHandler_def Let_def)
    moreover from mono(2) v have "next_addr w3 \<le> next_addr v" by simp
    ultimately show thesis using failed w1 w3 a by simp
  next
    fix v
    assume "addHandler c name ?r w3 = ((None, c\<lparr>c_handler := c_handler c @ [?r]\<rparr>), v)"
      and v: "inf_AddEventHandler (c_informer c) ?r (cfg_Sync (c_config c)) w3 = (None, v)"
    with assms(1) steps have "c' = c\<lparr>c_handler := c_handler c @ [?r], c_processor := c_processor c @ [?p]\<rparr>" "w' = v"
      by (simp_all add: AddHandler_def Let_def)
    moreover from mono(2) v have "next_addr w3 \<le> next_addr v" by simp
    ultimately show thesis using added [of ?p ?r a] own w1 w3 a by (simp add: NewResourceEventHandler_def)
  qed
qed

text \<open>Each handler with a queue of its own; the addresses are below the next one to be allocated.\<close>

definition apart ::
  "('q, string) wq_ops \<Rightarrow> registerer \<Rightarrow> addr list \<Rightarrow> ('l, ('q, string, 'z) queue_world_scheme) controller \<Rightarrow> bool" where
  "apart wq rejects addrs c \<longleftrightarrow> distinct addrs \<and>
     length (c_handler c) = length addrs \<and> length (c_processor c) = length addrs \<and>
     (\<forall>i < length addrs. own_queue wq rejects (addrs ! i) (c_handler c ! i) (c_processor c ! i) \<and>
        quiet_pair (c_handler c ! i) (c_processor c ! i))"

definition separated ::
  "('q, string) wq_ops \<Rightarrow> registerer \<Rightarrow> addr list \<Rightarrow> ('l, ('q, string, 'z) queue_world_scheme) controller
     \<Rightarrow> ('q, string, 'z) queue_world_scheme \<Rightarrow> bool" where
  "separated wq rejects addrs c w \<longleftrightarrow> apart wq rejects addrs c \<and> (\<forall>a \<in> set addrs. a < next_addr w)"

lemma separated_AddHandler:
  assumes "AddHandler wq queue_of dl c name h rec fs w = (Ret (res, c'), w')"
    and "quiet_request rejects (name, h, rec, fs)" and "allocates_only dl c" and "separated wq rejects addrs c w"
  shows "allocates_only dl c' \<and> (\<exists>addrs'. separated wq rejects addrs' c' w')"
proof -
  from assms(2) obtain dr where rec: "rec = default_recorder_opt rejects dr" and h: "quiet_handler h"
    and fs: "\<forall>f. Some f \<in> set fs \<longrightarrow> quiet_filter f"
    by (auto simp: quiet_request_def)
  from assms(1) [unfolded rec] assms(3) show ?thesis
  proof (cases rule: AddHandler_allocates)
    case failed
    with assms(3,4) show ?thesis by (auto simp: separated_def intro: order.strict_trans2)
  next
    case (added a r p)
    have "quiet_pair r p"
      using added h quiet_And [OF fs] by (auto simp: quiet_pair_def combine_def split: if_splits)
    moreover have "a \<notin> set addrs" "\<forall>x \<in> set addrs. x < next_addr w'"
      using added assms(4) by (auto simp: separated_def)
    ultimately have "separated wq rejects (addrs @ [a]) c' w'"
      using assms(4) added by (auto simp: separated_def apart_def nth_append less_Suc_eq)
    moreover have "allocates_only dl c'" using assms(3) added(1) by (simp add: allocates_only_def)
    ultimately show ?thesis by blast
  qed
qed

lemma separated_add_handlers:
  assumes "add_handlers wq queue_of dl reqs c w = (Ret (errs, c'), w')"
    and "\<forall>req \<in> set reqs. quiet_request rejects req" and "allocates_only dl c" and "separated wq rejects addrs c w"
  shows "\<exists>addrs'. separated wq rejects addrs' c' w'"
  using assms
proof (induction wq queue_of dl reqs c w arbitrary: errs c' w' addrs rule: add_handlers.induct)
  case (2 wq queue_of dl name h rec fs reqs c w)
  from "2.prems"(1) obtain err c1 w1 errs' where
    one: "AddHandler wq queue_of dl c name h rec fs w = (Ret (err, c1), w1)" and
    rest: "add_handlers wq queue_of dl reqs c1 w1 = (Ret (errs', c'), w')"
    by (auto split: prod.splits outcome.splits)
  from separated_AddHandler [OF one _ "2.prems"(3,4)] "2.prems"(2) obtain addrs' where
    "allocates_only dl c1" "separated wq rejects addrs' c1 w1" by auto
  from "2.IH" [OF one [symmetric] refl refl rest _ this] "2.prems"(2) show ?case by simp
qed auto

subsection \<open>Properties\<close>

text \<open>
  C21. Handlers of one controller do not disturb each other: after any \<open>AddHandler\<close> calls
  the accepted handlers have pairwise different queues, and an informer event delivered to
  one of them and a pass of its processor change no other queue, provided the handlers and
  filters themselves leave the queues alone, also if two handlers have the same name or are
  the same handler.
\<close>

theorem handlers_isolated:
  assumes "c0 = New_controller new_informer config retriever indexers" and "allocates_only dl c0"
    and "\<forall>req \<in> set reqs. quiet_request rejects req"
    and "add_handlers wq queue_of dl reqs c0 w = (Ret (errs, c), w')"
  shows "\<exists>addrs. distinct addrs \<and> length (c_handler c) = length addrs \<and> length (c_processor c) = length addrs \<and>
    (\<forall>i < length addrs. own_queue wq rejects (addrs ! i) (c_handler c ! i) (c_processor c ! i) \<and>
       serves_only (addrs ! i) (c_handler c ! i) (c_processor c ! i))"
proof -
  have "separated wq rejects [] c0 w" by (simp add: separated_def apart_def assms(1) New_controller_def)
  from separated_add_handlers [OF assms(4,3,2) this] obtain addrs where "separated wq rejects addrs c w'" by blast
  then show ?thesis unfolding separated_def apart_def by (blast intro: serves_own)
qed

subsection \<open>Witnesses\<close>

definition example_requests :: "(example_queue, string) kube_world request list" where
  "example_requests =
     [(''main'', example_handler fails, Some (default_recorder duplicates_only example_recorder), [Some GenerationChanged]),
      (''main'', example_handler fails, None, [])]"

definition example_retriever :: "(any, any, (example_queue, string) kube_world) retriever_ops" where
  "example_retriever = \<lparr>retr_List = (\<lambda>_ w. Ret ((Nil_any, None), w)), retr_Watch = (\<lambda>_ w. Ret ((Nil_any, None), w))\<rparr>"

abbreviation example_new :: "(example_queue, (example_queue, string) kube_world) controller" where
  "example_new \<equiv> New_controller (\<lambda>_ _ _ _. example_informer None) example_Config example_retriever Map.empty"

lemma example_new_simps [simp]:
  "c_config example_new = example_Config" "c_informer example_new = example_informer None"
  "c_handler example_new = []" "c_processor example_new = []"
  by (simp_all add: New_controller_def)

text \<open>The informer of the example accepts every handler.\<close>

lemma example_AddHandler:
  assumes "c_config c = example_Config" and "c_informer c = example_informer None"
    and "rec = None \<or> rec = Some (default_recorder duplicates_only r) \<and> collectors w = []"
  obtains c' w' where "AddHandler example_wq (\<lambda>l. l) dl c name h rec fs w = (Ret (None, c'), w')"
    and "c_config c' = example_Config" and "c_informer c' = example_informer None"
    and "length (c_handler c') = Suc (length (c_handler c))"
proof -
  have "duplicates_only [] x = None" for x by (simp add: duplicates_only_def)
  with assms have "\<exists>c' w'. AddHandler example_wq (\<lambda>l. l) dl c name h rec fs w = (Ret (None, c'), w') \<and>
    c_config c' = example_Config \<and> c_informer c' = example_informer None \<and>
    length (c_handler c') = Suc (length (c_handler c))"
    by (auto simp: AddHandler_def NewRateLimitedQueue_def NewMonitorQueue_def addHandler_def example_informer_def
        default_recorder_def RegisterLen_def alloc_def Let_def example_Config_def)
  then show thesis using that by blast
qed

lemma example_quiet: "quiet_handler (example_handler fails)"
  using new_handler.notify_frame(3) [of "[]" "\<lambda>_. True" fails "New 50 51 ''pods''"]
  by (simp add: quiet_handler_def example_handler_def) (simp add: NewHandler_def handler_Handle_def fails_def)

lemma example_requests_quiet: "\<forall>req \<in> set example_requests. quiet_request duplicates_only req"
proof -
  have "quiet_filter GenerationChanged" by (simp add: quiet_filter_def GenerationChanged_def split: option.split)
  moreover have "\<exists>dr. Some (default_recorder duplicates_only example_recorder) = default_recorder_opt duplicates_only dr"
    by (intro exI [of _ "Some example_recorder"]) simp
  moreover have "\<exists>dr. None = default_recorder_opt duplicates_only dr" by (intro exI [of _ None]) simp
  ultimately show ?thesis using example_quiet by (simp add: example_requests_def quiet_request_def)
qed

theorem handlers_isolated_witness:
  "\<exists>errs c w' a b. add_handlers example_wq (\<lambda>l. l) (\<lambda>w. (Ret ([], \<lambda>_. 0, False), w)) example_requests
       example_new (example_kube [] False) = (Ret (errs, c), w') \<and> a \<noteq> b \<and>
     serves_only a (c_handler c ! 0) (c_processor c ! 0) \<and> serves_only b (c_handler c ! 1) (c_processor c ! 1)"
proof -
  let ?dl = "\<lambda>w. (Ret ([], \<lambda>_. 0, False), w)"
  have "collectors (example_kube [] False) = []" by (simp add: example_kube_def)
  then obtain c1 w1 where one: "AddHandler example_wq (\<lambda>l. l) ?dl example_new ''main'' (example_handler fails)
      (Some (default_recorder duplicates_only example_recorder)) [Some GenerationChanged] (example_kube [] False) = (Ret (None, c1), w1)"
    and c1: "c_config c1 = example_Config" "c_informer c1 = example_informer None" "length (c_handler c1) = 1"
    by (rule example_AddHandler [OF example_new_simps(1,2) disjI2, OF conjI, OF refl]) simp
  obtain c w' where two: "AddHandler example_wq (\<lambda>l. l) ?dl c1 ''main'' (example_handler fails) None [] w1 = (Ret (None, c), w')"
    and c: "length (c_handler c) = 2"
    by (rule example_AddHandler [where dl = ?dl and name = "''main''" and h = "example_handler fails" and fs = "[]" and w = w1,
        OF c1(1,2) disjI1, OF refl]) (simp add: c1(3))
  have run: "add_handlers example_wq (\<lambda>l. l) ?dl example_requests example_new (example_kube [] False)
      = (Ret ([None, None], c), w')"
    by (simp add: example_requests_def one two)
  have "allocates_only ?dl example_new"
    unfolding allocates_only_def example_new_simps by (simp add: example_Config_def example_informer_def)
  from handlers_isolated [OF refl this example_requests_quiet run] c obtain addrs where
    "distinct addrs" "length addrs = 2"
    "\<forall>i < 2. serves_only (addrs ! i) (c_handler c ! i) (c_processor c ! i)" by auto
  then have "addrs ! 0 \<noteq> addrs ! 1" "serves_only (addrs ! 0) (c_handler c ! 0) (c_processor c ! 0)"
    "serves_only (addrs ! 1) (c_handler c ! 1) (c_processor c ! 1)"
    by (simp_all add: nth_eq_iff_index_eq)
  with run show ?thesis by blast
qed

end
