(* ===== verification/Live_Controller.thy ===== *)
theory Live_Controller
  imports Isolation
begin

section \<open>A running controller\<close>

text \<open>
  The goroutine of a controller's \<open>Run\<close> and the worker goroutines it starts, for all
  processors of the controller together, over one state of the program: the steps are
  those of \<open>run_main\<close> (theory \<open>Controllers\<close>) and \<open>worker_step\<close> (theory \<open>Workers\<close>), the
  additions of the event handlers, the cancellation of the context, and the rest of the
  program. Each processor has its workers and its history.
\<close>

subsection \<open>The goroutines together\<close>

record 's live =
  lv_run :: "'s run_state"
  lv_pools :: "worker list list"
  lv_crash :: "go_arg option"
  lv_hist :: "pool_event list list"

abbreviation lv_world :: "'s live \<Rightarrow> 's" where
  "lv_world s \<equiv> rs_world (lv_run s)"

definition pool_of :: "nat \<Rightarrow> 's live \<Rightarrow> 's pool" where
  "pool_of k s =
     \<lparr>pl_world = lv_world s, pl_workers = lv_pools s ! k, pl_done = rs_done (lv_run s),
      pl_crash = lv_crash s, pl_hist = lv_hist s ! k\<rparr>"

definition with_pool :: "nat \<Rightarrow> 's pool \<Rightarrow> 's live \<Rightarrow> 's live" where
  "with_pool k t s =
     s\<lparr>lv_run := (lv_run s)\<lparr>rs_world := pl_world t\<rparr>, lv_pools := (lv_pools s)[k := pl_workers t],
       lv_crash := pl_crash t, lv_hist := (lv_hist s)[k := pl_hist t]\<rparr>"

text \<open>A step of \<open>Run\<close> that started a worker puts it into the pool; a panic ends the program.\<close>

definition spawn_into :: "nat list \<Rightarrow> nat list \<Rightarrow> worker list list \<Rightarrow> worker list list" where
  "spawn_into old new pools =
     (if length old < length new then pools[last new := pools ! last new @ [Resting]] else pools)"

fun crash_of :: "run_phase \<Rightarrow> go_arg option" where
  "crash_of (Crashed v) = Some v"
| "crash_of _ = None"

definition after_main :: "'s run_state \<Rightarrow> 's live \<Rightarrow> 's live" where
  "after_main r s =
     s\<lparr>lv_run := r, lv_pools := spawn_into (rs_workers (lv_run s)) (rs_workers r) (lv_pools s),
       lv_crash := crash_of (rs_phase r)\<rparr>"

definition enqueued_at :: "nat \<Rightarrow> string \<Rightarrow> 's \<Rightarrow> 's live \<Rightarrow> 's live" where
  "enqueued_at k key w s =
     s\<lparr>lv_run := (lv_run s)\<lparr>rs_world := w\<rparr>, lv_hist := (lv_hist s)[k := Enqueued key # lv_hist s ! k]\<rparr>"

inductive live_step ::
  "('z go_world_scheme \<Rightarrow> 'z go_world_scheme \<Rightarrow> bool) \<Rightarrow> 'z go_world_scheme Processor list
     \<Rightarrow> 'z go_world_scheme live \<Rightarrow> 'z go_world_scheme live \<Rightarrow> bool"
  for env ps where
  live_main: "lv_crash s = None \<Longrightarrow> run_main ps (lv_run s) r \<Longrightarrow> live_step env ps s (after_main r s)"
| live_worker: "lv_crash s = None \<Longrightarrow> k < length ps \<Longrightarrow> worker_step (ps ! k) i (pool_of k s) t \<Longrightarrow>
    live_step env ps s (with_pool k t s)"
| live_add: "lv_crash s = None \<Longrightarrow> k < length ps \<Longrightarrow>
    live_step env ps s (enqueued_at k key (q_Add (p_queue (ps ! k)) key (lv_world s)) s)"
| live_add_after: "lv_crash s = None \<Longrightarrow> k < length ps \<Longrightarrow>
    live_step env ps s (enqueued_at k key (q_AddAfter (p_queue (ps ! k)) key delay (lv_world s)) s)"
| live_cancel: "lv_crash s = None \<Longrightarrow> live_step env ps s (s\<lparr>lv_run := (lv_run s)\<lparr>rs_done := True\<rparr>\<rparr>)"
| live_others: "lv_crash s = None \<Longrightarrow> env (lv_world s) w \<Longrightarrow>
    live_step env ps s (s\<lparr>lv_run := (lv_run s)\<lparr>rs_world := w\<rparr>\<rparr>)"

definition live_start :: "'s Processor list \<Rightarrow> 's \<Rightarrow> 's live \<Rightarrow> bool" where
  "live_start ps w s \<longleftrightarrow> run_start (lv_run s) \<and> lv_world s = w \<and> \<not> rs_done (lv_run s) \<and>
     lv_pools s = replicate (length ps) [] \<and> lv_crash s = None \<and> lv_hist s = replicate (length ps) []"

definition live_controller ::
  "('z go_world_scheme \<Rightarrow> 'z go_world_scheme \<Rightarrow> bool) \<Rightarrow> ('l, 'z go_world_scheme) controller
     \<Rightarrow> 'z go_world_scheme \<Rightarrow> 'z go_world_scheme live \<Rightarrow> bool" where
  "live_controller env c w = reach (live_start (c_processor c) w) (live_step env (c_processor c))"

subsection \<open>Handlers after the first\<close>

lemma run_main_done: "run_main ps r r' \<Longrightarrow> rs_done r' = rs_done r"
  by (erule run_main.cases) auto

lemma run_main_workers:
  assumes "run_inv ps r" and "run_main ps r r'"
  obtains (same) "rs_workers r' = rs_workers r"
  | (spawned) "rs_workers r' = rs_workers r @ [rs_index r]" and "rs_index r < length ps"
      and "int (count_list (rs_workers r) (rs_index r)) < p_workers (ps ! rs_index r)"
      and "rs_world r' = rs_world r" and "rs_phase r' = Spawn (Suc (count_list (rs_workers r) (rs_index r)))"
  using assms(2)
proof cases
  case (spawn n)
  with run_inv_current [OF assms(1)] have "count_list (rs_workers r) (rs_index r) = n" by (simp split: if_splits)
  moreover have "rs_index r < length ps" using assms(1) spawn by (simp add: run_inv_def)
  ultimately show thesis using spawn by (intro spawned) simp_all
qed (simp_all add: same)

text \<open>
  The invariant: the pools hold the started workers, and the workers of the later
  processors have done nothing but leave.
\<close>

definition idle_pool :: "'s live \<Rightarrow> nat \<Rightarrow> bool" where
  "idle_pool s k \<longleftrightarrow> set (lv_pools s ! k) \<subseteq> {Resting, Exited} \<and>
     (\<forall>e \<in> set (lv_hist s ! k). \<exists>key. e = Enqueued key)"

definition live_inv :: "'s Processor list \<Rightarrow> 's live \<Rightarrow> bool" where
  "live_inv ps s \<longleftrightarrow> run_inv ps (lv_run s) \<and>
     length (lv_pools s) = length ps \<and> length (lv_hist s) = length ps \<and>
     (\<forall>k < length ps. length (lv_pools s ! k) = count_list (rs_workers (lv_run s)) k) \<and>
     (\<forall>k < length ps. 0 < k \<longrightarrow> idle_pool s k)"

lemma after_main_inv:
  assumes inv: "live_inv ps s" and main: "run_main ps (lv_run s) r"
  shows "live_inv ps (after_main r s)"
proof -
  from inv have run: "run_inv ps (lv_run s)" by (simp add: live_inv_def)
  from run_inv_main [OF run main] have "run_inv ps r" .
  with run main show ?thesis
  proof (cases rule: run_main_workers)
    case same
    with inv \<open>run_inv ps r\<close> show ?thesis
      by (simp add: live_inv_def after_main_def spawn_into_def idle_pool_def)
  next
    case spawned
    with inv \<open>run_inv ps r\<close> show ?thesis
      by (auto simp: live_inv_def after_main_def spawn_into_def idle_pool_def nth_list_update)
  qed
qed

text \<open>A worker of a later processor only ever sees a context that is done.\<close>

lemma later_done:
  assumes "live_inv ps s" and "0 < k" and "k < length ps" and "lv_pools s ! k \<noteq> []"
  shows "rs_done (lv_run s)"
proof -
  from assms(1,3) have "length (lv_pools s ! k) = count_list (rs_workers (lv_run s)) k" by (simp add: live_inv_def)
  with assms(4) have "count_list (rs_workers (lv_run s)) k \<noteq> 0" by (metis length_0_conv)
  with assms(1,2) show ?thesis
    by (auto simp: live_inv_def run_inv_def dest: spec [of _ k] split: if_splits)
qed

lemma with_pool_inv:
  assumes inv: "live_inv ps s" and k: "k < length ps" and step: "worker_step p i (pool_of k s) t"
  shows "live_inv ps (with_pool k t s)"
proof -
  have "idle_pool (with_pool k t s) k" if "0 < k"
  proof -
    from inv k that have idle: "idle_pool s k" by (simp add: live_inv_def)
    then have ws: "x \<in> set (lv_pools s ! k) \<Longrightarrow> x = Resting \<or> x = Exited" for x by (auto simp: idle_pool_def)
    have len: "k < length (lv_pools s)" "k < length (lv_hist s)" using inv k by (simp_all add: live_inv_def)
    from step show ?thesis
    proof cases
      case enter
      then have "lv_pools s ! k \<noteq> []" by (auto simp: pool_of_def)
      with later_done [OF inv that k] enter show ?thesis by (simp add: pool_of_def)
    next
      case leave
      with idle len show ?thesis
        by (auto simp: idle_pool_def with_pool_def pool_of_def dest: set_update_subset_insert [THEN subsetD])
    qed (use ws nth_mem in \<open>fastforce simp: pool_of_def\<close>)+
  qed
  moreover have "idle_pool (with_pool k t s) j = idle_pool s j" if "j \<noteq> k" for j
    using that by (simp add: idle_pool_def with_pool_def)
  ultimately have "\<forall>j < length ps. 0 < j \<longrightarrow> idle_pool (with_pool k t s) j"
    using inv by (metis live_inv_def)
  moreover have "run_inv ps (lv_run (with_pool k t s))"
    using inv by (simp add: live_inv_def with_pool_def run_inv_def)
  moreover have "length (lv_pools (with_pool k t s) ! j) = length (lv_pools s ! j)" for j
    using worker_step_frame(2) [OF step] inv k by (cases "j = k") (simp_all add: with_pool_def pool_of_def live_inv_def)
  ultimately show ?thesis using inv unfolding live_inv_def by (simp add: with_pool_def)
qed

lemma live_inv_step:
  assumes "live_inv ps s" and "live_step env ps s t"
  shows "live_inv ps t"
  using assms(2)
proof cases
  case (live_main r)
  with assms(1) show ?thesis by (simp add: after_main_inv)
next
  case (live_worker k i u)
  with assms(1) show ?thesis by (simp add: with_pool_inv)
qed (use assms(1) in \<open>auto simp: live_inv_def enqueued_at_def run_inv_def idle_pool_def nth_list_update\<close>)

interpretation live: step_invariant "live_start ps w" "live_step env ps" "live_inv ps" for env ps w
proof
  fix s t :: "'a go_world_scheme live"
  show "live_start ps w s \<Longrightarrow> live_inv ps s"
    using run.inv_start [of "lv_run s" ps] by (auto simp: live_start_def live_inv_def run_start_def idle_pool_def)
  show "live_inv ps s \<Longrightarrow> live_step env ps s t \<Longrightarrow> live_inv ps t" by (rule live_inv_step)
qed

subsection \<open>Each handler's pool in the running controller\<close>

text \<open>
  The pool of a processor as the theory \<open>Workers\<close> sees it: the workers that \<open>Run\<close> has not
  started yet rest, and the steps of all other goroutines are those of the rest of the
  program, which leave the queue alone.
\<close>

definition pool_view :: "'s Processor list \<Rightarrow> nat \<Rightarrow> 's live \<Rightarrow> 's pool" where
  "pool_view ps k s =
     (pool_of k s)\<lparr>pl_workers := lv_pools s ! k @
        replicate (nat (p_workers (ps ! k)) - length (lv_pools s ! k)) Resting\<rparr>"

definition keeps :: "addr \<Rightarrow> ('q, 'k, 'z) queue_world_scheme \<Rightarrow> ('q, 'k, 'z) queue_world_scheme \<Rightarrow> bool" where
  "keeps a u v \<longleftrightarrow> wqs v a = wqs u a"

lemma keeps_other: "only_queue b u v \<Longrightarrow> a \<noteq> b \<Longrightarrow> keeps a u v"
  by (simp add: keeps_def only_queue_def)

lemma worker_step_append:
  assumes "worker_step p i s t"
  shows "worker_step p i (s\<lparr>pl_workers := pl_workers s @ ws\<rparr>) (t\<lparr>pl_workers := pl_workers t @ ws\<rparr>)"
  using assms
proof cases
  case enter
  then show ?thesis using worker_step.enter [of i "s\<lparr>pl_workers := pl_workers s @ ws\<rparr>" p]
    by (cases s) (simp add: nth_append list_update_append)
next
  case leave
  then show ?thesis using worker_step.leave [of i "s\<lparr>pl_workers := pl_workers s @ ws\<rparr>" p]
    by (cases s) (simp add: nth_append list_update_append)
next
  case begin_process
  then show ?thesis using worker_step.begin_process [of i "s\<lparr>pl_workers := pl_workers s @ ws\<rparr>" p]
    by (cases s) (simp add: nth_append list_update_append)
next
  case (get start key w)
  then show ?thesis using worker_step.get [of i "s\<lparr>pl_workers := pl_workers s @ ws\<rparr>" start p key w]
    by (cases s) (simp add: nth_append list_update_append)
next
  case (get_exit start key w)
  then show ?thesis using worker_step.get_exit [of i "s\<lparr>pl_workers := pl_workers s @ ws\<rparr>" start p key w]
    by (cases s) (simp add: nth_append list_update_append)
next
  case (call key start c w)
  then show ?thesis using worker_step.call [of i "s\<lparr>pl_workers := pl_workers s @ ws\<rparr>" key start p c w]
    by (cases s) (simp add: nth_append list_update_append)
next
  case (follow key start c err w)
  then show ?thesis using worker_step.follow [of i "s\<lparr>pl_workers := pl_workers s @ ws\<rparr>" key start c p err w]
    by (cases s) (simp add: nth_append list_update_append)
next
  case (follow_panic key start c v w)
  then show ?thesis using worker_step.follow_panic [of i "s\<lparr>pl_workers := pl_workers s @ ws\<rparr>" key start c p v w]
    by (cases s) (simp add: nth_append list_update_append)
next
  case (finish key start err)
  then show ?thesis using worker_step.finish [of i "s\<lparr>pl_workers := pl_workers s @ ws\<rparr>" key start err p]
    by (cases s) (simp add: nth_append list_update_append)
qed

lemma worker_step_only:
  fixes s :: "('q, string, 'z) queue_world_scheme pool"
  assumes "own_queue wq rejects a r p" and "quiet_handler (p_handler p)" and "worker_step p i s t"
  shows "only_queue a (pl_world s) (pl_world t)"
proof -
  from assms(1) obtain q dr where q: "rq_queue q = a"
    and p: "p_queue p = built_queue wq q (default_recorder_opt rejects dr)" "p_recorder p = default_recorder_opt rejects dr"
    by (auto simp: own_queue_def)
  have h: "wqs (snd (h_Handle (p_handler p) obj v)) = wqs v" "wqs (snd (h_Notify (p_handler p) msg e v)) = wqs v"
    for obj msg e v using assms(2) by (simp_all add: quiet_handler_def)
  have got: "only_queue a u v" if "q_Get (p_queue p) u = Some (x, v)" for u v x
    using that built_Get [of wq q rejects dr u "fst x" "snd x" v] p(1) q by (metis fun_upd_apply only_queue_def prod.collapse)
  have called: "only_queue a u (snd (handle_call p key u))" for key u
    by (rule call_invariant [where I = "only_queue a u"]) (auto simp: only_queue_def h alloc_def)
  have rest: "only_queue a u (snd (handle_rest p key c u))" for key c u
    by (rule rest_invariant [where I = "only_queue a u"]) (auto simp: p(1) q only_queue_def built_wqs h alloc_def)
  from assms(3) show ?thesis
  proof cases
    case (get start key w)
    then show ?thesis using got by auto
  next
    case (get_exit start key w)
    then show ?thesis using got by auto
  next
    case (call key start c w)
    then show ?thesis using called [of "pl_world s" key] by simp
  next
    case (follow key start c err w)
    then show ?thesis using rest [of "pl_world s" key c] by simp
  next
    case (follow_panic key start c v w)
    then show ?thesis using rest [of "pl_world s" key c] by (simp add: p(1) q retry_defs only_queue_def)
  next
    case (finish key start err)
    then show ?thesis by (simp add: wqs_process_end [OF p] q only_queue_def)
  qed simp_all
qed

text \<open>The steps of the rest of the program between two states of a pool.\<close>

lemma pool_drift:
  assumes "pl_crash u = None" and "keeps a (pl_world u) w"
  shows "(pool_step (keeps a) p)\<^sup>*\<^sup>* u (u\<lparr>pl_world := w, pl_crash := c\<rparr>)"
proof -
  let ?v = "u\<lparr>pl_world := w\<rparr>"
  have "pool_step (keeps a) p u ?v" using assms by (rule pool_step.others)
  moreover have "(pool_step (keeps a) p)\<^sup>*\<^sup>* ?v (?v\<lparr>pl_crash := c\<rparr>)"
  proof (cases c)
    case None
    with assms(1) have "?v\<lparr>pl_crash := c\<rparr> = ?v" by simp
    then show ?thesis by simp
  next
    case (Some x)
    with pool_step.crash [of ?v "keeps a" p x] assms(1) show ?thesis by (simp add: r_into_rtranclp)
  qed
  ultimately show ?thesis by simp
qed

lemma pool_shut_drift:
  assumes "pl_crash u = None" and "keeps a (pl_world u) w"
  shows "(pool_step (keeps a) p)\<^sup>*\<^sup>* u (u\<lparr>pl_world := q_ShutDown (p_queue p) w, pl_crash := c\<rparr>)"
proof -
  let ?v = "u\<lparr>pl_world := w\<rparr>"
  let ?x = "u\<lparr>pl_world := q_ShutDown (p_queue p) w\<rparr>"
  have "pool_step (keeps a) p u ?v" using assms by (rule pool_step.others)
  moreover have "pool_step (keeps a) p ?v ?x" using pool_step.shutdown [of ?v "keeps a" p] assms(1) by simp
  moreover have "(pool_step (keeps a) p)\<^sup>*\<^sup>* ?x (?x\<lparr>pl_world := pl_world ?x, pl_crash := c\<rparr>)"
    using assms(1) by (intro pool_drift) (simp_all add: keeps_def)
  ultimately show ?thesis by simp
qed

lemma pool_view_after_main:
  assumes "live_inv ps s" and "run_main ps (lv_run s) r" and "k < length ps"
  shows "pool_view ps k (after_main r s) =
    (pool_view ps k s)\<lparr>pl_world := rs_world r, pl_crash := crash_of (rs_phase r)\<rparr>"
proof -
  note fin = run_main_done [OF assms(2)]
  from assms(1) have "run_inv ps (lv_run s)" by (simp add: live_inv_def)
  then show ?thesis using assms(2)
  proof (cases rule: run_main_workers)
    case same
    with fin show ?thesis by (simp add: pool_view_def pool_of_def after_main_def spawn_into_def)
  next
    case spawned
    let ?j = "rs_index (lv_run s)"
    let ?n = "nat (p_workers (ps ! ?j))"
    from assms(1) spawned have "length (lv_pools s ! ?j) = count_list (rs_workers (lv_run s)) ?j" "?j < length (lv_pools s)"
      by (auto simp: live_inv_def)
    moreover from this spawned(3) have "?n - length (lv_pools s ! ?j) = Suc (?n - Suc (length (lv_pools s ! ?j)))" by linarith
    ultimately show ?thesis using fin spawned
      by (cases "k = ?j") (simp_all add: pool_view_def pool_of_def after_main_def spawn_into_def)
  qed
qed

lemma run_main_effect:
  assumes "run_main ps r r'"
  shows "\<exists>u. (u = rs_world r \<or> (\<exists>msg. u = snd (h_Notify (p_handler (current ps r)) msg None (rs_world r)))) \<and>
    (rs_world r' = u \<or> rs_world r' = q_ShutDown (p_queue (current ps r)) u)"
proof -
  let ?N = "\<lambda>msg. snd (h_Notify (p_handler (current ps r)) msg None (rs_world r))"
  let ?Q = "q_ShutDown (p_queue (current ps r))"
  from assms have "rs_world r' \<in> {rs_world r, ?N ''starting processor'', ?Q (?N ''starting processor''),
      ?Q (?N ''stopping processor'')}"
    by cases simp_all
  then show ?thesis by blast
qed

text \<open>One step of the running controller, seen from the pool of a processor.\<close>

lemma live_step_view:
  fixes s :: "('q, string, 'z) queue_world_scheme live"
  assumes apart: "apart wq rejects addrs c" and k: "k < length (c_processor c)"
    and env: "\<And>u v. env u v \<Longrightarrow> keeps (addrs ! k) u v"
    and inv: "live_inv (c_processor c) s" and step: "live_step env (c_processor c) s t"
  shows "(pool_step (keeps (addrs ! k)) (c_processor c ! k))\<^sup>*\<^sup>*
    (pool_view (c_processor c) k s) (pool_view (c_processor c) k t)"
proof -
  let ?ps = "c_processor c"
  let ?a = "addrs ! k"
  let ?u = "pool_view ?ps k s"
  have own: "own_queue wq rejects (addrs ! j) (c_handler c ! j) (?ps ! j)" "quiet_handler (p_handler (?ps ! j))"
    "j \<noteq> k \<Longrightarrow> addrs ! j \<noteq> ?a" if "j < length ?ps" for j
    using apart that k by (auto simp: apart_def quiet_pair_def nth_eq_iff_index_eq)
  have wqs_own: "wqs (q_Add (p_queue (?ps ! j)) key w) ?a = wqs w ?a"
    "wqs (q_AddAfter (p_queue (?ps ! j)) key d w) ?a = wqs w ?a"
    "wqs (q_ShutDown (p_queue (?ps ! j)) w) ?a = wqs w ?a" if "j < length ?ps" "j \<noteq> k" for j key d w
    using own [OF that(1)] that(2) by (auto simp: own_queue_def built_wqs)
  have len: "k < length (lv_pools s)" "k < length (lv_hist s)" using inv k by (simp_all add: live_inv_def)
  from step show ?thesis
  proof cases
    case (live_main r)
    let ?j = "rs_index (lv_run s)"
    have j: "?j < length ?ps"
      using live_main(3) inv by cases (auto simp: live_inv_def run_inv_def)
    from live_main have crash: "pl_crash ?u = None" by (simp add: pool_view_def pool_of_def)
    from run_main_effect [OF live_main(3)] obtain w where
      u: "w = lv_world s \<or> (\<exists>msg. w = snd (h_Notify (p_handler (?ps ! ?j)) msg None (lv_world s)))"
      and r: "rs_world r = w \<or> rs_world r = q_ShutDown (p_queue (?ps ! ?j)) w" by blast
    from u own(2) [OF j] have w: "keeps ?a (lv_world s) w" by (auto simp: keeps_def quiet_handler_def)
    have view: "pool_view ?ps k t = ?u\<lparr>pl_world := rs_world r, pl_crash := crash_of (rs_phase r)\<rparr>"
      unfolding live_main(1) by (rule pool_view_after_main [OF inv live_main(3) k])
    from w have w': "keeps ?a (pl_world ?u) w" by (simp add: pool_view_def pool_of_def)
    show ?thesis
    proof (cases "rs_world r = w \<or> ?j \<noteq> k")
      case True
      with r w' wqs_own(3) [OF j] have "keeps ?a (pl_world ?u) (rs_world r)" by (auto simp: keeps_def)
      then show ?thesis unfolding view by (rule pool_drift [OF crash])
    next
      case False
      with r have "rs_world r = q_ShutDown (p_queue (?ps ! k)) w" by auto
      with pool_shut_drift [OF crash w', of "?ps ! k" "crash_of (rs_phase r)"] show ?thesis unfolding view by simp
    qed
  next
    case (live_worker j i u)
    show ?thesis
    proof (cases "j = k")
      case True
      let ?ws = "replicate (nat (p_workers (?ps ! k)) - length (lv_pools s ! k)) Resting"
      from worker_step_append [OF live_worker(4), of ?ws] worker_step_frame(1,2) [OF live_worker(4)] True len live_worker(1)
      have "worker_step (?ps ! k) i ?u (pool_view ?ps k t)"
        by (simp add: pool_view_def with_pool_def pool_of_def) (cases u, simp)
      with live_worker(2) show ?thesis
        by (intro r_into_rtranclp pool_step.worker) (simp_all add: pool_view_def pool_of_def)
    next
      case False
      have "only_queue (addrs ! j) (lv_world s) (pl_world u)"
        using worker_step_only [OF own(1,2) [OF live_worker(3)] live_worker(4)] by (simp add: pool_of_def)
      then have "keeps ?a (pl_world ?u) (pl_world u)"
        using own(3) [OF live_worker(3) False] by (intro keeps_other) (auto simp: pool_view_def pool_of_def)
      moreover have "pool_view ?ps k t = ?u\<lparr>pl_world := pl_world u, pl_crash := pl_crash u\<rparr>"
        using live_worker(1) worker_step_frame(1) [OF live_worker(4)] False
        by (simp add: pool_view_def with_pool_def pool_of_def)
      moreover have "pl_crash ?u = None" using live_worker(2) by (simp add: pool_view_def pool_of_def)
      ultimately show ?thesis by (simp only: pool_drift)
    qed
  next
    case (live_add j key)
    show ?thesis
    proof (cases "j = k")
      case True
      with live_add len pool_step.add [of ?u "keeps ?a" "?ps ! k" key] show ?thesis
        by (intro r_into_rtranclp) (simp add: pool_view_def enqueued_at_def pool_of_def)
    next
      case False
      have "pool_view ?ps k t = ?u\<lparr>pl_world := q_Add (p_queue (?ps ! j)) key (lv_world s), pl_crash := None\<rparr>"
        using live_add False by (simp add: pool_view_def enqueued_at_def pool_of_def)
      moreover have "pl_crash ?u = None" "keeps ?a (pl_world ?u) (q_Add (p_queue (?ps ! j)) key (lv_world s))"
        using live_add wqs_own(1) [OF _ False] by (simp_all add: pool_view_def pool_of_def keeps_def)
      ultimately show ?thesis by (simp only: pool_drift)
    qed
  next
    case (live_add_after j key d)
    show ?thesis
    proof (cases "j = k")
      case True
      with live_add_after len pool_step.add_after [of ?u "keeps ?a" "?ps ! k" key d] show ?thesis
        by (intro r_into_rtranclp) (simp add: pool_view_def enqueued_at_def pool_of_def)
    next
      case False
      have "pool_view ?ps k t = ?u\<lparr>pl_world := q_AddAfter (p_queue (?ps ! j)) key d (lv_world s), pl_crash := None\<rparr>"
        using live_add_after False by (simp add: pool_view_def enqueued_at_def pool_of_def)
      moreover have "pl_crash ?u = None" "keeps ?a (pl_world ?u) (q_AddAfter (p_queue (?ps ! j)) key d (lv_world s))"
        using live_add_after wqs_own(2) [OF _ False] by (simp_all add: pool_view_def pool_of_def keeps_def)
      ultimately show ?thesis by (simp only: pool_drift)
    qed
  next
    case live_cancel
    with pool_step.cancel [of ?u "keeps ?a" "?ps ! k"] show ?thesis
      by (intro r_into_rtranclp) (simp add: pool_view_def pool_of_def)
  next
    case (live_others w)
    with env pool_step.others [of ?u "keeps ?a" w "?ps ! k"] show ?thesis
      by (intro r_into_rtranclp) (simp add: pool_view_def pool_of_def)
  qed
qed

lemma live_pool:
  fixes s :: "('q, string, 'z) queue_world_scheme live"
  assumes apart: "apart wq rejects addrs c" and k: "k < length (c_processor c)"
    and env: "\<And>u v. env u v \<Longrightarrow> keeps (addrs ! k) u v"
    and live: "live_controller env c w s"
  shows "worker_pool (keeps (addrs ! k)) (c_processor c ! k) w (pool_view (c_processor c) k s)"
  using live unfolding live_controller_def worker_pool_def
proof (induction rule: reach.induct)
  case (reach_start s)
  with k have "pool_start (c_processor c ! k) w (pool_view (c_processor c) k s)"
    by (simp add: live_start_def pool_start_def pool_view_def pool_of_def)
  then show ?case by (rule reach.reach_start)
next
  case (reach_step s t)
  from live_step_view [OF apart k env live.reach_inv [OF reach_step(1)] reach_step(2)] reach_step.IH
  show ?case by (rule reach_steps)
qed

lemma live_steps_view:
  fixes s :: "('q, string, 'z) queue_world_scheme live"
  assumes apart: "apart wq rejects addrs c" and k: "k < length (c_processor c)"
    and env: "\<And>u v. env u v \<Longrightarrow> keeps (addrs ! k) u v"
    and steps: "(live_step env (c_processor c))\<^sup>*\<^sup>* s t" and inv: "live_inv (c_processor c) s"
  shows "(pool_step (keeps (addrs ! k)) (c_processor c ! k))\<^sup>*\<^sup>*
    (pool_view (c_processor c) k s) (pool_view (c_processor c) k t)"
  using steps
proof (induction rule: rtranclp_induct)
  case (step t u)
  from live.steps_inv [OF step.hyps(1) inv] have "live_inv (c_processor c) t" .
  from live_step_view [OF apart k env this step.hyps(2)] step.IH show ?case by (meson rtranclp_trans)
qed simp

text \<open>A running controller uses no queue but those of its processors.\<close>

lemma apart_wqs:
  assumes "apart wq rejects addrs c" and "a \<notin> set addrs" and "j < length (c_processor c)"
  shows "wqs (q_Add (p_queue (c_processor c ! j)) key w) a = wqs w a"
    and "wqs (q_AddAfter (p_queue (c_processor c ! j)) key d w) a = wqs w a"
    and "wqs (q_ShutDown (p_queue (c_processor c ! j)) w) a = wqs w a"
proof -
  have "own_queue wq rejects (addrs ! j) (c_handler c ! j) (c_processor c ! j)" "addrs ! j \<noteq> a"
    using assms by (auto simp: apart_def)
  then show "wqs (q_Add (p_queue (c_processor c ! j)) key w) a = wqs w a"
    "wqs (q_AddAfter (p_queue (c_processor c ! j)) key d w) a = wqs w a"
    "wqs (q_ShutDown (p_queue (c_processor c ! j)) w) a = wqs w a"
    by (auto simp: own_queue_def built_wqs)
qed

lemma live_step_keeps:
  fixes s :: "('q, string, 'z) queue_world_scheme live"
  assumes apart: "apart wq rejects addrs c" and a: "a \<notin> set addrs"
    and env: "\<And>u v. env u v \<Longrightarrow> keeps a u v"
    and inv: "live_inv (c_processor c) s" and step: "live_step env (c_processor c) s t"
  shows "keeps a (lv_world s) (lv_world t)"
proof -
  let ?ps = "c_processor c"
  have own: "own_queue wq rejects (addrs ! j) (c_handler c ! j) (?ps ! j)" "quiet_handler (p_handler (?ps ! j))"
    "addrs ! j \<noteq> a" if "j < length ?ps" for j
    using apart that a by (auto simp: apart_def quiet_pair_def)
  note wqs_own = apart_wqs [OF apart a]
  from step show ?thesis
  proof cases
    case (live_main r)
    have j: "rs_index (lv_run s) < length ?ps"
      using live_main(3) inv by cases (auto simp: live_inv_def run_inv_def)
    from run_main_effect [OF live_main(3)] own(2) [OF j] wqs_own(3) [OF j] live_main(1) show ?thesis
      by (auto simp: keeps_def quiet_handler_def after_main_def)
  next
    case (live_worker j i u)
    with worker_step_only [OF own(1,2) [OF live_worker(3)] live_worker(4)] own(3) [OF live_worker(3)] show ?thesis
      by (auto simp: keeps_def only_queue_def with_pool_def pool_of_def)
  next
    case (live_add j key)
    with wqs_own(1) show ?thesis by (simp add: keeps_def enqueued_at_def)
  next
    case (live_add_after j key d)
    with wqs_own(2) show ?thesis by (simp add: keeps_def enqueued_at_def)
  next
    case live_cancel
    then show ?thesis by (simp add: keeps_def)
  next
    case (live_others w)
    with env show ?thesis by simp
  qed
qed

text \<open>An informer event is an addition to the queue of its handler.\<close>

lemma live_enqueue:
  fixes s :: "('q, string, 'z) queue_world_scheme live"
  assumes "reh_queue r = p_queue (ps ! k)" and "keyfn obj = (key, None)" and "lv_crash s = None" and "k < length ps"
    and "case reh_filter r of None \<Rightarrow> v = lv_world s
       | Some f \<Rightarrow> f oper (object prev) (object obj) (lv_world s) = (True, v) \<and> env (lv_world s) v"
    and "enqueue r oper prev obj keyfn (lv_world s) = (res, w)"
  shows "(live_step env ps)\<^sup>*\<^sup>* s (enqueued_at k key w s)"
proof -
  let ?s = "s\<lparr>lv_run := (lv_run s)\<lparr>rs_world := v\<rparr>\<rparr>"
  have filtered: "(live_step env ps)\<^sup>*\<^sup>* s ?s"
  proof (cases "reh_filter r")
    case (Some f)
    with assms(3,5) have "live_step env ps s ?s" by (intro live_others) simp_all
    then show ?thesis ..
  qed (use assms(5) in simp)
  have same: "enqueued_at k key x ?s = enqueued_at k key x s" for x by (simp add: enqueued_at_def)
  have "w = q_Add (p_queue (ps ! k)) key v \<or> (\<exists>d. w = q_AddAfter (p_queue (ps ! k)) key d v)"
    using assms by (auto simp: enqueue_def Let_def split: option.splits if_splits)
  then have "live_step env ps ?s (enqueued_at k key w s)"
    using live_add [of ?s k ps env key] live_add_after [of ?s k ps env key] assms(3,4) by (auto simp: same)
  with filtered show ?thesis by (rule rtranclp.rtrancl_into_rtrancl)
qed

subsection \<open>Shutting down\<close>

text \<open>A queue that is shut down stays so, whatever is called on it.\<close>

definition closes :: "('q, 'k) wq_ops \<Rightarrow> ('q \<Rightarrow> bool) \<Rightarrow> ('q \<Rightarrow> nat) \<Rightarrow> bool" where
  "closes wq shut left \<longleftrightarrow> winds_down wq shut left \<and> (\<forall>k q. shut q \<longrightarrow> shut (wq_Add wq k q)) \<and>
     (\<forall>q. shut (wq_ShutDown wq q))"

lemma worker_step_shut:
  fixes s :: "('q, string, 'z) queue_world_scheme pool"
  assumes down: "winds_down wq shut left" and respects: "respects_shutdown shut left (rq_queue q) (p_handler p)"
    and p: "p_queue p = built_queue wq q (default_recorder_opt rejects dr)"
      "p_recorder p = default_recorder_opt rejects dr"
    and s: "shut (wqs (pl_world s) (rq_queue q))" and step: "worker_step p i s t"
  shows "shut (wqs (pl_world t) (rq_queue q))"
proof -
  let ?a = "rq_queue q"
  from down have ign: "ignores_adds wq shut left" by (simp add: winds_down_def)
  have got: "shut (wqs v ?a)" if get: "q_Get (p_queue p) (pl_world s) = Some ((key, ex), v)" for key ex v
  proof -
    from built_Get [OF get [unfolded p(1)]] obtain n q' where
      q': "wq_Get wq (now (pl_world s)) (wqs (pl_world s) ?a) = Some ((key, ex), n, q')" "wqs v = (wqs (pl_world s))(?a := q')"
      by blast
    from winds_down_Get [OF down s, of "now (pl_world s)"] q' show ?thesis by auto
  qed
  have m: "shut_with shut left ?a (left (wqs (pl_world s) ?a)) (pl_world s)" using s by (simp add: shut_with_def)
  have called: "shut (wqs (snd (handle_call p key (pl_world s))) ?a)" for key
  proof -
    have "shut_with shut left ?a (left (wqs (pl_world s) ?a)) (snd (handle_call p key (pl_world s)))"
      by (rule call_invariant [where I = "shut_with shut left ?a (left (wqs (pl_world s) ?a))"])
        (use respects m in \<open>auto simp: respects_shutdown_def shut_with_alloc\<close>)
    then show ?thesis by (simp add: shut_with_def)
  qed
  have rest: "shut (wqs (snd (handle_rest p key c (pl_world s))) ?a)" for key c
    using rest_shut [OF ign respects p(1) m, of key c] by (simp add: shut_with_def)
  have fin: "shut (wq_Done wq key u)" "shut (wq_Forget wq key u)" if "shut u" for key u
    using ign that by (simp_all add: ignores_adds_def)
  from step show ?thesis
  proof cases
    case (get start key w)
    then show ?thesis using got by auto
  next
    case (get_exit start key w)
    then show ?thesis using got by auto
  next
    case (call key start c w)
    then show ?thesis using called [of key] by simp
  next
    case (follow key start c err w)
    then show ?thesis using rest [of key c] by simp
  next
    case (follow_panic key start c v w)
    then show ?thesis using rest [of key c] fin by (simp add: p(1) retry_defs)
  next
    case (finish key start err)
    then show ?thesis using s fin by (simp add: wqs_process_end [OF p])
  qed (simp_all add: s)
qed

lemma quiet_respects: "quiet_handler h \<Longrightarrow> respects_shutdown shut left a h"
  by (simp add: quiet_handler_def respects_shutdown_def shut_with_def)

lemma pool_step_shut:
  fixes s :: "('q, string, 'z) queue_world_scheme pool"
  assumes "closes wq shut left" and "respects_shutdown shut left (rq_queue q) (p_handler p)"
    and p: "p_queue p = built_queue wq q (default_recorder_opt rejects dr)" "p_recorder p = default_recorder_opt rejects dr"
    and "pool_step (keeps (rq_queue q)) p s t" and s: "shut (wqs (pl_world s) (rq_queue q))"
  shows "shut (wqs (pl_world t) (rq_queue q))"
proof -
  from assms(1) have down: "winds_down wq shut left" and add: "\<And>k q. shut q \<Longrightarrow> shut (wq_Add wq k q)"
    and closed: "\<And>q. shut (wq_ShutDown wq q)" by (auto simp: closes_def)
  from down have "\<And>t k d q. shut q \<Longrightarrow> shut (wq_AddAfter wq t k d q)" by (simp add: winds_down_def ignores_adds_def)
  with assms(5) s add closed show ?thesis
    by cases (auto simp: p(1) built_wqs keeps_def intro: worker_step_shut [OF down assms(2) p])
qed

lemma pool_steps_shut:
  fixes s :: "('q, string, 'z) queue_world_scheme pool"
  assumes "closes wq shut left" and "respects_shutdown shut left (rq_queue q) (p_handler p)"
    and "p_queue p = built_queue wq q (default_recorder_opt rejects dr)" and "p_recorder p = default_recorder_opt rejects dr"
    and "(pool_step (keeps (rq_queue q)) p)\<^sup>*\<^sup>* s t" and "shut (wqs (pl_world s) (rq_queue q))"
  shows "shut (wqs (pl_world t) (rq_queue q))"
  using assms(5,6) by (induction rule: rtranclp_induct) (auto intro: pool_step_shut [OF assms(1-4)])

text \<open>Once \<open>Run\<close> is past the first processor, the queue of the first processor is shut down.\<close>

definition first_shut :: "('q \<Rightarrow> bool) \<Rightarrow> addr \<Rightarrow> ('q, string, 'z) queue_world_scheme live \<Rightarrow> bool" where
  "first_shut shut a s \<longleftrightarrow> (0 < rs_index (lv_run s) \<longrightarrow> shut (wqs (lv_world s) a))"

lemma first_shut_step:
  fixes s :: "('q, string, 'z) queue_world_scheme live"
  assumes apart: "apart wq rejects addrs c" and k: "0 < length (c_processor c)"
    and env: "\<And>u v. env u v \<Longrightarrow> keeps (addrs ! 0) u v" and closes: "closes wq shut left"
    and inv: "live_inv (c_processor c) s" and step: "live_step env (c_processor c) s t"
    and s: "first_shut shut (addrs ! 0) s"
  shows "first_shut shut (addrs ! 0) t"
proof -
  let ?ps = "c_processor c"
  from apart k obtain q dr where q: "rq_queue q = addrs ! 0"
    and p: "p_queue (?ps ! 0) = built_queue wq q (default_recorder_opt rejects dr)"
      "p_recorder (?ps ! 0) = default_recorder_opt rejects dr" and quiet: "quiet_handler (p_handler (?ps ! 0))"
    by (auto simp: apart_def own_queue_def quiet_pair_def)
  have world: "pl_world (pool_view ?ps 0 u) = lv_world u" for u :: "('q, string, 'z) queue_world_scheme live"
    by (simp add: pool_view_def pool_of_def)
  show ?thesis
  proof (cases "rs_index (lv_run s) = 0")
    case False
    with s have "shut (wqs (pl_world (pool_view ?ps 0 s)) (rq_queue q))" by (simp add: first_shut_def world q)
    from pool_steps_shut [OF closes quiet_respects [OF quiet] p live_step_view [OF apart k env inv step, folded q] this]
    show ?thesis by (simp add: first_shut_def world q)
  next
    case True
    have closed: "shut (wq_ShutDown wq u)" for u using closes by (simp add: closes_def)
    from step show ?thesis
    proof cases
      case (live_main r)
      from live_main(3) show ?thesis
        by cases (use live_main(1) True closed in
          \<open>auto simp: first_shut_def after_main_def p(1) built_wqs q [symmetric]\<close>)
    qed (use True in \<open>auto simp: first_shut_def with_pool_def enqueued_at_def\<close>)
  qed
qed

lemma lift_main:
  assumes "(run_main ps)\<^sup>*\<^sup>* (lv_run s) r" and "lv_crash s = None" and "\<forall>v. rs_phase r \<noteq> Crashed v"
  shows "\<exists>t. (live_step env ps)\<^sup>*\<^sup>* s t \<and> lv_run t = r \<and> lv_crash t = None"
  using assms
proof (induction rule: rtranclp_induct)
  case (step r r')
  from step.hyps(2) have "\<forall>v. rs_phase r \<noteq> Crashed v" by cases auto
  with step obtain t where t: "(live_step env ps)\<^sup>*\<^sup>* s t" "lv_run t = r" "lv_crash t = None" by blast
  from live_main [OF t(3), of ps r' env] step.hyps(2) t(2) have "live_step env ps t (after_main r' t)" by simp
  moreover have "crash_of (rs_phase r') = None" using step.prems by (cases "rs_phase r'") auto
  ultimately show ?case using t(1)
    by (intro exI [of _ "after_main r' t"]) (simp add: after_main_def rtranclp.rtrancl_into_rtrancl)
qed auto

text \<open>The way of all workers to their exit.\<close>

definition all_left :: "('q \<Rightarrow> nat) \<Rightarrow> addr \<Rightarrow> ('q, string, 'z) queue_world_scheme live \<Rightarrow> nat" where
  "all_left left a s = 7 * left (wqs (lv_world s) a) + sum_list (map (\<lambda>ws. sum_list (map weight ws)) (lv_pools s))"

lemma sum_list_update_nat:
  "i < length xs \<Longrightarrow> sum_list (map f (xs[i := x])) + f (xs ! i) = sum_list (map f xs) + (f x :: nat)"
  by (induction xs arbitrary: i) (auto split: nat.split)

lemma all_left_with_pool:
  assumes "k < length (lv_pools s)" and "work_left left a t < work_left left a (pool_of k s)"
  shows "all_left left a (with_pool k t s) < all_left left a s"
  using assms(2) sum_list_update_nat [OF assms(1), of "\<lambda>ws. sum_list (map weight ws)" "pl_workers t"]
  by (simp add: all_left_def with_pool_def work_left_def pool_of_def)

lemma workers_exit:
  fixes s :: "('q, string, 'z) queue_world_scheme live"
  assumes "winds_down wq shut left" and "respects_shutdown shut left (rq_queue q) (p_handler (ps ! 0))"
    and "p_queue (ps ! 0) = built_queue wq q (default_recorder_opt rejects dr)"
    and "p_recorder (ps ! 0) = default_recorder_opt rejects dr"
    and "\<forall>msg e w. \<exists>u w'. h_Notify (p_handler (ps ! 0)) msg e w = (Ret u, w')"
    and "live_inv ps s" and "winding_down shut (rq_queue q) (pool_of 0 s)"
  shows "\<exists>t. (live_step env ps)\<^sup>*\<^sup>* s t \<and> (\<forall>k < length ps. set (lv_pools t ! k) \<subseteq> {Exited}) \<and> lv_crash t = None \<and>
    rs_index (lv_run t) = rs_index (lv_run s)"
  using assms(6,7)
proof (induction "all_left left (rq_queue q) s" arbitrary: s rule: less_induct)
  case less
  let ?a = "rq_queue q"
  have crash: "lv_crash s = None" using less.prems(2) by (simp add: winding_down_def pool_of_def)
  show ?case
  proof (cases "\<forall>k < length ps. set (lv_pools s ! k) \<subseteq> {Exited}")
    case True
    with crash show ?thesis by blast
  next
    case False
    then obtain k x where x: "k < length ps" "x \<in> set (lv_pools s ! k)" "x \<noteq> Exited" by auto
    from x(2) obtain i where "i < length (lv_pools s ! k)" "lv_pools s ! k ! i = x"
      unfolding in_set_conv_nth by blast
    with x have k: "k < length ps" "i < length (lv_pools s ! k)" "lv_pools s ! k ! i \<noteq> Exited" by simp_all
    have "\<exists>t. worker_step (ps ! k) i (pool_of k s) t \<and> winding_down shut ?a t \<and>
        work_left left ?a t < work_left left ?a (pool_of k s)"
    proof (cases "k = 0")
      case True
      with k winding_step [OF assms(1-5) less.prems(2), of i] show ?thesis by (simp add: pool_of_def)
    next
      case False
      with less.prems(1) k(1) have "idle_pool s k" by (simp add: live_inv_def)
      then have "lv_pools s ! k ! i \<in> {Resting, Exited}" using nth_mem [OF k(2)] by (auto simp only: idle_pool_def)
      with k have rest: "pl_workers (pool_of k s) ! i = Resting" "i < length (pl_workers (pool_of k s))" "pl_done (pool_of k s)"
        using less.prems(2) by (auto simp: pool_of_def winding_down_def)
      let ?t = "(pool_of k s)\<lparr>pl_workers := (pl_workers (pool_of k s))[i := Exited]\<rparr>"
      from leave [OF rest(2,1,3)] have "worker_step (ps ! k) i (pool_of k s) ?t" .
      moreover have "work_left left ?a ?t < work_left left ?a (pool_of k s)"
        using weight_update [OF rest(2), of Exited] rest(1) by (simp add: work_left_def)
      moreover have "winding_down shut ?a ?t" using less.prems(2) by (simp add: winding_down_def pool_of_def)
      ultimately show ?thesis by blast
    qed
    then obtain u where u: "worker_step (ps ! k) i (pool_of k s) u" "winding_down shut ?a u"
      "work_left left ?a u < work_left left ?a (pool_of k s)" by blast
    let ?t = "with_pool k u s"
    have step: "live_step env ps s ?t" by (rule live_worker [OF crash k(1) u(1)])
    have "winding_down shut ?a (pool_of 0 ?t)"
      using u(2) worker_step_frame(1) [OF u(1)] by (simp add: winding_down_def pool_of_def with_pool_def)
    moreover have "all_left left ?a ?t < all_left left ?a s"
      using less.prems(1) k(1) by (intro all_left_with_pool u(3)) (simp add: live_inv_def)
    ultimately obtain t where "(live_step env ps)\<^sup>*\<^sup>* ?t t" "\<forall>k < length ps. set (lv_pools t ! k) \<subseteq> {Exited}"
      "lv_crash t = None" "rs_index (lv_run t) = rs_index (lv_run ?t)"
      using less.hyps [of ?t] with_pool_inv [OF less.prems(1) k(1) u(1)] by blast
    with step show ?thesis
      by (intro exI [of _ t]) (simp add: with_pool_def converse_rtranclp_into_rtranclp)
  qed
qed


text \<open>What holds in every reachable state.\<close>

lemma crashed_phase:
  assumes "live_controller env c w s"
  shows "lv_crash s = None \<Longrightarrow> \<forall>v. rs_phase (lv_run s) \<noteq> Crashed v"
  using assms unfolding live_controller_def
proof (induction rule: reach.induct)
  case (reach_start s)
  then show ?case by (simp add: live_start_def run_start_def)
next
  case (reach_step s t)
  from reach_step.hyps(2) show ?case
  proof cases
    case (live_main r)
    with reach_step.prems show ?thesis by (cases "rs_phase r") (simp_all add: after_main_def)
  qed (use reach_step.IH in \<open>simp_all add: with_pool_def enqueued_at_def\<close>)
qed

lemma first_shut_reach:
  fixes s :: "('q, string, 'z) queue_world_scheme live"
  assumes "apart wq rejects addrs c" and "0 < length (c_processor c)"
    and "\<And>u v. env u v \<Longrightarrow> keeps (addrs ! 0) u v" and "closes wq shut left" and "live_controller env c w s"
  shows "first_shut shut (addrs ! 0) s"
  using assms(5) unfolding live_controller_def
proof (induction rule: reach.induct)
  case (reach_start s)
  then show ?case by (simp add: live_start_def run_start_def first_shut_def)
next
  case (reach_step s t)
  from first_shut_step [OF assms(1-4) live.reach_inv [OF reach_step(1)] reach_step(2) reach_step.IH] show ?case .
qed

lemma run_main_steps_done: "(run_main ps)\<^sup>*\<^sup>* r r' \<Longrightarrow> rs_done r' = rs_done r"
  by (induction rule: rtranclp_induct) (simp_all add: run_main_done)

lemma apart_first:
  assumes "apart wq rejects addrs c" and "k < length (c_processor c)"
  obtains q dr where "rq_queue q = addrs ! k"
    and "p_queue (c_processor c ! k) = built_queue wq q (default_recorder_opt rejects dr)"
    and "p_recorder (c_processor c ! k) = default_recorder_opt rejects dr"
    and "quiet_handler (p_handler (c_processor c ! k))"
  using assms by (auto simp: apart_def own_queue_def quiet_pair_def)

lemma live_step_mono:
  "live_step env ps s t \<Longrightarrow> (\<And>u v. env u v \<Longrightarrow> env' u v) \<Longrightarrow> live_step env' ps s t"
  by (erule live_step.cases) (auto intro: live_step.intros)

lemma live_steps_mono: "(live_step (\<lambda>_ _. False) ps)\<^sup>*\<^sup>* s t \<Longrightarrow> (live_step env ps)\<^sup>*\<^sup>* s t"
  by (rule rtranclp_mono [THEN predicate2D]) (auto intro: live_step_mono)

text \<open>The way from a cancelled state to the end, without any step of the rest of the program.\<close>

lemma live_controller_ends:
  fixes s :: "('q, string, 'z) queue_world_scheme live"
  assumes "closes wq shut left" and "apart wq rejects addrs c" and "0 < length (c_processor c)"
    and "\<forall>u v. env u v \<longrightarrow> keeps (addrs ! 0) u v"
    and "\<forall>p \<in> set (c_processor c). never_panics (p_handler p)"
    and "live_controller env c w s" and "rs_done (lv_run s)" and "lv_crash s = None"
  shows "\<exists>t. (live_step (\<lambda>_ _. False) (c_processor c))\<^sup>*\<^sup>* s t \<and> rs_index (lv_run t) = length (c_processor c) \<and>
    lv_crash t = None \<and> (\<forall>k < length (c_processor c).
      lv_pools t ! k = replicate (nat (p_workers (c_processor c ! k))) Exited)"
proof -
  let ?ps = "c_processor c"
  have env: "\<And>u v. env u v \<Longrightarrow> keeps (addrs ! 0) u v" using assms(4) by blast
  from apart_first [OF assms(2,3)] obtain q dr where q: "rq_queue q = addrs ! 0"
    and p: "p_queue (?ps ! 0) = built_queue wq q (default_recorder_opt rejects dr)"
      "p_recorder (?ps ! 0) = default_recorder_opt rejects dr" and quiet: "quiet_handler (p_handler (?ps ! 0))" .
  from live.reach_inv [OF assms(6) [unfolded live_controller_def]] have "run_inv ?ps (lv_run s)" by (simp add: live_inv_def)
  moreover from this have "rs_index (lv_run s) \<le> length ?ps" by (simp add: run_inv_def)
  from run_rest [OF assms(5,7) crashed_phase [OF assms(6,8)] this] obtain r where
    r: "(run_main ?ps)\<^sup>*\<^sup>* (lv_run s) r" "rs_index r = length ?ps" by blast
  ultimately have "run_inv ?ps r" using run.steps_inv [OF main_steps] by blast
  with r(2) have "rs_phase r = Begin" by (auto simp: run_inv_def)
  with lift_main [OF r(1) assms(8), of "\<lambda>_ _. False"] obtain u where
    u: "(live_step (\<lambda>_ _. False) ?ps)\<^sup>*\<^sup>* s u" "lv_run u = r" "lv_crash u = None" by auto
  from live_steps_mono [OF u(1)] assms(6) have reach: "live_controller env c w u"
    unfolding live_controller_def by (rule reach_steps)
  note inv = live.reach_inv [OF reach [unfolded live_controller_def]]
  from first_shut_reach [OF assms(2,3) env assms(1) reach] have "shut (wqs (lv_world u) (addrs ! 0))"
    using assms(3) by (simp add: first_shut_def u(2) r(2))
  moreover have "rs_done r" using run_main_steps_done [OF r(1)] assms(7) by simp
  ultimately have down: "winding_down shut (rq_queue q) (pool_of 0 u)"
    using u(2,3) by (simp add: winding_down_def pool_of_def q)
  have winds: "winds_down wq shut left" using assms(1) by (simp add: closes_def)
  have notify: "\<forall>msg e w. \<exists>x w'. h_Notify (p_handler (?ps ! 0)) msg e w = (Ret x, w')"
    using never_panics_Ret assms(3,5) nth_mem by metis
  from workers_exit [OF winds quiet_respects [OF quiet] p notify inv down, of "\<lambda>_ _. False"] obtain t where
    t: "(live_step (\<lambda>_ _. False) ?ps)\<^sup>*\<^sup>* u t" "\<forall>k < length ?ps. set (lv_pools t ! k) \<subseteq> {Exited}" "lv_crash t = None"
      "rs_index (lv_run t) = length ?ps" using u(2) r(2) by auto
  have "lv_pools t ! k = replicate (nat (p_workers (?ps ! k))) Exited" if "k < length ?ps" for k
  proof -
    from live.steps_inv [OF t(1) inv] that t(4) have "length (lv_pools t ! k) = nat (p_workers (?ps ! k))"
      by (auto simp: live_inv_def run_inv_def)
    moreover from t(2) that have "\<And>x. x \<in> set (lv_pools t ! k) \<Longrightarrow> x = Exited" by blast
    ultimately show ?thesis by (metis replicate_eqI)
  qed
  with u(1) t show ?thesis by (meson rtranclp_trans)
qed

subsection \<open>Properties\<close>

text \<open>
  C11. In a running controller the handlers after the first never get an item: in every
  reachable state the workers of a later processor rest or have exited, and nothing but
  additions ever happened to its queue, so whatever is enqueued for it is never handled;
  before the cancellation it does not even have workers, for \<open>Run\<close> is still at the first
  processor.
\<close>

theorem later_handlers_never_handle:
  assumes "live_controller env c w s" and "0 < k" and "k < length (c_processor c)"
  shows "set (lv_pools s ! k) \<subseteq> {Resting, Exited} \<and> set (lv_hist s ! k) \<subseteq> range Enqueued \<and>
    (if rs_done (lv_run s) then True else rs_index (lv_run s) = 0 \<and> lv_pools s ! k = [])"
proof -
  from live.reach_inv [OF assms(1) [unfolded live_controller_def]] have inv: "live_inv (c_processor c) s" .
  with assms(2,3) have "idle_pool s k" by (simp add: live_inv_def)
  moreover from later_done [OF inv assms(2,3)] have "\<not> rs_done (lv_run s) \<Longrightarrow> lv_pools s ! k = []" by blast
  moreover from inv have "\<not> rs_done (lv_run s) \<Longrightarrow> rs_index (lv_run s) = 0" by (auto simp: live_inv_def run_inv_def)
  ultimately show ?thesis by (auto simp: idle_pool_def)
qed

text \<open>
  C10. The composition refines the life of the items: the pool of every processor, inside
  the running controller with the goroutine of \<open>Run\<close>, the informer and the workers of all
  other handlers, reaches only states that the specification of a single pool reaches, with
  the retries of its own queue.
\<close>

theorem live_controller_implements_spec:
  assumes "workqueue_laws wq view" and "requeue_laws wq" and "apart wq rejects addrs c"
    and "\<forall>u v. env u v \<longrightarrow> keeps (addrs ! k) u v" and "live_controller env c w s"
    and "k < length (c_processor c)" and "rq_queue q = addrs ! k"
    and "p_queue (c_processor c ! k) = built_queue wq q (default_recorder_opt rejects dr)"
    and "p_recorder (c_processor c ! k) = default_recorder_opt rejects dr" and "fails_of wq q w = (\<lambda>_. 0)"
  shows "reach spec_start (spec_step (rq_retries q)) (pool_abs wq view q (pool_view (c_processor c) k s))"
proof -
  from assms(4) have env: "\<And>u v. env u v \<Longrightarrow> keeps (addrs ! k) u v" by blast
  have "quiet_handler (p_handler (c_processor c ! k))"
    using assms(3,6) by (simp add: apart_def quiet_pair_def)
  then have leaves: "leaves_queue wq view (rq_queue q) (p_handler (c_processor c ! k))"
    by (simp add: leaves_queue_def quiet_handler_def same_queue_def)
  have same: "\<forall>u v. keeps (addrs ! k) u v \<longrightarrow> same_queue wq view (rq_queue q) u v"
    by (simp add: keeps_def same_queue_def assms(7))
  show ?thesis
    by (rule pool_reaches_spec [OF assms(1,2,8,9) leaves same assms(10) live_pool [OF assms(3,6) env assms(5)]])
qed

text \<open>
  C14. From the informer to the queue, for good: when an informer event of a handler passes
  its filters in a running controller, then in every later state before the shutdown of the
  handler's queue the key of the resource is waiting there or, for the first handler, a
  worker has taken it since; whatever \<open>Run\<close>, the workers, the events of all handlers and
  the rest of the program do in between.
\<close>

theorem live_event_pending:
  assumes "workqueue_laws wq view" and "requeue_laws wq" and "apart wq rejects addrs c"
    and "\<forall>u v. env u v \<longrightarrow> keeps (addrs ! k) u v" and "live_controller env c w s"
    and "k < length (c_processor c)" and "\<forall>x. wq_NumRequeues wq x (wqs w (addrs ! k)) = 0"
    and "r = c_handler c ! k" and "keyfn obj = (key, None)" and "lv_crash s = None"
    and "case reh_filter r of None \<Rightarrow> v = lv_world s
       | Some f \<Rightarrow> f oper (object prev) (object obj) (lv_world s) = (True, v) \<and> env (lv_world s) v"
    and "enqueue r oper prev obj keyfn (lv_world s) = (res, w')" and "t = enqueued_at k key w' s"
    and "(live_step env (c_processor c))\<^sup>*\<^sup>* t u" and "\<not> v_shut (view (wqs (lv_world u) (addrs ! k)))"
  shows "key \<in> v_pend (view (wqs (lv_world u) (addrs ! k))) \<or>
    k = 0 \<and> (\<exists>newer i. lv_hist u ! k = newer @ lv_hist t ! k \<and> Started i key \<in> set newer)"
proof -
  let ?ps = "c_processor c"
  from assms(4) have env: "\<And>u v. env u v \<Longrightarrow> keeps (addrs ! k) u v" by blast
  have own: "own_queue wq rejects (addrs ! k) r (?ps ! k)" "quiet_handler (p_handler (?ps ! k))"
    using assms(3,6,8) by (simp_all add: apart_def quiet_pair_def)
  from own(1) obtain q dr where q: "rq_queue q = addrs ! k" "reh_queue r = p_queue (?ps ! k)"
    "p_queue (?ps ! k) = built_queue wq q (default_recorder_opt rejects dr)"
    "p_recorder (?ps ! k) = default_recorder_opt rejects dr" by (auto simp: own_queue_def)
  have leaves: "leaves_queue wq view (rq_queue q) (p_handler (?ps ! k))"
    using own(2) by (simp add: leaves_queue_def quiet_handler_def same_queue_def)
  have same: "\<forall>u v. keeps (addrs ! k) u v \<longrightarrow> same_queue wq view (rq_queue q) u v"
    by (simp add: keeps_def same_queue_def q(1))
  have fresh: "fails_of wq q w = (\<lambda>_. 0)" using assms(7) by (simp add: fails_of_def q(1) fun_eq_iff)
  have "(live_step env ?ps)\<^sup>*\<^sup>* s t" unfolding assms(13)
    by (rule live_enqueue [where r = r and keyfn = keyfn and obj = obj and oper = oper and prev = prev
          and v = v and res = res]) (fact q(2) assms)+
  then have t: "live_controller env c w t"
    using assms(5) unfolding live_controller_def by (rule reach_steps)
  from assms(14) this have u: "live_controller env c w u" unfolding live_controller_def by (rule reach_steps)
  note inv = live.reach_inv [OF t [unfolded live_controller_def]]
  from inv assms(5,6) have hist: "lv_hist t ! k = Enqueued key # lv_hist s ! k"
    using live.reach_inv [OF assms(5) [unfolded live_controller_def]] by (simp add: assms(13) enqueued_at_def live_inv_def)
  have view: "pl_hist (pool_view ?ps k x) = lv_hist x ! k" "pl_world (pool_view ?ps k x) = lv_world x"
    for x :: "('a, string, 'c) queue_world_scheme live"
    by (simp_all add: pool_view_def pool_of_def)
  from pool_hist_grows [OF live_steps_view [OF assms(3,6) env assms(14) inv]] obtain newer where
    newer: "lv_hist u ! k = newer @ lv_hist t ! k" by (auto simp: view)
  have pending: "key \<in> v_pend (view (wqs (lv_world u) (addrs ! k)))" if "\<forall>i. Started i key \<notin> set newer"
    using unseen_pending [OF assms(1,2) q(3,4) leaves same fresh live_pool [OF assms(3,6) env u], of newer key]
      assms(15) newer hist that by (simp add: view q(1))
  moreover have "Started i key \<notin> set newer" if "0 < k" for i
  proof -
    from live.reach_inv [OF u [unfolded live_controller_def]] that assms(6)
    have "idle_pool u k" by (simp add: live_inv_def)
    then show ?thesis by (auto simp: idle_pool_def newer)
  qed
  ultimately show ?thesis using newer by blast
qed

text \<open>
  C12. Cancelling the context ends the whole controller: from every reachable state that is
  cancelled and not crashed, if no \<open>Notify\<close> panics, there are steps after which \<open>Run\<close> has
  returned and every processor has started its configured number of workers, all of which
  have exited; however much was still queued, and whatever the handlers return.
\<close>

theorem live_controller_shuts_down:
  fixes s :: "('q, string, 'z) queue_world_scheme live"
  assumes "closes wq shut left" and "apart wq rejects addrs c" and "0 < length (c_processor c)"
    and "\<forall>u v. env u v \<longrightarrow> keeps (addrs ! 0) u v"
    and "\<forall>p \<in> set (c_processor c). never_panics (p_handler p)"
    and "live_controller env c w s" and "rs_done (lv_run s)" and "lv_crash s = None"
  shows "\<exists>t. (live_step env (c_processor c))\<^sup>*\<^sup>* s t \<and> rs_index (lv_run t) = length (c_processor c) \<and>
    lv_crash t = None \<and> (\<forall>k < length (c_processor c).
      lv_pools t ! k = replicate (nat (p_workers (c_processor c ! k))) Exited)"
  using live_controller_ends [OF assms] live_steps_mono by blast

subsection \<open>Witnesses\<close>

text \<open>Two handlers with queues at the addresses 0 and 1; nobody uses the second queue's name.\<close>

definition second_rq :: RetryQueue where
  "second_rq = \<lparr>rq_name = ''r'', rq_queue = 1, rq_retries = 3\<rparr>"

definition second_processor :: "(busy_queue, string) kube_world Processor" where
  "second_processor = busy_processor\<lparr>p_queue := built_queue busy_wq second_rq None\<rparr>"

definition busy_informer :: "(busy_queue, string) kube_world informer_ops" where
  "busy_informer =
     \<lparr>inf_GetIndexer = (\<lambda>_. example_cache), inf_SetTransform = (\<lambda>_ w. (None, w)),
      inf_AddEventHandler = (\<lambda>_ _ w. (None, w)), inf_Run = (\<lambda>w. w), inf_WaitForCacheSync = (\<lambda>w. Some (True, w))\<rparr>"

definition busy_controller :: "(busy_queue, (busy_queue, string) kube_world) controller" where
  "busy_controller =
     \<lparr>c_config = \<lparr>cfg_Name = ''pods'', cfg_Workers = 2, cfg_Sync = 0, cfg_Retries = 1, cfg_Delay = NewDelay 0 0,
        cfg_RateLimiter = None\<rparr>,
      c_informer = busy_informer,
      c_handler = map (\<lambda>p. NewResourceEventHandler (p_handler p) (p_queue p) (NewDelay 0 0) [])
        [busy_processor, second_processor],
      c_processor = [busy_processor, second_processor]\<rparr>"

lemma busy_controller_processors [simp]: "c_processor busy_controller = [busy_processor, second_processor]"
  by (simp add: busy_controller_def)

lemma second_processor_queue:
  "p_queue second_processor = built_queue busy_wq second_rq (default_recorder_opt duplicates_only None)"
  "p_recorder second_processor = default_recorder_opt duplicates_only None"
  by (simp_all add: second_processor_def busy_processor_def)

lemma second_processor_handler: "p_handler second_processor = p_handler busy_processor"
  by (simp add: second_processor_def)

lemma busy_apart: "apart busy_wq duplicates_only [0, 1] busy_controller"
proof -
  have own: "own_queue busy_wq duplicates_only (rq_queue q) (NewResourceEventHandler h (p_queue p) d []) p"
    if "p_queue p = built_queue busy_wq q (default_recorder_opt duplicates_only None)"
      "p_recorder p = default_recorder_opt duplicates_only None" for q h d p
    unfolding own_queue_def by (intro exI [of _ q] exI [of _ None]) (simp add: that)
  have quiet: "quiet_pair (NewResourceEventHandler (p_handler busy_processor) qu d []) p"
    if "p_handler p = p_handler busy_processor" for qu d p
    using that busy_handler_frame
    by (simp add: quiet_pair_def quiet_handler_def NewResourceEventHandler_def combine_def)
  have "own_queue busy_wq duplicates_only 0 (c_handler busy_controller ! 0) busy_processor"
    using own [OF busy_processor_queue] by (simp add: busy_controller_def busy_rq_def)
  moreover have "own_queue busy_wq duplicates_only 1 (c_handler busy_controller ! 1) second_processor"
    using own [OF second_processor_queue] by (simp add: busy_controller_def second_rq_def)
  moreover have "quiet_pair (c_handler busy_controller ! 0) busy_processor"
    "quiet_pair (c_handler busy_controller ! 1) second_processor"
    using quiet second_processor_handler by (simp_all add: busy_controller_def)
  ultimately show ?thesis
    by (simp add: apart_def All_less_Suc numeral_2_eq_2) (simp add: busy_controller_def)
qed

definition busy_live :: "(busy_queue, string) kube_world live" where
  "busy_live =
     \<lparr>lv_run = \<lparr>rs_world = busy_world, rs_done = False, rs_index = 0, rs_phase = Begin, rs_workers = []\<rparr>,
      lv_pools = [[], []], lv_crash = None, lv_hist = [[], []]\<rparr>"

lemma busy_live_start: "live_controller (\<lambda>_ _. False) busy_controller busy_world busy_live"
  unfolding live_controller_def
  by (rule reach_start) (simp add: live_start_def run_start_def busy_live_def numeral_2_eq_2)

text \<open>An event for the second handler.\<close>

definition busy_added_second :: "(busy_queue, string) kube_world live" where
  "busy_added_second = enqueued_at 1 ''b'' (q_Add (p_queue second_processor) ''b'' busy_world) busy_live"

lemma busy_live_added: "live_controller (\<lambda>_ _. False) busy_controller busy_world busy_added_second"
proof -
  have "live_step (\<lambda>_ _. False) (c_processor busy_controller) busy_live busy_added_second"
    using live_add [of busy_live 1 "c_processor busy_controller" "\<lambda>_ _. False" "''b''"]
    by (simp add: busy_added_second_def busy_live_def)
  with busy_live_start show ?thesis unfolding live_controller_def by (rule reach_step)
qed

theorem later_handlers_never_handle_witness:
  "live_controller (\<lambda>_ _. False) busy_controller busy_world busy_added_second \<and>
     lv_hist busy_added_second ! 1 = [Enqueued ''b''] \<and> lv_pools busy_added_second ! 1 = []"
  using later_handlers_never_handle [OF busy_live_added, of 1] busy_live_added
  by (simp add: busy_added_second_def enqueued_at_def busy_live_def)

theorem live_controller_implements_spec_witness:
  "\<exists>a. reach spec_start (spec_step 3) a \<and> sp_hist a = [Enqueued ''b'']"
proof -
  let ?a = "pool_abs busy_wq busy_view second_rq (pool_view (c_processor busy_controller) 1 busy_added_second)"
  have env: "\<forall>u v :: (busy_queue, string) kube_world. (\<lambda>_ _. False) u v \<longrightarrow> keeps ([0, 1] ! 1) u v" by simp
  have fresh: "fails_of busy_wq second_rq busy_world = (\<lambda>_. 0)"
    by (simp add: fails_of_def fun_eq_iff busy_wq_def busy_world_def)
  have second: "1 < length (c_processor busy_controller)" "rq_queue second_rq = [0, 1] ! 1"
    "c_processor busy_controller ! 1 = second_processor" by (simp_all add: second_rq_def)
  have "reach spec_start (spec_step (rq_retries second_rq)) ?a"
    by (rule live_controller_implements_spec [OF busy_wq_laws busy_wq_requeue_laws busy_apart env busy_live_added
          second(1,2) _ _ fresh]) (simp_all only: second(3) second_processor_queue)
  then show ?thesis
    by (intro exI [of _ ?a])
      (simp add: pool_abs_def pool_view_def pool_of_def busy_added_second_def enqueued_at_def busy_live_def second_rq_def)
qed

theorem live_event_pending_witness:
  "\<exists>u. live_controller (\<lambda>_ _. False) busy_controller busy_world u \<and> lv_hist u ! 0 = [Enqueued ''a''] \<and>
     ''a'' \<in> v_pend (busy_view (wqs (lv_world u) 0))"
proof -
  define r where "r = c_handler busy_controller ! 0"
  define w where "w = snd (enqueue r OpAdd Nil_any (example_pod ''a'' ''1'') (\<lambda>_. (''a'', None)) (lv_world busy_live))"
  define u where "u = enqueued_at 0 ''a'' w busy_live"
  have r: "r = NewResourceEventHandler (p_handler busy_processor) (p_queue busy_processor) (NewDelay 0 0) []"
    by (simp add: r_def busy_controller_def)
  then have pass: "reh_filter r = None" by (simp add: NewResourceEventHandler_def combine_def)
  have w: "w = q_Add (p_queue busy_processor) ''a'' busy_world"
    by (simp add: w_def r busy_live_def enqueue_def NewResourceEventHandler_def combine_def delay_for_def NewDelay_def)
  have closed: "\<not> v_shut (busy_view (wqs (lv_world u) ([0, 1] ! 0)))"
    by (simp add: u_def enqueued_at_def w busy_processor_def NewProcessor_def built_queue_def retry_defs
        busy_rq_def busy_wq_def busy_world_def)
  have e: "enqueue r OpAdd Nil_any (example_pod ''a'' ''1'') (\<lambda>_. (''a'', None)) (lv_world busy_live) =
    (fst (enqueue r OpAdd Nil_any (example_pod ''a'' ''1'') (\<lambda>_. (''a'', None)) (lv_world busy_live)), w)"
    by (simp add: w_def)
  have env: "\<forall>u v :: (busy_queue, string) kube_world. (\<lambda>_ _. False) u v \<longrightarrow> keeps ([0, 1] ! 0) u v" by simp
  have k: "0 < length (c_processor busy_controller)" by simp
  have fresh: "\<forall>x. wq_NumRequeues busy_wq x (wqs busy_world ([0, 1] ! 0)) = 0" by (simp add: busy_wq_def busy_world_def)
  have crash: "lv_crash busy_live = None" "lv_hist u ! 0 = [Enqueued ''a'']"
    by (simp_all add: u_def enqueued_at_def busy_live_def)
  have flt: "case reh_filter r of None \<Rightarrow> lv_world busy_live = lv_world busy_live
    | Some f \<Rightarrow> f OpAdd (object Nil_any) (object (example_pod ''a'' ''1'')) (lv_world busy_live) = (True, lv_world busy_live) \<and> False"
    by (simp add: pass)
  have "''a'' \<in> v_pend (busy_view (wqs (lv_world u) ([0, 1] ! 0))) \<or>
      (0::nat) = 0 \<and> (\<exists>newer i. lv_hist u ! 0 = newer @ lv_hist u ! 0 \<and> Started i ''a'' \<in> set newer)"
    by (rule live_event_pending [OF busy_wq_laws busy_wq_requeue_laws busy_apart env busy_live_start k fresh r_def refl crash(1)
          flt e u_def rtranclp.rtrancl_refl closed])
  moreover have "live_step (\<lambda>_ _. False) (c_processor busy_controller) busy_live u"
    using live_add [of busy_live 0 "c_processor busy_controller" "\<lambda>_ _. False" "''a''"]
    by (simp add: u_def w crash) (simp add: busy_live_def)
  with busy_live_start have "live_controller (\<lambda>_ _. False) busy_controller busy_world u"
    unfolding live_controller_def by (rule reach_step)
  ultimately show ?thesis using crash(2) by (intro exI [of _ u]) simp
qed

lemma busy_closes: "closes busy_wq (\<lambda>(xs, ps, f, c). c) (\<lambda>(xs, ps, f, c). length xs)"
  using busy_winds_down by (auto simp: closes_def busy_wq_def)

theorem live_controller_shuts_down_witness:
  "\<exists>t. (live_step (\<lambda>_ _. False) [busy_processor, second_processor])\<^sup>*\<^sup>* busy_added_second t \<and>
     rs_index (lv_run t) = 2 \<and> lv_pools t ! 1 = [Exited, Exited]"
proof -
  let ?s = "busy_added_second\<lparr>lv_run := (lv_run busy_added_second)\<lparr>rs_done := True\<rparr>\<rparr>"
  have step: "live_step (\<lambda>_ _. False) (c_processor busy_controller) busy_added_second ?s"
    by (rule live_cancel) (simp add: busy_added_second_def enqueued_at_def busy_live_def)
  with busy_live_added have reach: "live_controller (\<lambda>_ _. False) busy_controller busy_world ?s"
    unfolding live_controller_def by (rule reach_step)
  have "never_panics (p_handler busy_processor)"
    by (simp add: never_panics_def busy_processor_def NewHandler_def handler_Notify_named Error_Error_def New_def)
  then have np: "\<forall>p \<in> set (c_processor busy_controller). never_panics (p_handler p)"
    by (simp add: second_processor_def)
  have env: "\<forall>u v :: (busy_queue, string) kube_world. (\<lambda>_ _. False) u v \<longrightarrow> keeps ([0, 1] ! 0) u v" by simp
  have none: "rs_done (lv_run ?s)" "lv_crash ?s = None" by (simp_all add: busy_added_second_def enqueued_at_def busy_live_def)
  from live_controller_shuts_down [OF busy_closes busy_apart _ env np reach none] obtain t where
    t: "(live_step (\<lambda>_ _. False) (c_processor busy_controller))\<^sup>*\<^sup>* ?s t" "rs_index (lv_run t) = 2"
    "\<forall>k < 2. lv_pools t ! k = replicate (nat (p_workers (c_processor busy_controller ! k))) Exited" by auto
  from spec [OF t(3), of 1] have "lv_pools t ! 1 = [Exited, Exited]"
    by (simp add: second_processor_def busy_processor_def numeral_2_eq_2)
  with step t(1,2) show ?thesis by (auto intro: converse_rtranclp_into_rtranclp)
qed

end
