(* ===== verification/Runners.thy ===== *)
theory Runners
  imports Controllers
begin

section \<open>Runners: \<open>controller/runner.go\<close>\<close>

text \<open>
  \<open>runner\<close> initializes all runnables in parallel and starts them once all are initialized;
  the default runner calls it, the leader runner hands it to the leader election of
  client-go as the callback for a won election. The goroutines of \<open>runner\<close> are a step
  relation over the error channel they share. Arguments of the model: the lock and the
  elector client-go builds, the Kubernetes client, the runnables, the capacity of the
  channel and whether somebody reads it.
\<close>

subsection \<open>Configuration\<close>

record LeaderConfig =
  lc_Name :: string
  lc_Namespace :: string
  lc_LockType :: string
  lc_LeaseDuration :: duration
  lc_RenewDeadline :: duration
  lc_RenewPeriod :: duration
  lc_RequestRate :: rat
  lc_RequestBurst :: int

record rest_config =
  rest_QPS :: rat
  rest_Burst :: int
  rest_Timeout :: duration
  rest_other :: string

text \<open>\<open>rest.CopyConfig\<close> copies, so the caller's configuration is left alone.\<close>

definition restConfig :: "LeaderConfig \<Rightarrow> rest_config \<Rightarrow> rest_config" where
  "restConfig config restcfg =
     restcfg\<lparr>rest_QPS := lc_RequestRate config, rest_Burst := lc_RequestBurst config,
       rest_Timeout := lc_RenewDeadline config\<rparr>"

subsection \<open>Running several runnables\<close>

text \<open>\<open>Init\<close> gives the errors it sends before it returns, \<open>None\<close> if it does not return.\<close>

record 's runnable_ops =
  rn_Init :: "'s \<Rightarrow> (err list \<times> 's) option"
  rn_Run :: "'s run_state \<Rightarrow> bool"

definition controller_runnable :: "('l, 'z go_world_scheme) controller \<Rightarrow> 'z go_world_scheme runnable_ops" where
  "controller_runnable c = \<lparr>rn_Init = controller_Init c, rn_Run = controller_Run c\<rparr>"

datatype init_phase = NotLaunched | Launched | Sending "err list" | InitDone

record 's runner_state =
  ru_world :: 's
  ru_inits :: "init_phase list"
  ru_chan :: "err list"
  ru_received :: "err list"
  ru_runs :: "nat list"

text \<open>
  The steps: the loop launches the \<open>Init\<close> goroutines in order; an \<open>Init\<close> ends with the
  errors it has to send; a send needs room in the channel, or a reader at the empty
  channel; behind \<open>wg.Wait\<close> the second loop starts the \<open>Run\<close> goroutines in order.
\<close>

inductive runner_step ::
  "nat \<Rightarrow> bool \<Rightarrow> 's runnable_ops list \<Rightarrow> 's runner_state \<Rightarrow> 's runner_state \<Rightarrow> bool"
  for cap reading rs where
  launch: "i < length rs \<Longrightarrow> ru_inits s ! i = NotLaunched \<Longrightarrow> \<forall>j < i. ru_inits s ! j \<noteq> NotLaunched \<Longrightarrow>
    runner_step cap reading rs s (s\<lparr>ru_inits := (ru_inits s)[i := Launched]\<rparr>)"
| init: "i < length rs \<Longrightarrow> ru_inits s ! i = Launched \<Longrightarrow> rn_Init (rs ! i) (ru_world s) = Some (errs, w) \<Longrightarrow>
    runner_step cap reading rs s (s\<lparr>ru_world := w, ru_inits := (ru_inits s)[i := Sending errs]\<rparr>)"
| send: "i < length rs \<Longrightarrow> ru_inits s ! i = Sending (e # es) \<Longrightarrow> length (ru_chan s) < cap \<Longrightarrow>
    runner_step cap reading rs s
      (s\<lparr>ru_inits := (ru_inits s)[i := Sending es], ru_chan := ru_chan s @ [e]\<rparr>)"
| hand_over: "reading \<Longrightarrow> i < length rs \<Longrightarrow> ru_inits s ! i = Sending (e # es) \<Longrightarrow> ru_chan s = [] \<Longrightarrow>
    runner_step cap reading rs s
      (s\<lparr>ru_inits := (ru_inits s)[i := Sending es], ru_received := ru_received s @ [e]\<rparr>)"
| receive: "reading \<Longrightarrow> ru_chan s = e # es \<Longrightarrow>
    runner_step cap reading rs s (s\<lparr>ru_chan := es, ru_received := ru_received s @ [e]\<rparr>)"
| init_done: "i < length rs \<Longrightarrow> ru_inits s ! i = Sending [] \<Longrightarrow>
    runner_step cap reading rs s (s\<lparr>ru_inits := (ru_inits s)[i := InitDone]\<rparr>)"
| run: "\<forall>j < length rs. ru_inits s ! j = InitDone \<Longrightarrow> length (ru_runs s) < length rs \<Longrightarrow>
    runner_step cap reading rs s (s\<lparr>ru_runs := ru_runs s @ [length (ru_runs s)]\<rparr>)"
| others: "runner_step cap reading rs s (s\<lparr>ru_world := w\<rparr>)"

definition runner_start :: "'s runnable_ops list \<Rightarrow> 's runner_state \<Rightarrow> bool" where
  "runner_start rs s \<longleftrightarrow> ru_inits s = replicate (length rs) NotLaunched \<and> ru_chan s = [] \<and>
     ru_received s = [] \<and> ru_runs s = []"

definition runner :: "nat \<Rightarrow> bool \<Rightarrow> 's runnable_ops list \<Rightarrow> 's runner_state \<Rightarrow> bool" where
  "runner cap reading rs = reach (runner_start rs) (runner_step cap reading rs)"

text \<open>
  The interface \<open>Runner\<close>: the goroutines of its method \<open>Run\<close> as a step relation, the part of
  their state that belongs to \<open>runner\<close> (a view, with an update of the state of the program
  in it), and whether the context passed to the runnables may be done in a state.
\<close>

record ('x, 's) runner_ops =
  rnr_start :: "'s runnable_ops list \<Rightarrow> 'x \<Rightarrow> bool"
  rnr_step :: "nat \<Rightarrow> bool \<Rightarrow> 's runnable_ops list \<Rightarrow> 'x \<Rightarrow> 'x \<Rightarrow> bool"
  rnr_view :: "'x \<Rightarrow> 's runner_state"
  rnr_put :: "'s \<Rightarrow> 'x \<Rightarrow> 'x"
  rnr_ctx :: "'x \<Rightarrow> bool \<Rightarrow> bool"

definition rnr_Run :: "('x, 's) runner_ops \<Rightarrow> nat \<Rightarrow> bool \<Rightarrow> 's runnable_ops list \<Rightarrow> 'x \<Rightarrow> bool" where
  "rnr_Run R cap reading rs = reach (rnr_start R rs) (rnr_step R cap reading rs)"

text \<open>The default runner calls \<open>runner\<close> with the caller's context and does nothing else.\<close>

definition DefaultRunner_Run :: "nat \<Rightarrow> bool \<Rightarrow> 's runnable_ops list \<Rightarrow> 's runner_state \<Rightarrow> bool" where
  "DefaultRunner_Run cap reading rs = runner cap reading rs"

definition NewDefaultRunner :: "('s runner_state, 's) runner_ops" where
  "NewDefaultRunner =
     \<lparr>rnr_start = runner_start, rnr_step = runner_step, rnr_view = (\<lambda>s. s),
      rnr_put = (\<lambda>w s. s\<lparr>ru_world := w\<rparr>), rnr_ctx = (\<lambda>_ _. True)\<rparr>"

lemma NewDefaultRunner_Run: "rnr_Run NewDefaultRunner = DefaultRunner_Run"
  by (simp add: rnr_Run_def NewDefaultRunner_def DefaultRunner_Run_def runner_def fun_eq_iff)

subsection \<open>Leader election\<close>

record 'c LeaderRunner =
  lr_id :: string
  lr_config :: LeaderConfig
  lr_k8scli :: 'c

text \<open>
  \<open>NewLeaderRunner\<close>: the default lock type is written into the caller's configuration, so
  that configuration is part of the result. The client is made by client-go.
\<close>

definition NewLeaderRunner ::
  "(rest_config \<Rightarrow> err + 'c) \<Rightarrow> string \<Rightarrow> LeaderConfig option \<Rightarrow> rest_config \<Rightarrow> 'z go_world_scheme
     \<Rightarrow> (err + 'c LeaderRunner) \<times> LeaderConfig option \<times> 'z go_world_scheme" where
  "NewLeaderRunner NewForConfig uid config restcfg w =
     (case config of
        None \<Rightarrow>
          (case alloc w of (a, w1) \<Rightarrow>
            (Inl (Error_New a ErrController ''leader config must not be nil'' []), None, w1))
      | Some cfg \<Rightarrow>
          let cfg = (if lc_LockType cfg = [] then cfg\<lparr>lc_LockType := ''leases''\<rparr> else cfg)
          in case NewForConfig (restConfig cfg restcfg) of
               Inl e \<Rightarrow>
                 (case alloc w of (a, w1) \<Rightarrow>
                   (Inl (Error_New a ErrController ''leader client [name=%s]: %w''
                      [AStr (lc_Name cfg), AErr e]), Some cfg, w1))
             | Inr cli \<Rightarrow> (Inr \<lparr>lr_id = uid, lr_config = cfg, lr_k8scli = cli\<rparr>, Some cfg, w))"

record 'k election_config =
  ec_Lock :: 'k
  ec_LeaseDuration :: duration
  ec_RenewDeadline :: duration
  ec_RetryPeriod :: duration

text \<open>
  \<open>Run\<close> of the leader runner: the error it sends (which may be nil in the type of the
  channel), or the elector it starts. The lock is made from the lock type, namespace, name,
  client and identity.
\<close>

definition LeaderRunner_Run ::
  "(string \<Rightarrow> string \<Rightarrow> string \<Rightarrow> 'c \<Rightarrow> string \<Rightarrow> err + 'k) \<Rightarrow> ('k election_config \<Rightarrow> err + 'e)
     \<Rightarrow> 'c LeaderRunner \<Rightarrow> ('z go_world_scheme, err option + 'e) go" where
  "LeaderRunner_Run new_lock NewLeaderElector r w =
     (let config = lr_config r
      in case new_lock (lc_LockType config) (lc_Namespace config) (lc_Name config) (lr_k8scli r) (lr_id r) of
           Inl e \<Rightarrow>
             (case alloc w of (a, w1) \<Rightarrow>
               (case Error_Wrap a ErrController ''creating lock [name=%s]: %w'' [AStr (lc_Name config), AErr e] of
                  Panic v \<Rightarrow> (Panic v, w1)
                | Ret err \<Rightarrow> (Ret (Inl err), w1)))
         | Inr lock \<Rightarrow>
             (case NewLeaderElector
                     \<lparr>ec_Lock = lock, ec_LeaseDuration = lc_LeaseDuration config,
                      ec_RenewDeadline = lc_RenewDeadline config, ec_RetryPeriod = lc_RenewPeriod config\<rparr> of
                Inl e \<Rightarrow>
                  (case alloc w of (a, w1) \<Rightarrow>
                    (Ret (Inl (Some (Error_New a ErrController ''creating elector [name=%s]: %w''
                       [AStr (lc_Name config), AErr e]))), w1))
              | Inr elector \<Rightarrow> (Ret (Inr elector), w)))"

text \<open>The callbacks: \<open>OnStartedLeading\<close> is \<open>runner\<close>, \<open>OnStoppedLeading\<close> sends an error.\<close>

definition OnStartedLeading :: "nat \<Rightarrow> bool \<Rightarrow> 's runnable_ops list \<Rightarrow> 's runner_state \<Rightarrow> bool" where
  "OnStartedLeading cap reading rs = runner cap reading rs"

definition OnStoppedLeading ::
  "'c LeaderRunner \<Rightarrow> 'z go_world_scheme \<Rightarrow> err \<times> 'z go_world_scheme" where
  "OnStoppedLeading r w =
     (case alloc w of (b, w1) \<Rightarrow>
       (case alloc w1 of (a, w2) \<Rightarrow>
         (Error_New a ErrController ''running [name=%s]: %w''
            [AStr (lc_Name (lr_config r)), AErr (ErrorString b ''leadership lost'')], w2)))"

subsection \<open>The order of initializing and running\<close>

definition runner_inv :: "nat \<Rightarrow> 's runnable_ops list \<Rightarrow> 's runner_state \<Rightarrow> bool" where
  "runner_inv cap rs s \<longleftrightarrow> length (ru_inits s) = length rs \<and> length (ru_chan s) \<le> cap \<and>
     (ru_runs s \<noteq> [] \<longrightarrow> (\<forall>j < length rs. ru_inits s ! j = InitDone)) \<and>
     ru_runs s = [0..<length (ru_runs s)] \<and> length (ru_runs s) \<le> length rs"

lemma runner_inv_step:
  assumes "runner_inv cap rs s" and "runner_step cap reading rs s t"
  shows "runner_inv cap rs t"
  using assms(2)
proof cases
  case run
  with assms(1) show ?thesis by (auto simp: runner_inv_def)
qed (use assms(1) in \<open>auto simp: runner_inv_def nth_list_update split: if_splits\<close>)

interpretation running: step_invariant "runner_start rs" "runner_step cap reading rs" "runner_inv cap rs"
  for cap reading rs
proof
  fix s t :: "'a runner_state"
  show "runner_start rs s \<Longrightarrow> runner_inv cap rs s" by (simp add: runner_start_def runner_inv_def)
  show "runner_inv cap rs s \<Longrightarrow> runner_step cap reading rs s t \<Longrightarrow> runner_inv cap rs t"
    by (rule runner_inv_step)
qed

text \<open>
  What every \<open>Runner\<close> promises about the runnables it is given: the order of \<open>runner\<close>, one
  start at a time, and a view that is no more than a view.
\<close>

definition next_run :: "'s runner_state \<Rightarrow> 's runner_state \<Rightarrow> bool" where
  "next_run u v \<longleftrightarrow> ru_runs v = ru_runs u \<or> ru_runs v = ru_runs u @ [length (ru_runs u)]"

lemma runner_next_run: "runner_step cap reading rs u v \<Longrightarrow> next_run u v"
  by (erule runner_step.cases) (simp_all add: next_run_def)

locale runner_contract =
  fixes R :: "('x, 's) runner_ops"
  assumes start_view: "rnr_start R rs x \<Longrightarrow> runner_inv cap rs (rnr_view R x) \<and> ru_runs (rnr_view R x) = []"
    and start_ctx: "rnr_start R rs x \<Longrightarrow> rnr_ctx R x False"
    and step_view: "rnr_step R cap reading rs x y \<Longrightarrow> runner_inv cap rs (rnr_view R x) \<Longrightarrow> runner_inv cap rs (rnr_view R y)"
    and step_runs: "rnr_step R cap reading rs x y \<Longrightarrow> next_run (rnr_view R x) (rnr_view R y)"
    and view_put: "rnr_view R (rnr_put R w x) = (rnr_view R x)\<lparr>ru_world := w\<rparr>"
    and ctx_put: "rnr_ctx R (rnr_put R w x) = rnr_ctx R x"
begin

lemma keeps_order: "rnr_Run R cap reading rs x \<Longrightarrow> runner_inv cap rs (rnr_view R x)"
  unfolding rnr_Run_def by (induction rule: reach.induct) (auto dest: start_view intro: step_view)

lemma order_of_runs:
  assumes "rnr_Run R cap reading rs x"
  shows "(if ru_runs (rnr_view R x) = [] then True
      else \<forall>j \<in> {..<length rs}. ru_inits (rnr_view R x) ! j = InitDone) \<and>
    ru_runs (rnr_view R x) = [0..<length (ru_runs (rnr_view R x))] \<and>
    length (ru_runs (rnr_view R x)) \<le> length rs \<and> length (ru_chan (rnr_view R x)) \<le> cap"
  using keeps_order [OF assms] by (auto simp: runner_inv_def)

end

interpretation default_runner: runner_contract NewDefaultRunner
  by unfold_locales
    (auto simp: NewDefaultRunner_def runner_start_def intro: running.inv_start runner_inv_step runner_next_run)

text \<open>Without a reader every \<open>Init\<close> that is through with an error occupies the channel.\<close>

fun sent_all :: "init_phase \<Rightarrow> bool" where
  "sent_all InitDone = True"
| "sent_all (Sending es) = (es = [])"
| "sent_all _ = False"

definition room_inv :: "'s runnable_ops list \<Rightarrow> 's runner_state \<Rightarrow> bool" where
  "room_inv rs s \<longleftrightarrow> length (ru_inits s) = length rs \<and>
     length (filter sent_all (ru_inits s)) \<le> length (ru_chan s)"

lemma length_filter_update:
  "i < length xs \<Longrightarrow>
     length (filter P (xs[i := y])) + of_bool (P (xs ! i)) = length (filter P xs) + of_bool (P y)"
proof (induction xs arbitrary: i)
  case (Cons x xs)
  show ?case
  proof (cases i)
    case (Suc j)
    with Cons.IH [of j] Cons.prems show ?thesis by simp
  qed simp
qed simp

definition always_fails :: "'s runnable_ops \<Rightarrow> bool" where
  "always_fails r \<longleftrightarrow> (\<forall>w errs w'. rn_Init r w = Some (errs, w') \<longrightarrow> errs \<noteq> [])"

lemma room_inv_step:
  assumes "\<forall>r \<in> set rs. always_fails r" and "room_inv rs s" and "runner_step cap False rs s t"
  shows "room_inv rs t"
proof -
  have upd: "length (filter sent_all ((ru_inits s)[i := p])) + of_bool (sent_all (ru_inits s ! i)) =
      length (filter sent_all (ru_inits s)) + of_bool (sent_all p)" if "i < length rs" for i p
    using that assms(2) by (intro length_filter_update) (simp add: room_inv_def)
  from assms(3) show ?thesis
  proof cases
    case (launch i)
    with upd [of i Launched] assms(2) show ?thesis by (simp add: room_inv_def)
  next
    case (init i errs w)
    from assms(1) init(2) have "always_fails (rs ! i)" by simp
    with init(4) have "errs \<noteq> []" by (auto simp: always_fails_def)
    with init upd [of i "Sending errs"] assms(2) show ?thesis by (simp add: room_inv_def)
  next
    case (send i e es)
    with upd [of i "Sending es"] assms(2) show ?thesis by (auto simp: room_inv_def split: if_splits)
  next
    case (init_done i)
    with upd [of i InitDone] assms(2) show ?thesis by (simp add: room_inv_def)
  qed (use assms(2) in \<open>simp_all add: room_inv_def\<close>)
qed

interpretation room: step_invariant "runner_start rs" "runner_step cap False rs"
  "\<lambda>s. (\<forall>r \<in> set rs. always_fails r) \<longrightarrow> room_inv rs s" for cap rs
proof
  fix s t :: "'a runner_state"
  show "runner_start rs s \<Longrightarrow> (\<forall>r \<in> set rs. always_fails r) \<longrightarrow> room_inv rs s"
    by (simp add: runner_start_def room_inv_def)
  show "(\<forall>r \<in> set rs. always_fails r) \<longrightarrow> room_inv rs s \<Longrightarrow> runner_step cap False rs s t \<Longrightarrow>
      (\<forall>r \<in> set rs. always_fails r) \<longrightarrow> room_inv rs t"
    using room_inv_step by blast
qed

text \<open>With a reader every \<open>Init\<close> gets through.\<close>

lemma drain_chan:
  "\<exists>t. (runner_step cap True rs)\<^sup>*\<^sup>* s t \<and> ru_chan t = [] \<and> ru_inits t = ru_inits s \<and> ru_runs t = ru_runs s"
proof (induction "ru_chan s" arbitrary: s)
  case (Cons e es)
  let ?u = "s\<lparr>ru_chan := es, ru_received := ru_received s @ [e]\<rparr>"
  have step: "runner_step cap True rs s ?u" using Cons.hyps(2) by (intro receive) simp_all
  have "es = ru_chan ?u" by simp
  from Cons.hyps(1) [OF this] obtain t where "(runner_step cap True rs)\<^sup>*\<^sup>* ?u t" "ru_chan t = []"
    "ru_inits t = ru_inits s" "ru_runs t = ru_runs s" by auto
  with step show ?case by (meson converse_rtranclp_into_rtranclp)
qed auto

lemma send_all:
  assumes "i < length rs"
  shows "ru_inits s ! i = Sending es \<Longrightarrow> length (ru_inits s) = length rs \<Longrightarrow>
    \<exists>t. (runner_step cap True rs)\<^sup>*\<^sup>* s t \<and> ru_inits t = (ru_inits s)[i := InitDone] \<and> ru_runs t = ru_runs s"
proof (induction es arbitrary: s)
  case Nil
  from init_done [OF assms Nil.prems(1)] show ?case
    by (intro exI [of _ "s\<lparr>ru_inits := (ru_inits s)[i := InitDone]\<rparr>"]) (simp add: r_into_rtranclp)
next
  case (Cons e es)
  obtain u where u: "(runner_step cap True rs)\<^sup>*\<^sup>* s u" "ru_chan u = []" "ru_inits u = ru_inits s"
    "ru_runs u = ru_runs s" using drain_chan by blast
  let ?v = "u\<lparr>ru_inits := (ru_inits u)[i := Sending es], ru_received := ru_received u @ [e]\<rparr>"
  from u Cons.prems have "runner_step cap True rs u ?v" by (intro hand_over assms) simp_all
  moreover from Cons.IH [of ?v] u Cons.prems assms obtain t where "(runner_step cap True rs)\<^sup>*\<^sup>* ?v t"
    "ru_inits t = (ru_inits s)[i := InitDone]" "ru_runs t = ru_runs s" by auto
  ultimately show ?case using u(1) by (meson rtranclp.rtrancl_into_rtrancl rtranclp_trans)
qed

definition returns :: "'s runnable_ops \<Rightarrow> bool" where
  "returns r \<longleftrightarrow> (\<forall>w. \<exists>errs w'. rn_Init r w = Some (errs, w'))"

lemma finish_one:
  assumes "i < length rs" and "length (ru_inits s) = length rs" and "returns (rs ! i)"
    and "\<forall>j < i. ru_inits s ! j = InitDone"
  shows "\<exists>t. (runner_step cap True rs)\<^sup>*\<^sup>* s t \<and> ru_inits t = (ru_inits s)[i := InitDone] \<and> ru_runs t = ru_runs s"
proof -
  have launched: ?thesis if "(runner_step cap True rs)\<^sup>*\<^sup>* s u" "ru_inits u ! i = Launched"
    "ru_inits u = (ru_inits s)[i := Launched]" "ru_runs u = ru_runs s" for u
  proof -
    from assms(3) obtain errs w where "rn_Init (rs ! i) (ru_world u) = Some (errs, w)"
      unfolding returns_def by blast
    from init [OF assms(1) that(2) this]
    have "runner_step cap True rs u (u\<lparr>ru_world := w, ru_inits := (ru_inits u)[i := Sending errs]\<rparr>)" .
    with send_all [OF assms(1), of "u\<lparr>ru_world := w, ru_inits := (ru_inits u)[i := Sending errs]\<rparr>" errs cap]
      that assms(1,2) show ?thesis
      by (auto intro: rtranclp_trans converse_rtranclp_into_rtranclp)
  qed
  show ?thesis
  proof (cases "ru_inits s ! i")
    case NotLaunched
    with launch [OF assms(1) NotLaunched] assms(4)
    have "runner_step cap True rs s (s\<lparr>ru_inits := (ru_inits s)[i := Launched]\<rparr>)" by simp
    with assms(1,2) show ?thesis
      by (intro launched [of "s\<lparr>ru_inits := (ru_inits s)[i := Launched]\<rparr>"]) auto
  next
    case Launched
    then have "(ru_inits s)[i := Launched] = ru_inits s" by (metis list_update_id)
    with Launched show ?thesis by (intro launched [of s]) simp_all
  next
    case (Sending es)
    from send_all [OF assms(1) Sending assms(2)] show ?thesis .
  next
    case InitDone
    then have "(ru_inits s)[i := InitDone] = ru_inits s" by (metis list_update_id)
    then show ?thesis by (intro exI [of _ s]) simp
  qed
qed

lemma finish_all:
  assumes "\<forall>r \<in> set rs. returns r" and "length (ru_inits s) = length rs"
  shows "k \<le> length rs \<Longrightarrow> \<exists>t. (runner_step cap True rs)\<^sup>*\<^sup>* s t \<and> length (ru_inits t) = length rs \<and>
    (\<forall>j < k. ru_inits t ! j = InitDone) \<and> ru_runs t = ru_runs s"
proof (induction k)
  case 0
  with assms(2) show ?case by auto
next
  case (Suc k)
  then obtain u where u: "(runner_step cap True rs)\<^sup>*\<^sup>* s u" "length (ru_inits u) = length rs"
    "\<forall>j < k. ru_inits u ! j = InitDone" "ru_runs u = ru_runs s" by auto
  from Suc.prems assms(1) have "k < length rs" and "returns (rs ! k)" by simp_all
  from finish_one [OF this(1) u(2) this(2) u(3), of cap] obtain t where
    t: "(runner_step cap True rs)\<^sup>*\<^sup>* u t" "ru_inits t = (ru_inits u)[k := InitDone]" "ru_runs t = ru_runs u" by blast
  then have "\<forall>j < Suc k. ru_inits t ! j = InitDone"
    using u Suc.prems by (auto simp: less_Suc_eq nth_list_update)
  with t u show ?case by (intro exI [of _ t]) (auto intro: rtranclp_trans)
qed

lemma run_all:
  assumes "\<forall>j < length rs. ru_inits s ! j = InitDone"
  shows "length (ru_runs s) \<le> length rs \<Longrightarrow>
    \<exists>t. (runner_step cap reading rs)\<^sup>*\<^sup>* s t \<and> length (ru_runs t) = length rs"
  using assms
proof (induction "length rs - length (ru_runs s)" arbitrary: s)
  case (Suc m)
  let ?u = "s\<lparr>ru_runs := ru_runs s @ [length (ru_runs s)]\<rparr>"
  from Suc have step: "runner_step cap reading rs s ?u" by (intro run) simp_all
  have m: "m = length rs - length (ru_runs ?u)" using Suc.hyps(2) by simp
  have "\<exists>t. (runner_step cap reading rs)\<^sup>*\<^sup>* ?u t \<and> length (ru_runs t) = length rs"
    using Suc.hyps(2) Suc.prems by (intro Suc.hyps(1) [OF m]) simp_all
  with step show ?case by (meson converse_rtranclp_into_rtranclp)
qed auto

subsection \<open>What runnables report\<close>

text \<open>
  The contract of runnables towards whoever reads the error channel: each error one of
  their \<open>Init\<close> sends is of a given kind, and there is at most one per runnable. The
  invariant bounds the errors sent or still to be sent.
\<close>

locale reporting =
  fixes rs :: "'s runnable_ops list" and kind :: "err \<Rightarrow> bool"
  assumes Init_kind: "r \<in> set rs \<Longrightarrow> rn_Init r w = Some (errs, w') \<Longrightarrow> list_all kind errs \<and> length errs \<le> 1"
begin

definition phase_ok :: "init_phase \<Rightarrow> bool" where
  "phase_ok p = (case p of Sending es \<Rightarrow> list_all kind es \<and> length es \<le> 1 | _ \<Rightarrow> True)"

definition unsent :: "init_phase \<Rightarrow> nat" where
  "unsent p = (case p of Sending es \<Rightarrow> length es | InitDone \<Rightarrow> 0 | _ \<Rightarrow> 1)"

definition report_inv :: "nat \<Rightarrow> 's runner_state \<Rightarrow> bool" where
  "report_inv n s \<longleftrightarrow> length (ru_inits s) = length rs \<and> list_all phase_ok (ru_inits s) \<and>
     list_all kind (ru_chan s) \<and> list_all kind (ru_received s) \<and>
     length (ru_chan s) + length (ru_received s) + sum_list (map unsent (ru_inits s)) \<le> n"

lemma list_all_update: "list_all P xs \<Longrightarrow> P x \<Longrightarrow> list_all P (xs[i := x])"
  by (cases "i < length xs") (auto simp: list_all_length nth_list_update)

lemma unsent_update:
  "i < length ps \<Longrightarrow> sum_list (map unsent (ps[i := p])) + unsent (ps ! i) = sum_list (map unsent ps) + unsent p"
  by (induction ps arbitrary: i) (auto simp: less_Suc_eq_0_disj)

lemma report_inv_step:
  assumes "report_inv n s" and "runner_step cap reading rs s t"
  shows "report_inv n t"
proof -
  have upd: "report_inv n (s\<lparr>ru_world := w, ru_inits := (ru_inits s)[i := p], ru_chan := ch, ru_received := rc\<rparr>)"
    if "i < length rs" "phase_ok p" "list_all kind ch" "list_all kind rc"
      "length ch + length rc + unsent p \<le> length (ru_chan s) + length (ru_received s) + unsent (ru_inits s ! i)"
    for i p w ch rc
    using assms(1) that unsent_update [of i "ru_inits s" p]
    by (simp add: report_inv_def list_all_update)
  have nth: "phase_ok (ru_inits s ! i)" if "i < length rs" for i
    using assms(1) that by (simp add: report_inv_def list_all_length)
  have chan: "list_all kind (ru_chan s)" "list_all kind (ru_received s)"
    using assms(1) by (simp_all add: report_inv_def)
  from assms(2) show ?thesis
  proof cases
    case (launch i)
    with upd [of i Launched "ru_chan s" "ru_received s" "ru_world s"] chan show ?thesis
      by (simp add: phase_ok_def unsent_def)
  next
    case (init i errs w)
    from Init_kind [OF _ init(4), of] init(2) have "list_all kind errs \<and> length errs \<le> 1" by simp
    with init upd [of i "Sending errs" "ru_chan s" "ru_received s" w] chan show ?thesis
      by (simp add: phase_ok_def unsent_def)
  next
    case (send i e es)
    with nth [of i] upd [of i "Sending es" "ru_chan s @ [e]" "ru_received s" "ru_world s"] chan show ?thesis
      by (simp add: phase_ok_def unsent_def)
  next
    case (hand_over i e es)
    have "report_inv n (s\<lparr>ru_world := ru_world s, ru_inits := (ru_inits s)[i := Sending es],
        ru_chan := ru_chan s, ru_received := ru_received s @ [e]\<rparr>)"
      using hand_over nth [of i] chan by (intro upd) (simp_all add: phase_ok_def unsent_def)
    then show ?thesis unfolding hand_over(1) by simp
  next
    case (init_done i)
    with upd [of i InitDone "ru_chan s" "ru_received s" "ru_world s"] chan show ?thesis
      by (simp add: phase_ok_def unsent_def)
  qed (use assms(1) in \<open>simp_all add: report_inv_def\<close>)
qed

lemma report_inv_start: "runner_start rs s \<Longrightarrow> report_inv (length rs) s"
  by (simp add: runner_start_def report_inv_def phase_ok_def unsent_def list_all_iff sum_list_replicate)

end

sublocale reporting \<subseteq> report: step_invariant "runner_start rs" "runner_step cap reading rs" "report_inv (length rs)"
  for cap reading
  by unfold_locales (auto intro: report_inv_start report_inv_step)

context reporting
begin

lemma reported:
  assumes "runner cap reading rs s"
  shows "list_all kind (ru_chan s @ ru_received s) \<and> length (ru_chan s @ ru_received s) \<le> length rs"
  using report.reach_inv [OF assms [unfolded runner_def]] by (simp add: report_inv_def)

end

interpretation controllers: reporting "map controller_runnable cs"
  "\<lambda>e. errors_Is (Some e) (Some (ErrorPtr ErrController))" for cs
  by unfold_locales
    (auto simp: controller_runnable_def controller_Init_def alloc_def split: option.splits prod.splits if_splits)

subsection \<open>Properties: the runner\<close>

text \<open>
  C18. No runnable runs before all are initialized: in every state the goroutines of
  \<open>runner\<close> reach, for any interleaving, channel capacity and reader, a started \<open>Run\<close>
  means that the \<open>Init\<close> of every runnable has returned; each \<open>Run\<close> is started at most
  once, in order; the channel is never over its capacity.
\<close>

theorem init_before_run:
  assumes "DefaultRunner_Run cap reading rs s"
  shows "(if ru_runs s = [] then True else \<forall>j \<in> {..<length rs}. ru_inits s ! j = InitDone) \<and>
    ru_runs s = [0..<length (ru_runs s)] \<and> length (ru_runs s) \<le> length rs \<and> length (ru_chan s) \<le> cap"
  using default_runner.order_of_runs [of cap reading rs s, unfolded NewDefaultRunner_Run, OF assms]
  by (simp add: NewDefaultRunner_def split: if_splits)

text \<open>
  With a reader on the error channel every runnable is started: from every reachable
  state, if each \<open>Init\<close> returns (with or without errors), there are steps after which the
  \<open>Run\<close> of every runnable was started; so failed initializations do not keep any runnable,
  not even the failed one, from running.
\<close>

lemma runner_starts_all:
  assumes "DefaultRunner_Run cap True rs s" and "\<forall>r \<in> set rs. returns r"
  shows "\<exists>t. (runner_step cap True rs)\<^sup>*\<^sup>* s t \<and> ru_runs t = [0..<length rs]"
proof -
  from assms(1) have reach: "reach (runner_start rs) (runner_step cap True rs) s"
    by (simp add: DefaultRunner_Run_def runner_def)
  then have inv: "runner_inv cap rs s" by (rule running.reach_inv)
  then have len: "length (ru_inits s) = length rs" by (simp add: runner_inv_def)
  from finish_all [OF assms(2) len order_refl] obtain u where
    u: "(runner_step cap True rs)\<^sup>*\<^sup>* s u" "\<forall>j < length rs. ru_inits u ! j = InitDone" by blast
  from running.steps_inv [OF u(1) inv] have "length (ru_runs u) \<le> length rs" by (simp add: runner_inv_def)
  from run_all [OF u(2) this] obtain t where
    t: "(runner_step cap True rs)\<^sup>*\<^sup>* u t" "length (ru_runs t) = length rs" by blast
  have "(runner_step cap True rs)\<^sup>*\<^sup>* s t" using u(1) t(1) by (rule rtranclp_trans)
  moreover from running.steps_inv [OF this inv] t(2) have "ru_runs t = [0..<length rs]"
    unfolding runner_inv_def by metis
  ultimately show ?thesis by blast
qed

text \<open>
  Without a reader, errors block the runner: if more runnables fail to initialize than
  the channel has room, no \<open>Run\<close> is ever started. (The default runner runs in the
  caller's goroutine, so the caller cannot be that reader.)
\<close>

lemma unread_errors_block_runner:
  assumes "DefaultRunner_Run cap False rs s" and "\<forall>r \<in> set rs. always_fails r" and "cap < length rs"
  shows "ru_runs s = []"
proof (rule ccontr)
  assume runs: "ru_runs s \<noteq> []"
  from assms(1) have reach: "reach (runner_start rs) (runner_step cap False rs) s"
    by (simp add: DefaultRunner_Run_def runner_def)
  from running.reach_inv [OF reach] runs have len: "length (ru_inits s) = length rs"
    and all: "\<forall>j < length rs. ru_inits s ! j = InitDone" and room: "length (ru_chan s) \<le> cap"
    by (simp_all add: runner_inv_def)
  from len all have "filter sent_all (ru_inits s) = ru_inits s"
    by (auto simp: in_set_conv_nth intro!: filter_True)
  with room.reach_inv [OF reach] assms(2) len room assms(3) show False by (simp add: room_inv_def)
qed

text \<open>
  Running controllers, the reader of the error channel gets only errors that match
  \<open>ErrController\<close>, at most one per controller, whatever the interleaving.
\<close>

lemma controllers_report:
  assumes "DefaultRunner_Run cap reading (map controller_runnable cs) s"
  shows "list_all (\<lambda>e. errors_Is (Some e) (Some (ErrorPtr ErrController))) (ru_chan s @ ru_received s) \<and>
    length (ru_chan s @ ru_received s) \<le> length cs"
  using controllers.reported [OF assms [unfolded DefaultRunner_Run_def]] by simp

subsection \<open>Properties: leader election\<close>

text \<open>
  \<open>NewLeaderRunner\<close> on every branch: without a configuration an error; otherwise the
  lock type is defaulted in the caller's configuration (also when the client then fails)
  and nothing else of it changes; the client is made from a copy of the base configuration
  in which only rate, burst and timeout are the election's; a client failure is an error
  with its cause. Errors match \<open>ErrController\<close>.
\<close>

lemma new_leader_runner:
  "(case NewLeaderRunner NewForConfig uid config restcfg w of (res, config', w') \<Rightarrow>
     (case config of
        None \<Rightarrow> config' = None \<and> (\<exists>e. res = Inl e \<and> errors_Is (Some e) (Some (ErrorPtr ErrController)))
      | Some cfg \<Rightarrow>
          (\<exists>cfg'. config' = Some cfg' \<and> cfg'\<lparr>lc_LockType := lc_LockType cfg\<rparr> = cfg \<and>
             lc_LockType cfg' = (if lc_LockType cfg = [] then ''leases'' else lc_LockType cfg) \<and>
             (case NewForConfig \<lparr>rest_QPS = lc_RequestRate cfg, rest_Burst = lc_RequestBurst cfg,
                      rest_Timeout = lc_RenewDeadline cfg, rest_other = rest_other restcfg\<rparr> of
                Inl c \<Rightarrow> (\<exists>e. res = Inl e \<and> errors_Is (Some e) (Some (ErrorPtr ErrController)) \<and>
                  errors_Is (Some e) (Some c))
              | Inr cli \<Rightarrow> res = Inr \<lparr>lr_id = uid, lr_config = cfg', lr_k8scli = cli\<rparr> \<and> w' = w))))"
proof (cases config)
  case None
  then show ?thesis by (auto simp: NewLeaderRunner_def alloc_def errors_Is_Error_New)
next
  case (Some cfg)
  define cfg' where "cfg' = (if lc_LockType cfg = [] then cfg\<lparr>lc_LockType := ''leases''\<rparr> else cfg)"
  have same: "cfg'\<lparr>lc_LockType := lc_LockType cfg\<rparr> = cfg"
    "lc_LockType cfg' = (if lc_LockType cfg = [] then ''leases'' else lc_LockType cfg)"
    by (simp_all add: cfg'_def)
  have rest: "restConfig cfg' restcfg = \<lparr>rest_QPS = lc_RequestRate cfg, rest_Burst = lc_RequestBurst cfg,
      rest_Timeout = lc_RenewDeadline cfg, rest_other = rest_other restcfg\<rparr>"
    by (simp add: cfg'_def restConfig_def)
  show ?thesis
    unfolding Some NewLeaderRunner_def Let_def option.case cfg'_def [symmetric] rest
    using same by (auto simp: alloc_def errors_Is_Error_New run_format split: sum.split)
qed

text \<open>
  C38. \<open>Run\<close> of the leader runner never panics and sends at most one error, never nil: a
  failure to build the lock or the elector, matching \<open>ErrController\<close> and its cause;
  otherwise it starts the elector on the lock and the three durations of the configuration.
  Losing the leadership sends an error that matches \<open>ErrController\<close>.
\<close>

theorem leader_run_outcome:
  "(case LeaderRunner_Run new_lock NewLeaderElector \<lparr>lr_id = uid, lr_config = cfg, lr_k8scli = cli\<rparr> w of
      (res, w') \<Rightarrow>
      (case new_lock (lc_LockType cfg) (lc_Namespace cfg) (lc_Name cfg) cli uid of
         Inl c \<Rightarrow> (\<exists>e. res = Ret (Inl (Some e)) \<and> errors_Is (Some e) (Some (ErrorPtr ErrController)) \<and>
           errors_Is (Some e) (Some c))
       | Inr lock \<Rightarrow>
           (case NewLeaderElector \<lparr>ec_Lock = lock, ec_LeaseDuration = lc_LeaseDuration cfg,
                ec_RenewDeadline = lc_RenewDeadline cfg, ec_RetryPeriod = lc_RenewPeriod cfg\<rparr> of
              Inl c \<Rightarrow> (\<exists>e. res = Ret (Inl (Some e)) \<and> errors_Is (Some e) (Some (ErrorPtr ErrController)) \<and>
                errors_Is (Some e) (Some c))
            | Inr elector \<Rightarrow> res = Ret (Inr elector) \<and> w' = w))) \<and>
   err_text (fst (OnStoppedLeading \<lparr>lr_id = uid, lr_config = cfg, lr_k8scli = cli\<rparr> w)) =
     Some (''controller - running [name='' @ lc_Name cfg @ '']: leadership lost'') \<and>
   errors_Is (Some (fst (OnStoppedLeading \<lparr>lr_id = uid, lr_config = cfg, lr_k8scli = cli\<rparr> w)))
     (Some (ErrorPtr ErrController))"
  (is "?run \<and> ?text \<and> ?is")
proof (intro conjI)
  show ?run
    by (auto simp: LeaderRunner_Run_def Error_Wrap_def Let_def alloc_def errors_Is_Error_New run_format split: sum.split)
  show ?text
    by (simp add: OnStoppedLeading_def alloc_def ErrController_def err_text_Error_New run_format render_def arg_text_def surplus_def err_format_def New_def)
  show ?is by (simp add: OnStoppedLeading_def alloc_def)
qed

subsection \<open>Witnesses\<close>

text \<open>Two runnables whose \<open>Init\<close> reports an error, in the state before any step.\<close>

definition failing_runnable :: "nat runnable_ops" where
  "failing_runnable = \<lparr>rn_Init = (\<lambda>w. Some ([ErrorString 95 ''no sync''], w)), rn_Run = (\<lambda>_. True)\<rparr>"

definition example_runner :: "nat runner_state" where
  "example_runner = \<lparr>ru_world = 0, ru_inits = [NotLaunched, NotLaunched], ru_chan = [], ru_received = [], ru_runs = []\<rparr>"

lemma example_runner_start:
  "DefaultRunner_Run cap reading [failing_runnable, failing_runnable] example_runner"
  by (simp add: DefaultRunner_Run_def runner_def reach_start runner_start_def example_runner_def numeral_2_eq_2)

lemma failing_runnable_simps [simp]: "returns failing_runnable" "always_fails failing_runnable"
  by (auto simp: returns_def always_fails_def failing_runnable_def)

lemma runner_starts_all_witness:
  "\<exists>t. (runner_step 1 True [failing_runnable, failing_runnable])\<^sup>*\<^sup>* example_runner t \<and> ru_runs t = [0, 1]"
  using runner_starts_all [OF example_runner_start [of 1 True]] by (simp add: numeral_2_eq_2)

theorem init_before_run_witness:
  "\<exists>t. (runner_step 1 True [failing_runnable, failing_runnable])\<^sup>*\<^sup>* example_runner t \<and> ru_runs t \<noteq> [] \<and>
     ru_inits t ! 1 = InitDone"
proof -
  let ?rs = "[failing_runnable, failing_runnable]"
  have "length (ru_inits example_runner) = length ?rs" by (simp add: example_runner_def)
  from finish_all [OF _ this order_refl, of 1] obtain u where u: "(runner_step 1 True ?rs)\<^sup>*\<^sup>* example_runner u"
    "\<forall>j < length ?rs. ru_inits u ! j = InitDone" "ru_runs u = ru_runs example_runner" by auto
  from run_all [OF u(2), of 1 True] u(3) obtain t where t: "(runner_step 1 True ?rs)\<^sup>*\<^sup>* u t" "length (ru_runs t) = 2"
    by (auto simp: example_runner_def)
  from u(1) t(1) have steps: "(runner_step 1 True ?rs)\<^sup>*\<^sup>* example_runner t" by (rule rtranclp_trans)
  then have "DefaultRunner_Run 1 True ?rs t"
    using example_runner_start [of 1 True] by (simp add: DefaultRunner_Run_def runner_def reach_steps)
  from init_before_run [OF this] t(2) have "ru_runs t \<noteq> []" "ru_inits t ! 1 = InitDone" by auto
  with steps show ?thesis by blast
qed

lemma unread_errors_block_runner_witness:
  "\<exists>t. runner_step 1 False [failing_runnable, failing_runnable] example_runner t \<and> ru_runs t = []"
proof -
  let ?rs = "[failing_runnable, failing_runnable]"
  let ?t = "example_runner\<lparr>ru_inits := (ru_inits example_runner)[0 := Launched]\<rparr>"
  have step: "runner_step 1 False ?rs example_runner ?t"
    by (rule launch) (simp_all add: example_runner_def)
  then have "DefaultRunner_Run 1 False ?rs ?t"
    using example_runner_start [of 1 False] by (auto simp: DefaultRunner_Run_def runner_def intro: reach_step)
  from unread_errors_block_runner [OF this] step show ?thesis by (intro exI [of _ ?t]) simp
qed

text \<open>A controller whose informer is stopped before it has synced.\<close>

definition unsynced_controller :: "(example_queue, (example_queue, string) kube_world) controller" where
  "unsynced_controller = (example_controller None)\<lparr>c_informer :=
     (example_informer None)\<lparr>inf_WaitForCacheSync := (\<lambda>w. Some (False, w))\<rparr>\<rparr>"

lemma controllers_report_witness:
  "\<exists>t. DefaultRunner_Run 1 True [controller_runnable unsynced_controller] t \<and> ru_chan t \<noteq> [] \<and>
     list_all (\<lambda>e. errors_Is (Some e) (Some (ErrorPtr ErrController))) (ru_chan t)"
proof -
  let ?rs = "[controller_runnable unsynced_controller]"
  define s0 where "s0 = \<lparr>ru_world = example_kube [] False, ru_inits = [NotLaunched], ru_chan = [],
    ru_received = [], ru_runs = []\<rparr>"
  define s1 where "s1 = s0\<lparr>ru_inits := (ru_inits s0)[0 := Launched]\<rparr>"
  obtain e w where init: "rn_Init (?rs ! 0) (ru_world s1) = Some ([e], w)"
    by (auto simp: controller_runnable_def controller_Init_def unsynced_controller_def example_informer_def alloc_def)
  define s2 where "s2 = s1\<lparr>ru_world := w, ru_inits := (ru_inits s1)[0 := Sending [e]]\<rparr>"
  define s3 where "s3 = s2\<lparr>ru_inits := (ru_inits s2)[0 := Sending []], ru_chan := ru_chan s2 @ [e]\<rparr>"
  have "reach (runner_start ?rs) (runner_step 1 True ?rs) s0"
    by (rule reach_start) (simp add: runner_start_def s0_def)
  moreover have "runner_step 1 True ?rs s0 s1"
    unfolding s1_def by (rule launch) (simp_all add: s0_def)
  ultimately have "reach (runner_start ?rs) (runner_step 1 True ?rs) s1" by (rule reach_step)
  moreover have "runner_step 1 True ?rs s1 s2"
    unfolding s2_def by (rule runner_step.init [OF _ _ init]) (simp_all add: s1_def s0_def)
  ultimately have "reach (runner_start ?rs) (runner_step 1 True ?rs) s2" by (rule reach_step)
  moreover have "runner_step 1 True ?rs s2 s3"
    unfolding s3_def by (rule send) (simp_all add: s2_def s1_def s0_def)
  ultimately have "reach (runner_start ?rs) (runner_step 1 True ?rs) s3" by (rule reach_step)
  then have run: "DefaultRunner_Run 1 True (map controller_runnable [unsynced_controller]) s3"
    by (simp add: DefaultRunner_Run_def runner_def)
  from controllers_report [OF run] run show ?thesis by (intro exI [of _ s3]) (simp add: s3_def)
qed

end
