(* ===== verification/Leadership.thy ===== *)
theory Leadership
  imports Runners
begin

section \<open>Running as the leader: \<open>LeaderRunner\<close> of \<open>controller/runner.go\<close>\<close>

text \<open>
  \<open>Run\<close> of the leader runner builds an elector and starts it as a goroutine; the elector
  calls back when it wins the election (\<open>runner\<close> in a goroutine of its own) and when it
  ends (an error on the channel). The goroutines are a step relation that contains the
  steps of \<open>runner\<close> (theory \<open>Runners\<close>). The elector of client-go is an argument.
\<close>

subsection \<open>What client-go documents of its elector\<close>

text \<open>
  An elector does steps of its own and calls the callbacks. \<open>OnStartedLeading\<close> is called
  once, when the candidate becomes the leader; \<open>OnStoppedLeading\<close> once, when the elector
  ends, also if it never led.
\<close>

datatype callback = StartedLeading | StoppedLeading

datatype election = Candidate | Leader | Retired

type_synonym 'e elector_step = "'e \<Rightarrow> callback option \<Rightarrow> 'e \<Rightarrow> bool"

definition election_laws ::
  "('k election_config \<Rightarrow> err + 'e) \<Rightarrow> 'e elector_step \<Rightarrow> ('e \<Rightarrow> election) \<Rightarrow> bool" where
  "election_laws NewLeaderElector elect phase \<longleftrightarrow>
     (\<forall>config e. NewLeaderElector config = Inr e \<longrightarrow> phase e = Candidate) \<and>
     (\<forall>e e'. elect e None e' \<longrightarrow> phase e' = phase e) \<and>
     (\<forall>e e'. elect e (Some StartedLeading) e' \<longrightarrow> phase e = Candidate \<and> phase e' = Leader) \<and>
     (\<forall>e e'. elect e (Some StoppedLeading) e' \<longrightarrow> phase e \<noteq> Retired \<and> phase e' = Retired)"

lemma election_lawsD:
  assumes "election_laws NewLeaderElector elect phase"
  shows "NewLeaderElector config = Inr e \<Longrightarrow> phase e = Candidate"
    and "elect e None e' \<Longrightarrow> phase e' = phase e"
    and "elect e (Some StartedLeading) e' \<Longrightarrow> phase e = Candidate \<and> phase e' = Leader"
    and "elect e (Some StoppedLeading) e' \<Longrightarrow> phase e \<noteq> Retired \<and> phase e' = Retired"
  using assms by (auto simp: election_laws_def)

subsection \<open>The goroutines\<close>

text \<open>
  \<open>Run\<close> has not built the elector, has failed to, or has started it. Errors that \<open>Run\<close> or
  the stopped elector are about to send wait in \<open>ld_sending\<close>; \<open>ld_leading\<close> says that the
  goroutine of \<open>runner\<close> was started.
\<close>

datatype 'e leader_main = Building | Failed | Electing 'e

record ('e, 's) leader_state =
  ld_main :: "'e leader_main"
  ld_leading :: bool
  ld_sending :: "err list"
  ld_runner :: "'s runner_state"

abbreviation ld_world :: "('e, 's) leader_state \<Rightarrow> 's" where
  "ld_world s \<equiv> ru_world (ld_runner s)"

text \<open>The argument \<open>launch\<close> is the result of \<open>LeaderRunner_Run\<close> for a given state.\<close>

inductive leader_step ::
  "nat \<Rightarrow> bool \<Rightarrow> 'z go_world_scheme runnable_ops list \<Rightarrow> 'c LeaderRunner
     \<Rightarrow> ('z go_world_scheme, err option + 'e) go \<Rightarrow> 'e elector_step
     \<Rightarrow> ('e, 'z go_world_scheme) leader_state \<Rightarrow> ('e, 'z go_world_scheme) leader_state \<Rightarrow> bool"
  for cap reading rs r launch elect where
  build_fails: "ld_main s = Building \<Longrightarrow> launch (ld_world s) = (Ret (Inl (Some e)), w) \<Longrightarrow>
    leader_step cap reading rs r launch elect s
      (s\<lparr>ld_main := Failed, ld_sending := [e], ld_runner := (ld_runner s)\<lparr>ru_world := w\<rparr>\<rparr>)"
| build: "ld_main s = Building \<Longrightarrow> launch (ld_world s) = (Ret (Inr e), w) \<Longrightarrow>
    leader_step cap reading rs r launch elect s
      (s\<lparr>ld_main := Electing e, ld_runner := (ld_runner s)\<lparr>ru_world := w\<rparr>\<rparr>)"
| elector: "ld_main s = Electing e \<Longrightarrow> elect e None e' \<Longrightarrow>
    leader_step cap reading rs r launch elect s (s\<lparr>ld_main := Electing e'\<rparr>)"
| started: "ld_main s = Electing e \<Longrightarrow> elect e (Some StartedLeading) e' \<Longrightarrow>
    leader_step cap reading rs r launch elect s (s\<lparr>ld_main := Electing e', ld_leading := True\<rparr>)"
| stopped: "ld_main s = Electing e \<Longrightarrow> elect e (Some StoppedLeading) e' \<Longrightarrow>
    OnStoppedLeading r (ld_world s) = (err, w) \<Longrightarrow>
    leader_step cap reading rs r launch elect s
      (s\<lparr>ld_main := Electing e', ld_sending := ld_sending s @ [err], ld_runner := (ld_runner s)\<lparr>ru_world := w\<rparr>\<rparr>)"
| lead: "ld_leading s \<Longrightarrow> runner_step cap reading rs (ld_runner s) u \<Longrightarrow>
    leader_step cap reading rs r launch elect s (s\<lparr>ld_runner := u\<rparr>)"
| send_error: "ld_sending s = e # es \<Longrightarrow> length (ru_chan (ld_runner s)) < cap \<Longrightarrow>
    leader_step cap reading rs r launch elect s
      (s\<lparr>ld_sending := es, ld_runner := (ld_runner s)\<lparr>ru_chan := ru_chan (ld_runner s) @ [e]\<rparr>\<rparr>)"
| hand_over_error: "reading \<Longrightarrow> ld_sending s = e # es \<Longrightarrow> ru_chan (ld_runner s) = [] \<Longrightarrow>
    leader_step cap reading rs r launch elect s
      (s\<lparr>ld_sending := es, ld_runner := (ld_runner s)\<lparr>ru_received := ru_received (ld_runner s) @ [e]\<rparr>\<rparr>)"
| read_error: "reading \<Longrightarrow> ru_chan (ld_runner s) = e # es \<Longrightarrow>
    leader_step cap reading rs r launch elect s
      (s\<lparr>ld_runner := (ld_runner s)\<lparr>ru_chan := es, ru_received := ru_received (ld_runner s) @ [e]\<rparr>\<rparr>)"
| elsewhere: "leader_step cap reading rs r launch elect s (s\<lparr>ld_runner := (ld_runner s)\<lparr>ru_world := w\<rparr>\<rparr>)"

definition leader_start :: "'s runnable_ops list \<Rightarrow> ('e, 's) leader_state \<Rightarrow> bool" where
  "leader_start rs s \<longleftrightarrow> ld_main s = Building \<and> \<not> ld_leading s \<and> ld_sending s = [] \<and> runner_start rs (ld_runner s)"

definition leader_run ::
  "nat \<Rightarrow> bool \<Rightarrow> 'z go_world_scheme runnable_ops list
     \<Rightarrow> (string \<Rightarrow> string \<Rightarrow> string \<Rightarrow> 'c \<Rightarrow> string \<Rightarrow> err + 'k) \<Rightarrow> ('k election_config \<Rightarrow> err + 'e)
     \<Rightarrow> 'e elector_step \<Rightarrow> 'c LeaderRunner \<Rightarrow> ('e, 'z go_world_scheme) leader_state \<Rightarrow> bool" where
  "leader_run cap reading rs new_lock NewLeaderElector elect r =
     reach (leader_start rs)
       (leader_step cap reading rs r (LeaderRunner_Run new_lock NewLeaderElector r) elect)"

subsection \<open>Nothing happens before the election is won\<close>

definition leader_inv :: "nat \<Rightarrow> 's runnable_ops list \<Rightarrow> ('e \<Rightarrow> election) \<Rightarrow> ('e, 's) leader_state \<Rightarrow> bool" where
  "leader_inv cap rs phase s \<longleftrightarrow> runner_inv cap rs (ld_runner s) \<and>
     (if ld_leading s then \<exists>e. ld_main s = Electing e \<and> phase e \<noteq> Candidate
      else ru_inits (ld_runner s) = replicate (length rs) NotLaunched \<and> ru_runs (ld_runner s) = [])"

lemma leader_inv_step:
  assumes laws: "election_laws NewLeaderElector elect phase" and inv: "leader_inv cap rs phase s"
    and step: "leader_step cap reading rs r launch elect s t"
  shows "leader_inv cap rs phase t"
proof -
  note laws' = election_lawsD [OF laws]
  from inv have run: "runner_inv cap rs (ld_runner s)" by (simp add: leader_inv_def)
  from step show ?thesis
  proof cases
    case (build_fails e w)
    with inv show ?thesis by (auto simp: leader_inv_def runner_inv_def)
  next
    case (build e w)
    with inv show ?thesis by (auto simp: leader_inv_def runner_inv_def)
  next
    case (elector e e')
    with inv laws'(2) show ?thesis by (auto simp: leader_inv_def)
  next
    case (started e e')
    with laws'(3) [OF started(3)] run show ?thesis by (simp add: leader_inv_def)
  next
    case (stopped e e' err w)
    with laws'(4) [OF stopped(3)] inv show ?thesis by (auto simp: leader_inv_def runner_inv_def)
  next
    case (lead u)
    with inv runner_inv_step [OF run lead(3)] show ?thesis by (auto simp: leader_inv_def)
  qed (use inv in \<open>auto simp: leader_inv_def runner_inv_def\<close>)
qed

lemma leader_inv_start: "leader_start rs s \<Longrightarrow> leader_inv cap rs phase s"
  by (simp add: leader_start_def leader_inv_def runner_start_def runner_inv_def)

interpretation leading: step_invariant "leader_start rs"
  "leader_step cap reading rs r (LeaderRunner_Run new_lock NewLeaderElector r) elect"
  "\<lambda>s. election_laws NewLeaderElector elect phase \<longrightarrow> leader_inv cap rs phase s"
  for rs cap reading r new_lock NewLeaderElector elect phase
  by unfold_locales (auto intro: leader_inv_start leader_inv_step)

text \<open>
  The leader runner as a \<open>Runner\<close>; its order does not depend on the elector. The context it
  passes to \<open>runner\<close> belongs to the elector: \<open>cancelled\<close> tells whether it is done.
\<close>

definition leader_runner ::
  "('e \<Rightarrow> bool) \<Rightarrow> (string \<Rightarrow> string \<Rightarrow> string \<Rightarrow> 'c \<Rightarrow> string \<Rightarrow> err + 'k) \<Rightarrow> ('k election_config \<Rightarrow> err + 'e)
     \<Rightarrow> 'e elector_step \<Rightarrow> 'c LeaderRunner
     \<Rightarrow> (('e, 'z go_world_scheme) leader_state, 'z go_world_scheme) runner_ops" where
  "leader_runner cancelled new_lock NewLeaderElector elect r =
     \<lparr>rnr_start = leader_start,
      rnr_step = (\<lambda>cap reading rs. leader_step cap reading rs r (LeaderRunner_Run new_lock NewLeaderElector r) elect),
      rnr_view = ld_runner, rnr_put = (\<lambda>w s. s\<lparr>ld_runner := (ld_runner s)\<lparr>ru_world := w\<rparr>\<rparr>),
      rnr_ctx = (\<lambda>s d. d = (case ld_main s of Electing e \<Rightarrow> cancelled e | _ \<Rightarrow> False))\<rparr>"

lemma leader_runner_Run:
  "rnr_Run (leader_runner cancelled new_lock NewLeaderElector elect r) cap reading rs =
     leader_run cap reading rs new_lock NewLeaderElector elect r"
  by (simp add: rnr_Run_def leader_runner_def leader_run_def)

lemma leader_runner_start: "leader_start rs s \<Longrightarrow> runner_inv cap rs (ld_runner s)"
  by (simp add: leader_start_def runner_start_def runner_inv_def)

lemma leader_runner_inv:
  "leader_step cap reading rs r launch elect s t \<Longrightarrow> runner_inv cap rs (ld_runner s) \<Longrightarrow> runner_inv cap rs (ld_runner t)"
  by (erule leader_step.cases) (auto simp: runner_inv_step, auto simp: runner_inv_def)

lemma leader_next_run: "leader_step cap reading rs r launch elect s t \<Longrightarrow> next_run (ld_runner s) (ld_runner t)"
  by (erule leader_step.cases) (auto intro: runner_next_run, auto simp: next_run_def)

interpretation leader_runner: runner_contract "leader_runner cancelled new_lock NewLeaderElector elect r"
  for cancelled new_lock NewLeaderElector elect r
  by unfold_locales
    (auto simp: leader_runner_def fun_eq_iff intro: leader_runner_start leader_runner_inv leader_next_run,
     auto simp: leader_start_def runner_start_def)

subsection \<open>What a leader reports\<close>

text \<open>The error a leader runner itself has caused so far.\<close>

fun own_errors :: "('e \<Rightarrow> election) \<Rightarrow> 'e leader_main \<Rightarrow> nat" where
  "own_errors phase Building = 0"
| "own_errors phase Failed = 1"
| "own_errors phase (Electing e) = (if phase e = Retired then 1 else 0)"

locale leader_reporting = reporting rs kind
  for rs :: "'z go_world_scheme runnable_ops list" and kind :: "err \<Rightarrow> bool" +
  fixes r :: "'c LeaderRunner"
    and launch :: "('z go_world_scheme, err option + 'e) go"
  assumes launch_kind: "launch w = (Ret (Inl (Some e)), w') \<Longrightarrow> kind e"
    and stopped_kind: "kind (fst (OnStoppedLeading r (w :: 'z go_world_scheme)))"
begin

definition leader_report :: "('e \<Rightarrow> election) \<Rightarrow> ('e, 'z go_world_scheme) leader_state \<Rightarrow> bool" where
  "leader_report phase s \<longleftrightarrow> list_all kind (ld_sending s) \<and>
     (\<exists>n. report_inv n (ld_runner s) \<and> n + length (ld_sending s) \<le> length rs + own_errors phase (ld_main s))"

lemma report_inv_send:
  assumes "report_inv n s" and "kind e"
  shows "report_inv (Suc n) (s\<lparr>ru_chan := ru_chan s @ [e]\<rparr>)"
    and "report_inv (Suc n) (s\<lparr>ru_received := ru_received s @ [e]\<rparr>)"
  using assms by (simp_all add: report_inv_def)

lemma leader_report_step:
  assumes laws: "election_laws NewLeaderElector elect phase" and s: "leader_report phase s"
    and step: "leader_step cap reading rs r launch elect s t"
    and fresh: "\<forall>w e w'. launch w = (Ret (Inr e), w') \<longrightarrow> phase e = Candidate"
  shows "leader_report phase t"
proof -
  note laws' = election_lawsD [OF laws]
  from s obtain n where sending: "list_all kind (ld_sending s)" and n: "report_inv n (ld_runner s)"
    "n + length (ld_sending s) \<le> length rs + own_errors phase (ld_main s)"
    by (auto simp: leader_report_def)
  have world: "report_inv n ((ld_runner s)\<lparr>ru_world := w\<rparr>)" for w using n(1) by (simp add: report_inv_def)
  from step show ?thesis
  proof cases
    case (build_fails e w)
    with launch_kind [OF build_fails(3)] world [of w] n(2) show ?thesis
      by (auto simp: leader_report_def intro!: exI [of _ n])
  next
    case (build e w)
    with fresh world [of w] n(2) sending show ?thesis
      by (auto simp: leader_report_def intro!: exI [of _ n])
  next
    case (elector e e')
    with laws'(2) [OF elector(3)] n sending show ?thesis by (auto simp: leader_report_def intro!: exI [of _ n])
  next
    case (started e e')
    with laws'(3) [OF started(3)] n sending show ?thesis by (auto simp: leader_report_def intro!: exI [of _ n])
  next
    case (stopped e e' err w)
    with stopped_kind [of "ld_world s"] have "kind err" by simp
    with stopped laws'(4) [OF stopped(3)] world [of w] n(2) sending show ?thesis
      by (auto simp: leader_report_def intro!: exI [of _ n])
  next
    case (lead u)
    with report_inv_step [OF n(1) lead(3)] n(2) sending show ?thesis
      by (auto simp: leader_report_def intro!: exI [of _ n])
  next
    case (send_error e es)
    with report_inv_send(1) [OF n(1), of e] n(2) sending show ?thesis
      by (auto simp: leader_report_def intro!: exI [of _ "Suc n"])
  next
    case (hand_over_error e es)
    with report_inv_send(2) [OF n(1), of e] n(2) sending show ?thesis
      by (auto simp: leader_report_def intro!: exI [of _ "Suc n"])
  next
    case (read_error e es)
    moreover from n(1) read_error have "report_inv n ((ld_runner s)\<lparr>ru_chan := es,
        ru_received := ru_received (ld_runner s) @ [e]\<rparr>)" by (simp add: report_inv_def)
    ultimately show ?thesis using n(2) sending by (auto simp: leader_report_def intro!: exI [of _ n])
  next
    case (elsewhere w)
    with world [of w] n(2) sending show ?thesis by (auto simp: leader_report_def intro!: exI [of _ n])
  qed
qed

lemma leader_report_start: "leader_start rs s \<Longrightarrow> leader_report phase s"
  by (auto simp: leader_start_def leader_report_def intro: report_inv_start exI [of _ "length rs"])

lemma leader_reported:
  assumes "election_laws NewLeaderElector elect phase"
    and "\<forall>w e w'. launch w = (Ret (Inr e), w') \<longrightarrow> phase e = Candidate"
    and "reach (leader_start rs) (leader_step cap reading rs r launch elect) s"
  shows "list_all kind (ru_chan (ld_runner s) @ ru_received (ld_runner s)) \<and>
    length (ru_chan (ld_runner s) @ ru_received (ld_runner s)) \<le> length rs + own_errors phase (ld_main s)"
proof -
  have "leader_report phase s"
    using assms(3) by (induction rule: reach.induct) (auto intro: leader_report_start leader_report_step [OF assms(1) _ _ assms(2)])
  then show ?thesis by (auto simp: leader_report_def report_inv_def)
qed

end

lemma LeaderRunner_Run_cases:
  assumes "LeaderRunner_Run new_lock NewLeaderElector r w = (Ret x, w')"
  obtains (failed) e where "x = Inl (Some e)" and "errors_Is (Some e) (Some (ErrorPtr ErrController))"
  | (built) config e where "x = Inr e" and "NewLeaderElector config = Inr e"
  using assms
  by (auto simp: LeaderRunner_Run_def Error_Wrap_def Let_def alloc_def errors_Is_Error_New
      split: sum.splits)

lemma OnStoppedLeading_matches:
  "errors_Is (Some (fst (OnStoppedLeading r w))) (Some (ErrorPtr ErrController))"
  by (simp add: OnStoppedLeading_def alloc_def)

interpretation leader_controllers: leader_reporting "map controller_runnable cs"
  "\<lambda>e. errors_Is (Some e) (Some (ErrorPtr ErrController))" r "LeaderRunner_Run new_lock NewLeaderElector r"
  for cs r new_lock NewLeaderElector
  by unfold_locales (auto elim: LeaderRunner_Run_cases intro: OnStoppedLeading_matches)

subsection \<open>The reader of the channel\<close>

text \<open>The reader gets what is in the channel and then what \<open>Run\<close> or the elector have to send.\<close>

lemma nothing_left:
  "[] = ru_chan u \<Longrightarrow> u\<lparr>ru_chan := []\<rparr> = u" "[] = ld_sending s \<Longrightarrow> s\<lparr>ld_sending := []\<rparr> = s"
  by (cases u, simp) (cases s, simp)

lemma read_all:
  "(leader_step cap True rs r launch elect)\<^sup>*\<^sup>* s
     (s\<lparr>ld_runner := (ld_runner s)\<lparr>ru_chan := [], ru_received := ru_received (ld_runner s) @ ru_chan (ld_runner s)\<rparr>\<rparr>)"
proof (induction "ru_chan (ld_runner s)" arbitrary: s)
  case (Cons e es)
  let ?u = "s\<lparr>ld_runner := (ld_runner s)\<lparr>ru_chan := es, ru_received := ru_received (ld_runner s) @ [e]\<rparr>\<rparr>"
  have "leader_step cap True rs r launch elect s ?u" using Cons.hyps(2) by (intro read_error) simp_all
  with Cons.hyps(1) [of ?u] Cons.hyps(2) [symmetric] show ?case
    by (simp add: converse_rtranclp_into_rtranclp)
qed (simp add: nothing_left)

lemma hand_over_all:
  "ru_chan (ld_runner s) = [] \<Longrightarrow> (leader_step cap True rs r launch elect)\<^sup>*\<^sup>* s
     (s\<lparr>ld_sending := [], ld_runner := (ld_runner s)\<lparr>ru_received := ru_received (ld_runner s) @ ld_sending s\<rparr>\<rparr>)"
proof (induction "ld_sending s" arbitrary: s)
  case (Cons e es)
  let ?u = "s\<lparr>ld_sending := es, ld_runner := (ld_runner s)\<lparr>ru_received := ru_received (ld_runner s) @ [e]\<rparr>\<rparr>"
  have "leader_step cap True rs r launch elect s ?u" using Cons.hyps(2) Cons.prems by (intro hand_over_error) simp_all
  with Cons.hyps(1) [of ?u] Cons.hyps(2) [symmetric] Cons.prems show ?case
    by (simp add: converse_rtranclp_into_rtranclp)
qed (simp add: nothing_left)

lemma all_received:
  "\<exists>t. (leader_step cap True rs r launch elect)\<^sup>*\<^sup>* s t \<and> ld_main t = ld_main s \<and> ld_leading t = ld_leading s \<and>
     ru_inits (ld_runner t) = ru_inits (ld_runner s) \<and> ru_runs (ld_runner t) = ru_runs (ld_runner s) \<and>
     ru_received (ld_runner t) = ru_received (ld_runner s) @ ru_chan (ld_runner s) @ ld_sending s"
proof -
  let ?u = "s\<lparr>ld_runner := (ld_runner s)\<lparr>ru_chan := [], ru_received := ru_received (ld_runner s) @ ru_chan (ld_runner s)\<rparr>\<rparr>"
  have drained: "ru_chan (ld_runner ?u) = []" by simp
  let ?t = "?u\<lparr>ld_sending := [],
      ld_runner := (ld_runner ?u)\<lparr>ru_received := ru_received (ld_runner ?u) @ ld_sending ?u\<rparr>\<rparr>"
  from rtranclp_trans [OF read_all hand_over_all [OF drained]]
  have "(leader_step cap True rs r launch elect)\<^sup>*\<^sup>* s ?t" .
  then show ?thesis by (intro exI [of _ ?t]) simp
qed

lemma lead_steps:
  assumes "(runner_step cap reading rs)\<^sup>*\<^sup>* (ld_runner s) u" and "ld_leading s"
  shows "(leader_step cap reading rs r launch elect)\<^sup>*\<^sup>* s (s\<lparr>ld_runner := u\<rparr>)"
  using assms(1)
proof (induction rule: rtranclp_induct)
  case (step u v)
  have "leader_step cap reading rs r launch elect (s\<lparr>ld_runner := u\<rparr>) ((s\<lparr>ld_runner := u\<rparr>)\<lparr>ld_runner := v\<rparr>)"
    using step.hyps(2) assms(2) by (intro lead) simp_all
  with step.IH show ?case by simp
qed simp

subsection \<open>Properties\<close>

text \<open>
  C17. Only a leader works: in every reachable state, unless the elector has won the
  election, no controller is initialized or running; and with a win the order of \<open>runner\<close>
  holds. What is sent on the error channel matches \<open>ErrController\<close>, at most one error per
  controller and one of the leader runner itself.
\<close>

theorem leader_works_only_when_elected:
  fixes s :: "('e, 'z go_world_scheme) leader_state"
  assumes "election_laws NewLeaderElector elect phase"
    and "leader_run cap reading (map controller_runnable cs) new_lock NewLeaderElector elect r s"
  shows "(if ld_leading s then \<exists>e. ld_main s = Electing e \<and> phase e \<noteq> Candidate
      else ru_inits (ld_runner s) = replicate (length cs) NotLaunched \<and> ru_runs (ld_runner s) = []) \<and>
    (if ru_runs (ld_runner s) = [] then True else \<forall>j \<in> {..<length cs}. ru_inits (ld_runner s) ! j = InitDone) \<and>
    list_all (\<lambda>e. errors_Is (Some e) (Some (ErrorPtr ErrController))) (ru_chan (ld_runner s) @ ru_received (ld_runner s)) \<and>
    length (ru_chan (ld_runner s) @ ru_received (ld_runner s)) \<le> Suc (length cs)"
proof -
  note reach = assms(2) [unfolded leader_run_def]
  from leading.reach_inv [OF reach] assms(1)
  have inv: "leader_inv cap (map controller_runnable cs) phase s" by blast
  then have run: "runner_inv cap (map controller_runnable cs) (ld_runner s)" by (simp add: leader_inv_def)
  have "\<forall>w e w'. LeaderRunner_Run new_lock NewLeaderElector r (w :: 'z go_world_scheme) = (Ret (Inr e), w') \<longrightarrow>
      phase e = Candidate"
    by (auto elim!: LeaderRunner_Run_cases intro: election_lawsD(1) [OF assms(1)])
  note leader_controllers.leader_reported [OF assms(1) this reach]
  moreover have "own_errors phase (ld_main s) \<le> 1" by (cases "ld_main s") simp_all
  ultimately show ?thesis using inv run by (auto simp: leader_inv_def runner_inv_def)
qed

text \<open>
  C27. A won election starts everything: from every reachable state in which the elector
  can win, with a reader on the error channel, if each \<open>Init\<close> returns, there are steps after
  which the \<open>Run\<close> of every runnable was started.
\<close>

theorem won_election_starts_all:
  assumes "election_laws NewLeaderElector elect phase"
    and "leader_run cap True rs new_lock NewLeaderElector elect r s" and "\<forall>x \<in> set rs. returns x"
    and "ld_main s = Electing e" and "elect e (Some StartedLeading) e'"
  shows "\<exists>t. (leader_step cap True rs r (LeaderRunner_Run new_lock NewLeaderElector r) elect)\<^sup>*\<^sup>* s t \<and>
    ru_runs (ld_runner t) = [0..<length rs]"
proof -
  let ?step = "leader_step cap True rs r (LeaderRunner_Run new_lock NewLeaderElector r) elect"
  let ?s = "s\<lparr>ld_main := Electing e', ld_leading := True\<rparr>"
  have step: "?step s ?s" by (rule leader_step.started) (fact assms)+
  from leading.reach_inv [OF assms(2) [unfolded leader_run_def]] assms(1)
  have inv: "runner_inv cap rs (ld_runner s)" by (simp add: leader_inv_def)
  then have "length (ru_inits (ld_runner s)) = length rs" by (simp add: runner_inv_def)
  from finish_all [OF assms(3) this order_refl] obtain u where
    u: "(runner_step cap True rs)\<^sup>*\<^sup>* (ld_runner s) u" "\<forall>j < length rs. ru_inits u ! j = InitDone" by blast
  from running.steps_inv [OF u(1) inv] have "length (ru_runs u) \<le> length rs" by (simp add: runner_inv_def)
  from run_all [OF u(2) this] obtain v where
    v: "(runner_step cap True rs)\<^sup>*\<^sup>* u v" "length (ru_runs v) = length rs" by blast
  have steps: "(runner_step cap True rs)\<^sup>*\<^sup>* (ld_runner ?s) v" using u(1) v(1) by simp
  from running.steps_inv [OF rtranclp_trans [OF u(1) v(1)] inv] v(2) have "ru_runs v = [0..<length rs]"
    unfolding runner_inv_def by metis
  moreover have "?step\<^sup>*\<^sup>* ?s (?s\<lparr>ld_runner := v\<rparr>)" by (rule lead_steps [OF steps]) simp
  ultimately show ?thesis using step
    by (intro exI [of _ "?s\<lparr>ld_runner := v\<rparr>"]) (simp add: converse_rtranclp_into_rtranclp)
qed

text \<open>
  C28. The end of the elector is reported, whether it ever led or not: from every reachable
  state in which the elector can stop, a reader of the error channel gets, after the errors
  sent before, the error \<open>leadership lost\<close> with the configured name; a standby that is
  cancelled reports it, too, without having initialized or run anything.
\<close>

theorem elector_end_reported:
  assumes "election_laws NewLeaderElector elect phase"
    and "leader_run cap True rs new_lock NewLeaderElector elect r s"
    and "ld_main s = Electing e" and "elect e (Some StoppedLeading) e'"
  shows "\<exists>t es err. (leader_step cap True rs r (LeaderRunner_Run new_lock NewLeaderElector r) elect)\<^sup>*\<^sup>* s t \<and>
    ru_received (ld_runner t) = es @ [err] \<and>
    err_text err = Some (''controller - running [name='' @ lc_Name (lr_config r) @ '']: leadership lost'') \<and>
    ld_main t = Electing e' \<and> phase e' = Retired \<and> ld_leading t = ld_leading s \<and>
    (if ld_leading s then True else ru_inits (ld_runner t) = replicate (length rs) NotLaunched \<and> ru_runs (ld_runner t) = [])"
proof -
  let ?step = "leader_step cap True rs r (LeaderRunner_Run new_lock NewLeaderElector r) elect"
  obtain err w where err: "OnStoppedLeading r (ld_world s) = (err, w)" by force
  let ?s = "s\<lparr>ld_main := Electing e', ld_sending := ld_sending s @ [err], ld_runner := (ld_runner s)\<lparr>ru_world := w\<rparr>\<rparr>"
  have step: "?step s ?s" by (rule leader_step.stopped) (fact assms err)+
  from all_received [of cap rs r "LeaderRunner_Run new_lock NewLeaderElector r" elect ?s] obtain t where
    t: "?step\<^sup>*\<^sup>* ?s t" "ld_main t = Electing e'" "ld_leading t = ld_leading s"
      "ru_inits (ld_runner t) = ru_inits (ld_runner s)" "ru_runs (ld_runner t) = ru_runs (ld_runner s)"
      "ru_received (ld_runner t) = (ru_received (ld_runner s) @ ru_chan (ld_runner s) @ ld_sending s) @ [err]" by auto
  have "err = fst (OnStoppedLeading r (ld_world s))" by (simp add: err)
  then have lost: "err_text err = Some (''controller - running [name='' @ lc_Name (lr_config r) @ '']: leadership lost'')"
    by (simp add: OnStoppedLeading_def alloc_def ErrController_def err_text_Error_New run_format render_def arg_text_def surplus_def err_format_def New_def)
  from leading.reach_inv [OF assms(2) [unfolded leader_run_def]] assms(1)
  have "leader_inv cap rs phase s" by blast
  moreover from election_lawsD(4) [OF assms(1,4)] have "phase e' = Retired" ..
  ultimately show ?thesis using converse_rtranclp_into_rtranclp [of ?step, OF step t(1)] t(2-6) lost
    by (intro exI [of _ t] exI [of _ "ru_received (ld_runner s) @ ru_chan (ld_runner s) @ ld_sending s"] exI [of _ err])
      (simp add: leader_inv_def split: if_splits)
qed

subsection \<open>Witnesses\<close>

text \<open>An elector that is its own phase, and one controller that does not sync.\<close>

definition example_elect :: "election elector_step" where
  "example_elect e c e' \<longleftrightarrow> (c = Some StartedLeading \<and> e = Candidate \<and> e' = Leader) \<or>
     (c = Some StoppedLeading \<and> e \<noteq> Retired \<and> e' = Retired)"

definition example_elector :: "unit election_config \<Rightarrow> err + election" where
  "example_elector _ = Inr Candidate"

definition example_lock :: "string \<Rightarrow> string \<Rightarrow> string \<Rightarrow> unit \<Rightarrow> string \<Rightarrow> err + unit" where
  "example_lock _ _ _ _ _ = Inr ()"

lemma example_election: "election_laws example_elector example_elect (\<lambda>e. e)"
  by (auto simp: election_laws_def example_elector_def example_elect_def)

definition example_leader :: "unit LeaderRunner" where
  "example_leader =
     \<lparr>lr_id = ''host-1'',
      lr_config = \<lparr>lc_Name = ''controller'', lc_Namespace = ''default'', lc_LockType = ''leases'',
        lc_LeaseDuration = 15, lc_RenewDeadline = 10, lc_RenewPeriod = 2, lc_RequestRate = 5, lc_RequestBurst = 10\<rparr>,
      lr_k8scli = ()\<rparr>"

definition example_standby :: "(election, (example_queue, string) kube_world) leader_state" where
  "example_standby =
     \<lparr>ld_main = Electing Candidate, ld_leading = False, ld_sending = [],
      ld_runner = \<lparr>ru_world = example_kube [] False, ru_inits = [NotLaunched], ru_chan = [], ru_received = [], ru_runs = []\<rparr>\<rparr>"

lemma example_standby_run:
  "leader_run cap reading (map controller_runnable [unsynced_controller]) example_lock example_elector
     example_elect example_leader example_standby"
proof -
  let ?rs = "map controller_runnable [unsynced_controller]"
  let ?step = "leader_step cap reading ?rs example_leader
    (LeaderRunner_Run example_lock example_elector example_leader) example_elect"
  let ?s = "example_standby\<lparr>ld_main := Building\<rparr>"
  have "leader_start ?rs ?s" by (simp add: leader_start_def runner_start_def example_standby_def)
  then have start: "reach (leader_start ?rs) ?step ?s" by (rule reach_start)
  have "?step ?s (?s\<lparr>ld_main := Electing Candidate, ld_runner := (ld_runner ?s)\<lparr>ru_world := ld_world ?s\<rparr>\<rparr>)"
    by (rule leader_step.build) (simp_all add: LeaderRunner_Run_def example_lock_def example_elector_def Let_def)
  then have "?step ?s example_standby" by (simp add: example_standby_def)
  with start show ?thesis unfolding leader_run_def by (rule reach_step)
qed

lemma example_standby_simps [simp]:
  "ld_main example_standby = Electing Candidate" "\<not> ld_leading example_standby"
  by (simp_all add: example_standby_def)

theorem leader_works_only_when_elected_witness:
  "leader_run 1 True (map controller_runnable [unsynced_controller]) example_lock example_elector
     example_elect example_leader example_standby \<and> ru_inits (ld_runner example_standby) = [NotLaunched]"
  using leader_works_only_when_elected [OF example_election example_standby_run [of 1 True]] example_standby_run by simp

lemma unsynced_returns: "\<forall>x \<in> set (map controller_runnable [unsynced_controller]). returns x"
  by (auto simp: returns_def controller_runnable_def controller_Init_def unsynced_controller_def example_informer_def
      split: prod.split)

theorem won_election_starts_all_witness:
  "\<exists>t. (leader_step 0 True [controller_runnable unsynced_controller] example_leader
      (LeaderRunner_Run example_lock example_elector example_leader) example_elect)\<^sup>*\<^sup>* example_standby t \<and>
     ru_runs (ld_runner t) = [0]"
  using won_election_starts_all [OF example_election example_standby_run [of 0 True] unsynced_returns, of Candidate Leader]
  by (simp add: example_elect_def)

theorem elector_end_reported_witness:
  "\<exists>t es err. (leader_step 0 True [controller_runnable unsynced_controller] example_leader
      (LeaderRunner_Run example_lock example_elector example_leader) example_elect)\<^sup>*\<^sup>* example_standby t \<and>
     ru_received (ld_runner t) = es @ [err] \<and>
     err_text err = Some ''controller - running [name=controller]: leadership lost'' \<and> ru_runs (ld_runner t) = []"
proof -
  have stop: "example_elect Candidate (Some StoppedLeading) Retired" by (simp add: example_elect_def)
  have name: "lc_Name (lr_config example_leader) = ''controller''" by (simp add: example_leader_def)
  from elector_end_reported [OF example_election example_standby_run [of 0 True] example_standby_simps(1) stop] name
  show ?thesis by (simp add: example_standby_simps(2)) blast
qed

end
