(* ===== verification/Programs.thy ===== *)
theory Programs
  imports Live_Controller Leadership
begin

section \<open>The whole program\<close>

text \<open>
  A runner and the controllers it starts, over one state of the program: the steps of the
  runner (theories \<open>Runners\<close> and \<open>Leadership\<close>) initialize the controllers and start their
  \<open>Run\<close>; from then on the steps of each controller are those of the theory
  \<open>Live_Controller\<close>. All controllers get the same context from the runner.
\<close>

subsection \<open>The goroutines together\<close>

record ('x, 's) program =
  pg_runner :: 'x
  pg_done :: bool
  pg_crash :: "go_arg option"
  pg_lives :: "'s live list"

abbreviation pg_view :: "('x, 's) runner_ops \<Rightarrow> ('x, 's) program \<Rightarrow> 's runner_state" where
  "pg_view R s \<equiv> rnr_view R (pg_runner s)"

abbreviation pg_world :: "('x, 's) runner_ops \<Rightarrow> ('x, 's) program \<Rightarrow> 's" where
  "pg_world R s \<equiv> ru_world (pg_view R s)"

abbreviation pg_runs :: "('x, 's) runner_ops \<Rightarrow> ('x, 's) program \<Rightarrow> nat set" where
  "pg_runs R s \<equiv> set (ru_runs (pg_view R s))"

text \<open>A controller of the program, with the state of the program and the context.\<close>

definition live_in :: "('x, 's) runner_ops \<Rightarrow> nat \<Rightarrow> ('x, 's) program \<Rightarrow> 's live" where
  "live_in R i s =
     (pg_lives s ! i)\<lparr>lv_run := (lv_run (pg_lives s ! i))\<lparr>rs_world := pg_world R s, rs_done := pg_done s\<rparr>\<rparr>"

definition with_live :: "('x, 's) runner_ops \<Rightarrow> nat \<Rightarrow> 's live \<Rightarrow> ('x, 's) program \<Rightarrow> ('x, 's) program" where
  "with_live R i t s =
     s\<lparr>pg_runner := rnr_put R (lv_world t) (pg_runner s), pg_crash := lv_crash t, pg_lives := (pg_lives s)[i := t]\<rparr>"

text \<open>
  The steps: of the runner (\<open>outer\<close>), which may find the context done and which, once a
  controller runs, touches the queues only as the relation \<open>env\<close> allows for the rest of
  the program; of a controller whose \<open>Run\<close> was started (\<open>inner\<close>); and of the event handlers
  of a controller that is not running yet (\<open>early\<close>, \<open>early_after\<close>). A panic in any goroutine
  ends the program.
\<close>

inductive program_step ::
  "('x, ('q, string, 'z) queue_world_scheme) runner_ops \<Rightarrow> nat \<Rightarrow> bool
     \<Rightarrow> (('q, string, 'z) queue_world_scheme \<Rightarrow> ('q, string, 'z) queue_world_scheme \<Rightarrow> bool)
     \<Rightarrow> ('l, ('q, string, 'z) queue_world_scheme) controller list
     \<Rightarrow> ('x, ('q, string, 'z) queue_world_scheme) program \<Rightarrow> ('x, ('q, string, 'z) queue_world_scheme) program \<Rightarrow> bool"
  for R cap reading env cs where
  outer: "pg_crash s = None \<Longrightarrow> rnr_step R cap reading (map controller_runnable cs) (pg_runner s) x \<Longrightarrow>
    rnr_ctx R x d \<Longrightarrow> (if pg_done s then d else True) \<Longrightarrow>
    pg_runs R s = {} \<or> wqs (ru_world (rnr_view R x)) = wqs (pg_world R s) \<or>
      env (pg_world R s) (ru_world (rnr_view R x)) \<Longrightarrow>
    program_step R cap reading env cs s (s\<lparr>pg_runner := x, pg_done := d\<rparr>)"
| inner: "pg_crash s = None \<Longrightarrow> i \<in> pg_runs R s \<Longrightarrow> live_step env (c_processor (cs ! i)) (live_in R i s) t \<Longrightarrow>
    rs_done (lv_run t) = pg_done s \<Longrightarrow> program_step R cap reading env cs s (with_live R i t s)"
| early: "pg_crash s = None \<Longrightarrow> i < length cs \<Longrightarrow> i \<notin> pg_runs R s \<Longrightarrow> k < length (c_processor (cs ! i)) \<Longrightarrow>
    program_step R cap reading env cs s
      (s\<lparr>pg_runner := rnr_put R (q_Add (p_queue (c_processor (cs ! i) ! k)) key (pg_world R s)) (pg_runner s)\<rparr>)"
| early_after: "pg_crash s = None \<Longrightarrow> i < length cs \<Longrightarrow> i \<notin> pg_runs R s \<Longrightarrow> k < length (c_processor (cs ! i)) \<Longrightarrow>
    program_step R cap reading env cs s
      (s\<lparr>pg_runner := rnr_put R (q_AddAfter (p_queue (c_processor (cs ! i) ! k)) key delay (pg_world R s)) (pg_runner s)\<rparr>)"

definition program_start ::
  "('x, 'z go_world_scheme) runner_ops \<Rightarrow> ('l, 'z go_world_scheme) controller list \<Rightarrow> ('x, 'z go_world_scheme) program \<Rightarrow> bool" where
  "program_start R cs s \<longleftrightarrow> rnr_start R (map controller_runnable cs) (pg_runner s) \<and> \<not> pg_done s \<and> pg_crash s = None \<and>
     list_all2 (\<lambda>c l. live_start (c_processor c) (lv_world l) l) cs (pg_lives s)"

definition program_run ::
  "('x, ('q, string, 'z) queue_world_scheme) runner_ops \<Rightarrow> nat \<Rightarrow> bool
     \<Rightarrow> (('q, string, 'z) queue_world_scheme \<Rightarrow> ('q, string, 'z) queue_world_scheme \<Rightarrow> bool)
     \<Rightarrow> ('l, ('q, string, 'z) queue_world_scheme) controller list
     \<Rightarrow> ('x, ('q, string, 'z) queue_world_scheme) program \<Rightarrow> bool" where
  "program_run R cap reading env cs = reach (program_start R cs) (program_step R cap reading env cs)"

subsection \<open>Controllers apart from each other\<close>

text \<open>No two controllers share a queue, and the rest of the program uses none of them.\<close>

definition controllers_apart ::
  "('q, string) wq_ops \<Rightarrow> registerer \<Rightarrow> addr list list
     \<Rightarrow> ('l, ('q, string, 'z) queue_world_scheme) controller list \<Rightarrow> bool" where
  "controllers_apart wq rejects addrs cs \<longleftrightarrow> length addrs = length cs \<and>
     (\<forall>i < length cs. apart wq rejects (addrs ! i) (cs ! i)) \<and>
     (\<forall>i < length cs. \<forall>j < length cs. i \<noteq> j \<longrightarrow> set (addrs ! i) \<inter> set (addrs ! j) = {})"

definition keeps_all ::
  "addr list \<Rightarrow> ('q, string, 'z) queue_world_scheme \<Rightarrow> ('q, string, 'z) queue_world_scheme \<Rightarrow> bool" where
  "keeps_all A u v \<longleftrightarrow> (\<forall>a \<in> set A. keeps a u v)"

definition queues_kept ::
  "addr list list \<Rightarrow> (('q, string, 'z) queue_world_scheme \<Rightarrow> ('q, string, 'z) queue_world_scheme \<Rightarrow> bool) \<Rightarrow> bool" where
  "queues_kept addrs env \<longleftrightarrow> (\<forall>A \<in> set addrs. \<forall>u v. env u v \<longrightarrow> keeps_all A u v)"

lemma keeps_all_wqs: "wqs v = wqs u \<Longrightarrow> keeps_all A u v"
  by (simp add: keeps_all_def keeps_def)

text \<open>The rest of the program as one controller sees it: a new state, and perhaps a done context.\<close>

lemma live_controller_drift:
  assumes "live_controller (keeps_all A) c w l" and "lv_crash l = None" and "keeps_all A (lv_world l) v"
    and "if rs_done (lv_run l) then d else True"
  shows "live_controller (keeps_all A) c w (l\<lparr>lv_run := (lv_run l)\<lparr>rs_world := v, rs_done := d\<rparr>\<rparr>)"
proof -
  let ?m = "l\<lparr>lv_run := (lv_run l)\<lparr>rs_world := v\<rparr>\<rparr>"
  have "live_step (keeps_all A) (c_processor c) l ?m" using assms(2,3) by (rule live_others)
  with assms(1) have m: "live_controller (keeps_all A) c w ?m" unfolding live_controller_def by (rule reach_step)
  show ?thesis
  proof (cases "d = rs_done (lv_run l)")
    case True
    then have "l\<lparr>lv_run := (lv_run l)\<lparr>rs_world := v, rs_done := d\<rparr>\<rparr> = ?m" by simp
    with m show ?thesis by simp
  next
    case False
    with assms(4) have d: "d" by (simp split: if_splits)
    have "live_step (keeps_all A) (c_processor c) ?m (?m\<lparr>lv_run := (lv_run ?m)\<lparr>rs_done := True\<rparr>\<rparr>)"
      using assms(2) by (intro live_cancel) simp
    with m have "live_controller (keeps_all A) c w (?m\<lparr>lv_run := (lv_run ?m)\<lparr>rs_done := True\<rparr>\<rparr>)"
      unfolding live_controller_def by (rule reach_step)
    with d show ?thesis by simp
  qed
qed

subsection \<open>Every controller runs as it would alone\<close>

definition program_inv ::
  "('x, ('q, string, 'z) queue_world_scheme) runner_ops \<Rightarrow> nat \<Rightarrow> addr list list
     \<Rightarrow> ('l, ('q, string, 'z) queue_world_scheme) controller list
     \<Rightarrow> ('x, ('q, string, 'z) queue_world_scheme) program \<Rightarrow> bool" where
  "program_inv R cap addrs cs s \<longleftrightarrow> runner_inv cap (map controller_runnable cs) (pg_view R s) \<and>
     rnr_ctx R (pg_runner s) (pg_done s) \<and> length (pg_lives s) = length cs \<and>
     (pg_crash s = None \<longrightarrow> (\<forall>i < length cs. lv_crash (pg_lives s ! i) = None)) \<and>
     (\<forall>i < length cs. if i \<in> pg_runs R s then \<exists>w. live_controller (keeps_all (addrs ! i)) (cs ! i) w (live_in R i s)
        else live_start (c_processor (cs ! i)) (lv_world (pg_lives s ! i)) (pg_lives s ! i))"

lemma program_inv_runs:
  assumes "program_inv R cap addrs cs s" and "i \<in> pg_runs R s"
  shows "i < length cs"
proof -
  from assms(1) have "ru_runs (pg_view R s) = [0..<length (ru_runs (pg_view R s))]" "length (ru_runs (pg_view R s)) \<le> length cs"
    by (simp_all add: program_inv_def runner_inv_def)
  with assms(2) have "i \<in> set [0..<length (ru_runs (pg_view R s))]" by metis
  with \<open>length (ru_runs (pg_view R s)) \<le> length cs\<close> show ?thesis by simp
qed

lemma program_inv_live:
  assumes "program_inv R cap addrs cs s" and "i \<in> pg_runs R s"
  obtains w where "live_controller (keeps_all (addrs ! i)) (cs ! i) w (live_in R i s)"
  using assms program_inv_runs [OF assms] unfolding program_inv_def by meson

lemma program_inv_idle:
  assumes "program_inv R cap addrs cs s" and "i < length cs" and "i \<notin> pg_runs R s"
  shows "live_start (c_processor (cs ! i)) (lv_world (pg_lives s ! i)) (pg_lives s ! i)"
  using assms unfolding program_inv_def by meson

lemma program_inv_crash:
  "program_inv R cap addrs cs s \<Longrightarrow> pg_crash s = None \<Longrightarrow> i < length cs \<Longrightarrow> lv_crash (pg_lives s ! i) = None"
  by (simp add: program_inv_def)

text \<open>\<open>Run\<close> of a controller has returned and all its workers have exited.\<close>

definition ended :: "('l, ('q, string, 'z) queue_world_scheme) controller list \<Rightarrow> nat
    \<Rightarrow> ('x, ('q, string, 'z) queue_world_scheme) program \<Rightarrow> bool" where
  "ended cs i s \<longleftrightarrow> rs_index (lv_run (pg_lives s ! i)) = length (c_processor (cs ! i)) \<and>
     (\<forall>k < length (c_processor (cs ! i)).
        lv_pools (pg_lives s ! i) ! k = replicate (nat (p_workers (c_processor (cs ! i) ! k))) Exited)"

lemma live_step_done: "live_step env ps s t \<Longrightarrow> rs_done (lv_run s) \<Longrightarrow> rs_done (lv_run t)"
  by (erule live_step.cases) (auto simp: after_main_def with_pool_def enqueued_at_def run_main_done)

locale program_runner = runner_contract R
  for R :: "('x, ('q, string, 'z) queue_world_scheme) runner_ops"
begin

lemma program_start_inv: "program_start R cs s \<Longrightarrow> program_inv R cap addrs cs s"
  using start_view [of "map controller_runnable cs" "pg_runner s" cap] start_ctx [of "map controller_runnable cs" "pg_runner s"]
  by (auto simp: program_start_def program_inv_def list_all2_conv_all_nth live_start_def)

text \<open>What a started controller sees of a step that is not its own.\<close>

lemma seen_by_other:
  assumes "program_inv R cap addrs cs s" and "i \<in> pg_runs R s" and "pg_crash s = None"
    and "keeps_all (addrs ! i) (pg_world R s) (pg_world R t)" and "if pg_done s then pg_done t else True"
    and "pg_lives t ! i = pg_lives s ! i"
  shows "\<exists>w. live_controller (keeps_all (addrs ! i)) (cs ! i) w (live_in R i t)"
proof -
  obtain w where w: "live_controller (keeps_all (addrs ! i)) (cs ! i) w (live_in R i s)"
    using program_inv_live [OF assms(1,2)] .
  have crash: "lv_crash (live_in R i s) = None"
    using program_inv_crash [OF assms(1,3) program_inv_runs [OF assms(1,2)]] by (simp add: live_in_def)
  have "live_in R i t = (live_in R i s)\<lparr>lv_run := (lv_run (live_in R i s))\<lparr>rs_world := pg_world R t, rs_done := pg_done t\<rparr>\<rparr>"
    by (simp add: live_in_def assms(6))
  moreover have "lv_world (live_in R i s) = pg_world R s" "rs_done (lv_run (live_in R i s)) = pg_done s"
    by (simp_all add: live_in_def)
  ultimately show ?thesis using live_controller_drift [OF w crash, of "pg_world R t" "pg_done t"] assms(4,5) by auto
qed

lemma started_now_live:
  assumes "live_start (c_processor c) (lv_world (pg_lives t ! i)) (pg_lives t ! i)"
  shows "\<exists>w. live_controller (keeps_all A) c w (live_in R i t)"
proof -
  let ?l = "(pg_lives t ! i)\<lparr>lv_run := (lv_run (pg_lives t ! i))\<lparr>rs_world := pg_world R t\<rparr>\<rparr>"
  have "live_start (c_processor c) (pg_world R t) ?l" using assms by (simp add: live_start_def run_start_def)
  then have "live_controller (keeps_all A) c (pg_world R t) ?l"
    unfolding live_controller_def by (rule reach_start)
  from live_controller_drift [OF this, of "pg_world R t" "pg_done t"] assms show ?thesis
    by (auto simp: live_start_def live_in_def keeps_all_def keeps_def)
qed

lemma live_in_with_live:
  assumes "i < length (pg_lives s)" and "rs_done (lv_run t) = pg_done s"
  shows "live_in R i (with_live R i t s) = t"
  using assms by (cases t, cases "lv_run t") (simp add: live_in_def with_live_def view_put)

lemma inner_inv:
  assumes apart: "controllers_apart wq rejects addrs cs" and env: "queues_kept addrs env"
    and inv: "program_inv R cap addrs cs s" and "pg_crash s = None" and i: "i \<in> pg_runs R s"
    and step: "live_step env (c_processor (cs ! i)) (live_in R i s) t" and don: "rs_done (lv_run t) = pg_done s"
  shows "program_inv R cap addrs cs (with_live R i t s)"
proof -
  let ?t = "with_live R i t s"
  from program_inv_runs [OF inv i] have len: "i < length cs" .
  with inv have len': "i < length (pg_lives s)" by (simp add: program_inv_def)
  have envi: "env u v \<Longrightarrow> keeps_all (addrs ! j) u v" if "j < length cs" for j u v
    using env apart that by (auto simp: queues_kept_def controllers_apart_def)
  obtain w where w: "live_controller (keeps_all (addrs ! i)) (cs ! i) w (live_in R i s)"
    using program_inv_live [OF inv i] .
  have world: "pg_world R ?t = lv_world t" "pg_runs R ?t = pg_runs R s" by (simp_all add: with_live_def view_put)
  have own: "live_controller (keeps_all (addrs ! i)) (cs ! i) w (live_in R i ?t)"
    unfolding live_in_with_live [OF len' don]
    using w live_step_mono [OF step envi [OF len]] unfolding live_controller_def by (rule reach_step)
  have other: "\<exists>w. live_controller (keeps_all (addrs ! j)) (cs ! j) w (live_in R j ?t)"
    if "j \<in> pg_runs R s" "j \<noteq> i" for j
  proof (rule seen_by_other [OF inv that(1) assms(4)])
    from program_inv_runs [OF inv that(1)] have j: "j < length cs" .
    have "keeps a (lv_world (live_in R i s)) (lv_world t)" if a: "a \<in> set (addrs ! j)" for a
    proof (rule live_step_keeps [OF _ _ _ live.reach_inv [OF w [unfolded live_controller_def]] step])
      show "apart wq rejects (addrs ! i) (cs ! i)" using apart len by (simp add: controllers_apart_def)
      show "a \<notin> set (addrs ! i)" using apart len j a \<open>j \<noteq> i\<close> by (auto simp: controllers_apart_def)
      show "\<And>u v. env u v \<Longrightarrow> keeps a u v" using envi [OF j] a by (auto simp: keeps_all_def)
    qed
    then show "keeps_all (addrs ! j) (pg_world R s) (pg_world R ?t)"
      unfolding world by (simp add: keeps_all_def live_in_def)
    show "if pg_done s then pg_done ?t else True" "pg_lives ?t ! j = pg_lives s ! j"
      using that(2) by (simp_all add: with_live_def)
  qed
  have rest: "live_start (c_processor (cs ! j)) (lv_world (pg_lives ?t ! j)) (pg_lives ?t ! j)"
    if "j < length cs" "j \<notin> pg_runs R s" for j
    using program_inv_idle [OF inv that] i that(2) by (cases "j = i") (simp_all add: with_live_def)
  have "runner_inv cap (map controller_runnable cs) (pg_view R ?t)" "rnr_ctx R (pg_runner ?t) (pg_done ?t)"
    "length (pg_lives ?t) = length cs"
    "pg_crash ?t = None \<longrightarrow> (\<forall>j < length cs. lv_crash (pg_lives ?t ! j) = None)"
    using inv assms(4) len' by (auto simp: program_inv_def with_live_def view_put ctx_put runner_inv_def nth_list_update)
  moreover have "if j \<in> pg_runs R ?t then \<exists>w. live_controller (keeps_all (addrs ! j)) (cs ! j) w (live_in R j ?t)
      else live_start (c_processor (cs ! j)) (lv_world (pg_lives ?t ! j)) (pg_lives ?t ! j)" if "j < length cs" for j
    unfolding world using own other rest that by (cases "j = i") (auto simp: i)
  ultimately show ?thesis unfolding program_inv_def by blast
qed

lemma outer_inv:
  assumes env: "queues_kept addrs env" "length addrs = length cs" and inv: "program_inv R cap addrs cs s"
    and crash: "pg_crash s = None" and step: "rnr_step R cap reading (map controller_runnable cs) (pg_runner s) x"
    and ctx: "rnr_ctx R x d" and don: "if pg_done s then d else True"
    and kept: "pg_runs R s = {} \<or> wqs (ru_world (rnr_view R x)) = wqs (pg_world R s) \<or> env (pg_world R s) (ru_world (rnr_view R x))"
  shows "program_inv R cap addrs cs (s\<lparr>pg_runner := x, pg_done := d\<rparr>)"
proof -
  let ?t = "s\<lparr>pg_runner := x, pg_done := d\<rparr>"
  from step_runs [OF step] have grow: "pg_runs R s \<subseteq> pg_runs R ?t" by (auto simp: next_run_def)
  have old: "\<exists>w. live_controller (keeps_all (addrs ! i)) (cs ! i) w (live_in R i ?t)" if "i \<in> pg_runs R s" for i
  proof (rule seen_by_other [OF inv that crash])
    from program_inv_runs [OF inv that] env have "addrs ! i \<in> set addrs" by simp
    with env kept that show "keeps_all (addrs ! i) (pg_world R s) (pg_world R ?t)"
      by (auto simp: queues_kept_def keeps_all_wqs)
  qed (use don in simp_all)
  have new: "live_start (c_processor (cs ! i)) (lv_world (pg_lives ?t ! i)) (pg_lives ?t ! i)"
    if "i < length cs" "i \<notin> pg_runs R s" for i
    using program_inv_idle [OF inv that] by simp
  have "if i \<in> pg_runs R ?t then \<exists>w. live_controller (keeps_all (addrs ! i)) (cs ! i) w (live_in R i ?t)
      else live_start (c_processor (cs ! i)) (lv_world (pg_lives ?t ! i)) (pg_lives ?t ! i)" if "i < length cs" for i
    using old [of i] new [OF that] started_now_live [OF new [OF that]] grow by (cases "i \<in> pg_runs R s") auto
  moreover have "runner_inv cap (map controller_runnable cs) (pg_view R ?t)" "rnr_ctx R (pg_runner ?t) (pg_done ?t)"
    "length (pg_lives ?t) = length cs" "pg_crash ?t = None \<longrightarrow> (\<forall>j < length cs. lv_crash (pg_lives ?t ! j) = None)"
    using step_view [OF step] inv ctx by (simp_all add: program_inv_def)
  ultimately show ?thesis unfolding program_inv_def by blast
qed

lemma early_inv:
  assumes "length addrs = length cs" and inv: "program_inv R cap addrs cs s" and crash: "pg_crash s = None"
    and kept: "\<And>j. j < length cs \<Longrightarrow> j \<in> pg_runs R s \<Longrightarrow> keeps_all (addrs ! j) (pg_world R s) w"
  shows "program_inv R cap addrs cs (s\<lparr>pg_runner := rnr_put R w (pg_runner s)\<rparr>)"
proof -
  let ?t = "s\<lparr>pg_runner := rnr_put R w (pg_runner s)\<rparr>"
  have view: "pg_view R ?t = (pg_view R s)\<lparr>ru_world := w\<rparr>" by (simp add: view_put)
  have "\<exists>w. live_controller (keeps_all (addrs ! j)) (cs ! j) w (live_in R j ?t)" if "j \<in> pg_runs R s" for j
    by (rule seen_by_other [OF inv that crash]) (use kept program_inv_runs [OF inv] that in \<open>simp_all add: view_put\<close>)
  with inv show ?thesis unfolding program_inv_def view by (auto simp: ctx_put runner_inv_def)
qed

lemma program_inv_step:
  assumes apart: "controllers_apart wq rejects addrs cs" and env: "queues_kept addrs env"
    and inv: "program_inv R cap addrs cs s" and step: "program_step R cap reading env cs s t"
  shows "program_inv R cap addrs cs t"
proof -
  from apart have len: "length addrs = length cs" by (simp add: controllers_apart_def)
  have other: "keeps_all (addrs ! j) w (q_Add (p_queue (c_processor (cs ! i) ! k)) key w)"
    "keeps_all (addrs ! j) w (q_AddAfter (p_queue (c_processor (cs ! i) ! k)) key d w)"
    if "i < length cs" "i \<notin> pg_runs R s" "k < length (c_processor (cs ! i))" "j < length cs" "j \<in> pg_runs R s" for i j k key d w
  proof -
    from that(2,5) have "i \<noteq> j" by blast
    with apart that have "\<And>a. a \<in> set (addrs ! j) \<Longrightarrow> a \<notin> set (addrs ! i)" "apart wq rejects (addrs ! i) (cs ! i)"
      by (auto simp: controllers_apart_def)
    with apart_wqs [OF this(2) _ that(3)] show
      "keeps_all (addrs ! j) w (q_Add (p_queue (c_processor (cs ! i) ! k)) key w)"
      "keeps_all (addrs ! j) w (q_AddAfter (p_queue (c_processor (cs ! i) ! k)) key d w)"
      by (auto simp: keeps_all_def keeps_def)
  qed
  from step show ?thesis
  proof cases
    case (outer x d)
    from outer_inv [OF env len inv outer(2-6)] show ?thesis unfolding outer(1) .
  next
    case (inner i u)
    from inner_inv [OF apart env inv inner(2-5)] show ?thesis unfolding inner(1) .
  next
    case (early i k key)
    show ?thesis unfolding early(1) by (rule early_inv [OF len inv early(2)]) (rule other(1) [OF early(3-5)])
  next
    case (early_after i k key d)
    show ?thesis unfolding early_after(1) by (rule early_inv [OF len inv early_after(2)]) (rule other(2) [OF early_after(3-5)])
  qed
qed

lemma program_reach_inv:
  assumes "controllers_apart wq rejects addrs cs" and "queues_kept addrs env" and "program_run R cap reading env cs s"
  shows "program_inv R cap addrs cs s"
  using assms(3) unfolding program_run_def
  by (induction rule: reach.induct) (auto intro: program_start_inv program_inv_step [OF assms(1,2)])

text \<open>Steps of the runner before anything runs, and the start of the first controller.\<close>

lemma outer_steps:
  assumes "(\<lambda>x y. rnr_step R cap reading (map controller_runnable cs) x y \<and> rnr_ctx R y (pg_done s))\<^sup>*\<^sup>* (pg_runner s) x"
    and "pg_crash s = None" and "ru_runs (rnr_view R x) = []"
  shows "(program_step R cap reading env cs)\<^sup>*\<^sup>* s (s\<lparr>pg_runner := x\<rparr>)"
  using assms(1,3)
proof (induction rule: rtranclp_induct)
  case (step x y)
  from step.prems step.hyps(2) step_runs have runs: "ru_runs (rnr_view R x) = []" by (fastforce simp: next_run_def)
  have "program_step R cap reading env cs (s\<lparr>pg_runner := x\<rparr>) ((s\<lparr>pg_runner := x\<rparr>)\<lparr>pg_runner := y, pg_done := pg_done s\<rparr>)"
    using step.hyps(2) assms(2) runs by (intro outer) simp_all
  with step.IH [OF runs] show ?case by simp
qed simp

subsection \<open>Shutting down\<close>

text \<open>A run of one controller is a run of the program that moves nothing else.\<close>

definition moved_only :: "nat \<Rightarrow> ('x, ('q, string, 'z) queue_world_scheme) program
    \<Rightarrow> ('x, ('q, string, 'z) queue_world_scheme) program \<Rightarrow> bool" where
  "moved_only i s t \<longleftrightarrow> (\<forall>j. j \<noteq> i \<longrightarrow> pg_lives t ! j = pg_lives s ! j) \<and> pg_runs R t = pg_runs R s \<and>
     pg_done t = pg_done s \<and> length (pg_lives t) = length (pg_lives s)"

lemma lift_inner:
  assumes "(live_step (\<lambda>_ _. False) (c_processor (cs ! i)))\<^sup>*\<^sup>* (live_in R i s) l" and "pg_crash s = None"
    and "lv_crash (live_in R i s) = None" and "pg_done s" and "i \<in> pg_runs R s" and "i < length (pg_lives s)"
  shows "\<exists>t. (program_step R cap reading env cs)\<^sup>*\<^sup>* s t \<and> live_in R i t = l \<and> pg_crash t = lv_crash l \<and> moved_only i s t"
  using assms(1)
proof (induction rule: rtranclp_induct)
  case base
  with assms(2,3) show ?case by (intro exI [of _ s]) (simp add: moved_only_def)
next
  case (step l m)
  then obtain t where t: "(program_step R cap reading env cs)\<^sup>*\<^sup>* s t" "live_in R i t = l" "pg_crash t = lv_crash l"
    "moved_only i s t" by blast
  from step.hyps(2) have "lv_crash l = None" by cases
  moreover have "rs_done (lv_run l)" using t(2,4) assms(4) by (auto simp: live_in_def moved_only_def)
  then have don: "rs_done (lv_run m) = pg_done t"
    using step.hyps(2) t(4) assms(4) live_step_done by (auto simp: moved_only_def)
  ultimately have "program_step R cap reading env cs t (with_live R i m t)"
    using t(2-4) assms(5) live_step_mono [OF step.hyps(2), of env] by (intro inner) (auto simp: moved_only_def)
  with t(1) have "(program_step R cap reading env cs)\<^sup>*\<^sup>* s (with_live R i m t)" by simp
  moreover have "live_in R i (with_live R i m t) = m"
    using t(4) assms(6) don by (intro live_in_with_live) (simp_all add: moved_only_def)
  moreover have "moved_only i s (with_live R i m t)"
    using t(4) by (simp add: moved_only_def with_live_def view_put)
  ultimately show ?case by (intro exI [of _ "with_live R i m t"]) (simp add: with_live_def)
qed

lemma one_ends:
  assumes "closes wq shut left" and apart: "controllers_apart wq rejects addrs cs"
    and "\<forall>c \<in> set cs. \<forall>p \<in> set (c_processor c). never_panics (p_handler p)"
    and inv: "program_inv R cap addrs cs s" and "pg_crash s = None" and "pg_done s" and i: "i \<in> pg_runs R s"
  shows "\<exists>t. (program_step R cap reading env cs)\<^sup>*\<^sup>* s t \<and> pg_crash t = None \<and> moved_only i s t \<and> ended cs i t"
proof -
  from program_inv_runs [OF inv i] have len: "i < length cs" .
  obtain w where w: "live_controller (keeps_all (addrs ! i)) (cs ! i) w (live_in R i s)"
    using program_inv_live [OF inv i] .
  have crash: "lv_crash (live_in R i s) = None" "rs_done (lv_run (live_in R i s))"
    using program_inv_crash [OF inv assms(5) len] assms(6) by (simp_all add: live_in_def)
  have len': "i < length (pg_lives s)" using inv len by (simp add: program_inv_def)
  have a: "apart wq rejects (addrs ! i) (cs ! i)" using apart len by (simp add: controllers_apart_def)
  have np: "\<forall>p \<in> set (c_processor (cs ! i)). never_panics (p_handler p)" using bspec [OF assms(3) nth_mem [OF len]] .
  have "\<exists>l. (live_step (\<lambda>_ _. False) (c_processor (cs ! i)))\<^sup>*\<^sup>* (live_in R i s) l \<and>
      rs_index (lv_run l) = length (c_processor (cs ! i)) \<and> lv_crash l = None \<and>
      (\<forall>k < length (c_processor (cs ! i)). lv_pools l ! k = replicate (nat (p_workers (c_processor (cs ! i) ! k))) Exited)"
  proof (cases "c_processor (cs ! i) = []")
    case True
    have "run_inv (c_processor (cs ! i)) (lv_run (live_in R i s))"
      using live.reach_inv [OF w [unfolded live_controller_def]] by (simp add: live_inv_def)
    with True crash(1) show ?thesis by (intro exI [of _ "live_in R i s"]) (simp add: run_inv_def)
  next
    case False
    then have "0 < length (addrs ! i)" using a by (auto simp: apart_def)
    then have "\<forall>u v :: ('q, string, 'z) queue_world_scheme. keeps_all (addrs ! i) u v \<longrightarrow> keeps (addrs ! i ! 0) u v"
      by (auto simp: keeps_all_def)
    from live_controller_ends [OF assms(1) a _ this np w crash(2,1)] False show ?thesis by blast
  qed
  then obtain l where l: "(live_step (\<lambda>_ _. False) (c_processor (cs ! i)))\<^sup>*\<^sup>* (live_in R i s) l"
    "rs_index (lv_run l) = length (c_processor (cs ! i))" "lv_crash l = None"
    "\<forall>k < length (c_processor (cs ! i)). lv_pools l ! k = replicate (nat (p_workers (c_processor (cs ! i) ! k))) Exited"
    by blast
  from lift_inner [OF l(1) assms(5) crash(1) assms(6) i len', of cap reading env] obtain t where
    t: "(program_step R cap reading env cs)\<^sup>*\<^sup>* s t" "live_in R i t = l" "pg_crash t = lv_crash l" "moved_only i s t" by blast
  have "ended cs i t" using l(2,4) unfolding t(2) [symmetric] by (simp add: ended_def live_in_def)
  with t l(3) show ?thesis by auto
qed

lemma all_end:
  assumes "closes wq shut left" and apart: "controllers_apart wq rejects addrs cs" and env: "queues_kept addrs env"
    and "\<forall>c \<in> set cs. \<forall>p \<in> set (c_processor c). never_panics (p_handler p)"
    and inv: "program_inv R cap addrs cs s" and "pg_crash s = None" and "pg_done s"
  shows "\<exists>t. (program_step R cap reading env cs)\<^sup>*\<^sup>* s t \<and> pg_crash t = None \<and> pg_done t \<and> pg_runs R t = pg_runs R s \<and>
    (\<forall>i \<in> pg_runs R s. i < n \<longrightarrow> ended cs i t)"
proof (induction n)
  case 0
  with assms(6,7) show ?case by (intro exI [of _ s]) simp
next
  case (Suc n)
  then obtain t where t: "(program_step R cap reading env cs)\<^sup>*\<^sup>* s t" "pg_crash t = None" "pg_done t"
    "pg_runs R t = pg_runs R s" "\<forall>i \<in> pg_runs R s. i < n \<longrightarrow> ended cs i t" by blast
  show ?case
  proof (cases "n \<in> pg_runs R t")
    case False
    with t show ?thesis by (intro exI [of _ t]) (auto simp: less_Suc_eq)
  next
    case True
    have "program_inv R cap addrs cs t"
      using t(1) inv by (induction rule: rtranclp_induct) (auto intro: program_inv_step [OF apart env])
    from one_ends [OF assms(1) apart assms(4) this t(2,3) True, of reading env] obtain u where
      u: "(program_step R cap reading env cs)\<^sup>*\<^sup>* t u" "pg_crash u = None" "moved_only n t u" "ended cs n u" by blast
    from u(3) have "i < n \<Longrightarrow> ended cs i t \<Longrightarrow> ended cs i u" for i by (simp add: ended_def moved_only_def)
    moreover from t(1) u(1) have "(program_step R cap reading env cs)\<^sup>*\<^sup>* s u" by (rule rtranclp_trans)
    moreover have "pg_done u" "pg_runs R u = pg_runs R s" using t u(3) by (simp_all add: moved_only_def)
    ultimately show ?thesis using t(5) u(2,4) by (intro exI [of _ u]) (auto simp: less_Suc_eq)
  qed
qed

end

interpretation default_program: program_runner NewDefaultRunner
  by unfold_locales

interpretation leader_program: program_runner "leader_runner cancelled new_lock NewLeaderElector elect r"
  for cancelled new_lock NewLeaderElector elect r
  by unfold_locales

subsection \<open>Properties\<close>

text \<open>
  C13. Inside the whole program every controller runs as it would alone: with any runner,
  a controller whose \<open>Run\<close> was started reaches only states of the running controller by
  itself (theory \<open>Live_Controller\<close>) in a program that leaves its queues alone, after the
  \<open>Init\<close> of every controller has returned; a controller that was not started has no worker.
\<close>

theorem program_refines_controllers:
  fixes R :: "('x, ('q, string, 'z) queue_world_scheme) runner_ops"
  assumes "runner_contract R" and "controllers_apart wq rejects addrs cs" and "queues_kept addrs env"
    and "program_run R cap reading env cs s" and "i < length cs"
  shows "if i \<in> pg_runs R s
    then (\<forall>j < length cs. ru_inits (pg_view R s) ! j = InitDone) \<and>
      (\<exists>w. live_controller (keeps_all (addrs ! i)) (cs ! i) w (live_in R i s))
    else \<forall>k < length (c_processor (cs ! i)). lv_pools (pg_lives s ! i) ! k = []"
proof -
  from assms(1) have R: "program_runner R" by (rule program_runner.intro)
  note inv = program_runner.program_reach_inv [OF R assms(2-4)]
  show ?thesis
  proof (cases "i \<in> pg_runs R s")
    case True
    then have "ru_runs (pg_view R s) \<noteq> []" by auto
    with inv have "\<forall>j < length cs. ru_inits (pg_view R s) ! j = InitDone"
      by (simp add: program_inv_def runner_inv_def)
    moreover obtain w where "live_controller (keeps_all (addrs ! i)) (cs ! i) w (live_in R i s)"
      using program_inv_live [OF inv True] .
    ultimately show ?thesis using True by auto
  next
    case False
    with program_inv_idle [OF inv assms(5)] show ?thesis by (simp add: live_start_def)
  qed
qed

text \<open>
  C15. A done context ends the whole program: from every reachable state that is not
  crashed, with any runner, if no \<open>Notify\<close> panics, there are steps after which \<open>Run\<close> of
  every started controller has returned and all its workers have exited.
\<close>

theorem program_shuts_down:
  fixes R :: "('x, ('q, string, 'z) queue_world_scheme) runner_ops"
  assumes "closes wq shut left" and "runner_contract R"
    and "controllers_apart wq rejects addrs cs" and "queues_kept addrs env"
    and "\<forall>c \<in> set cs. \<forall>p \<in> set (c_processor c). never_panics (p_handler p)"
    and "program_run R cap reading env cs s" and "pg_crash s = None" and "pg_done s"
  shows "\<exists>t. (program_step R cap reading env cs)\<^sup>*\<^sup>* s t \<and> pg_crash t = None \<and> pg_runs R t = pg_runs R s \<and>
    (\<forall>i \<in> pg_runs R s. ended cs i t)"
proof -
  from assms(2) have R: "program_runner R" by (rule program_runner.intro)
  note inv = program_runner.program_reach_inv [OF R assms(3,4,6)]
  from program_runner.all_end [OF R assms(1,3-5) inv assms(7,8), of reading "length cs"] program_inv_runs [OF inv]
  show ?thesis by blast
qed

text \<open>
  C16. Losing the leadership ends all controllers: when the elector has ended, and its end
  cancels the context it gave to \<open>runner\<close>, there are steps after which every controller the
  leader had started has returned and all its workers have exited.
\<close>

theorem lost_leader_shuts_down:
  fixes s :: "(('e, ('q, string, 'z) queue_world_scheme) leader_state, ('q, string, 'z) queue_world_scheme) program"
  assumes "closes wq shut left" and "controllers_apart wq rejects addrs cs" and "queues_kept addrs env"
    and "\<forall>c \<in> set cs. \<forall>p \<in> set (c_processor c). never_panics (p_handler p)"
    and "R = leader_runner cancelled new_lock NewLeaderElector elect r"
    and "program_run R cap reading env cs s" and "pg_crash s = None"
    and "ld_main (pg_runner s) = Electing e" and "phase e = Retired" and "\<forall>e. phase e = Retired \<longrightarrow> cancelled e"
  shows "\<exists>t. (program_step R cap reading env cs)\<^sup>*\<^sup>* s t \<and> pg_crash t = None \<and> pg_runs R t = pg_runs R s \<and>
    (\<forall>i \<in> pg_runs R s. ended cs i t)"
proof -
  note inv = leader_program.program_reach_inv [OF assms(2,3) assms(6) [unfolded assms(5)]]
  then have "rnr_ctx R (pg_runner s) (pg_done s)" by (simp add: program_inv_def assms(5))
  with assms(8-10) have "pg_done s" by (simp add: assms(5) leader_runner_def)
  from leader_program.all_end [OF assms(1-4) inv assms(7) this, of reading "length cs"] program_inv_runs [OF inv]
  show ?thesis unfolding assms(5) by blast
qed

subsection \<open>Witnesses\<close>

text \<open>A program with one controller of two handlers.\<close>

lemma busy_controllers_apart: "controllers_apart busy_wq duplicates_only [[0, 1]] [busy_controller]"
  using busy_apart by (simp add: controllers_apart_def)

lemma busy_queues_kept:
  "queues_kept [[0, 1]] (\<lambda>_ _ :: (busy_queue, string) kube_world. False)"
  by (simp add: queues_kept_def)

lemma busy_never_panics: "\<forall>c \<in> set [busy_controller]. \<forall>p \<in> set (c_processor c). never_panics (p_handler p)"
proof -
  have "never_panics (p_handler busy_processor)"
    by (simp add: never_panics_def busy_processor_def NewHandler_def handler_Notify_named Error_Error_def New_def)
  then show ?thesis by (simp add: second_processor_def)
qed

lemma busy_returns: "\<forall>x \<in> set (map controller_runnable [busy_controller]). returns x"
  by (simp add: returns_def controller_runnable_def controller_Init_def busy_controller_def busy_informer_def)

definition busy_runner :: "(busy_queue, string) kube_world runner_state" where
  "busy_runner = \<lparr>ru_world = busy_world, ru_inits = [NotLaunched], ru_chan = [], ru_received = [], ru_runs = []\<rparr>"

lemma busy_runner_start: "runner_start (map controller_runnable [busy_controller]) busy_runner"
  by (simp add: runner_start_def busy_runner_def)

lemma busy_lives: "list_all2 (\<lambda>c l. live_start (c_processor c) (lv_world l) l) [busy_controller] [busy_live]"
  by (simp add: live_start_def run_start_def busy_live_def numeral_2_eq_2)

text \<open>The steps of \<open>runner\<close> until the only \<open>Run\<close> can be started.\<close>

lemma busy_initialized:
  obtains u where "(runner_step 1 True (map controller_runnable [busy_controller]))\<^sup>*\<^sup>* busy_runner u"
    and "\<forall>j < length (map controller_runnable [busy_controller]). ru_inits u ! j = InitDone" and "ru_runs u = []"
  using finish_all [OF busy_returns, of busy_runner "length (map controller_runnable [busy_controller])" 1]
  by (auto simp: busy_runner_def)

abbreviation busy_program ::
  "('x, (busy_queue, string) kube_world) runner_ops \<Rightarrow> ('x, (busy_queue, string) kube_world) program \<Rightarrow> bool" where
  "busy_program R \<equiv> program_run R 1 True (\<lambda>_ _. False) [busy_controller]"

text \<open>With the default runner: the controller was started and the context is done.\<close>

lemma busy_started:
  "\<exists>s. busy_program NewDefaultRunner s \<and> ru_runs (pg_view NewDefaultRunner s) = [0] \<and> pg_done s \<and> pg_crash s = None"
proof -
  let ?R = "NewDefaultRunner :: (_, (busy_queue, string) kube_world) runner_ops"
  let ?rs = "map controller_runnable [busy_controller]"
  let ?step = "program_step ?R 1 True (\<lambda>_ _. False) [busy_controller]"
  define s where "s = \<lparr>pg_runner = busy_runner, pg_done = False, pg_crash = None, pg_lives = [busy_live]\<rparr>"
  obtain u where u: "(runner_step 1 True ?rs)\<^sup>*\<^sup>* busy_runner u" "\<forall>j < length ?rs. ru_inits u ! j = InitDone" "ru_runs u = []"
    by (rule busy_initialized)
  have ops: "rnr_step ?R = runner_step" "rnr_ctx ?R = (\<lambda>_ _. True)" "rnr_view ?R = (\<lambda>x. x)" "rnr_start ?R = runner_start"
    by (simp_all add: NewDefaultRunner_def)
  have "program_start ?R [busy_controller] s"
    using busy_runner_start busy_lives by (simp add: program_start_def ops s_def)
  then have "busy_program ?R s" unfolding program_run_def by (rule reach_start)
  moreover have "?step\<^sup>*\<^sup>* s (s\<lparr>pg_runner := u\<rparr>)"
    by (rule default_program.outer_steps) (use u in \<open>simp_all add: ops s_def\<close>)
  ultimately have "busy_program ?R (s\<lparr>pg_runner := u\<rparr>)" unfolding program_run_def by (simp add: reach_steps)
  moreover let ?v = "u\<lparr>ru_runs := ru_runs u @ [length (ru_runs u)]\<rparr>"
  have "runner_step 1 True ?rs u ?v" using u by (intro runner_step.run) simp_all
  then have "?step (s\<lparr>pg_runner := u\<rparr>) ((s\<lparr>pg_runner := u\<rparr>)\<lparr>pg_runner := ?v, pg_done := True\<rparr>)"
    using u(3) by (intro outer) (simp_all add: ops s_def)
  ultimately have "busy_program ?R ((s\<lparr>pg_runner := u\<rparr>)\<lparr>pg_runner := ?v, pg_done := True\<rparr>)"
    unfolding program_run_def by (rule reach_step)
  then show ?thesis using u(3)
    by (intro exI [of _ "(s\<lparr>pg_runner := u\<rparr>)\<lparr>pg_runner := ?v, pg_done := True\<rparr>"]) (simp add: ops s_def)
qed

theorem program_refines_controllers_witness:
  "\<exists>s w. busy_program NewDefaultRunner s \<and>
     live_controller (keeps_all [0, 1]) busy_controller w (live_in NewDefaultRunner 0 s)"
proof -
  obtain s where s: "busy_program NewDefaultRunner s" "ru_runs (pg_view NewDefaultRunner s) = [0]" using busy_started by blast
  from program_refines_controllers [OF default_runner.runner_contract_axioms busy_controllers_apart busy_queues_kept s(1), of 0] s
  show ?thesis by auto
qed

theorem program_shuts_down_witness:
  "\<exists>s t. (program_step NewDefaultRunner 1 True (\<lambda>_ _. False) [busy_controller])\<^sup>*\<^sup>* s t \<and>
     lv_pools (pg_lives t ! 0) ! 1 = [Exited, Exited]"
proof -
  obtain s where s: "busy_program NewDefaultRunner s" "ru_runs (pg_view NewDefaultRunner s) = [0]" "pg_done s" "pg_crash s = None"
    using busy_started by blast
  from program_shuts_down [OF busy_closes default_runner.runner_contract_axioms busy_controllers_apart busy_queues_kept
      busy_never_panics s(1,4,3)] s(2)
  obtain t where t: "(program_step NewDefaultRunner 1 True (\<lambda>_ _. False) [busy_controller])\<^sup>*\<^sup>* s t" "ended [busy_controller] 0 t"
    by auto
  from t(2) have "lv_pools (pg_lives t ! 0) ! 1 = [Exited, Exited]"
    by (simp add: ended_def second_processor_def busy_processor_def numeral_2_eq_2)
  with t(1) show ?thesis by blast
qed

text \<open>With the leader runner: the elector won, the controller was started, and the elector ended.\<close>

abbreviation busy_leader ::
  "((election, (busy_queue, string) kube_world) leader_state, (busy_queue, string) kube_world) runner_ops" where
  "busy_leader \<equiv> leader_runner (\<lambda>e. e = Retired) example_lock example_elector example_elect example_leader"

lemma busy_leader_ops [simp]:
  "rnr_step busy_leader cap reading rs =
     leader_step cap reading rs example_leader (LeaderRunner_Run example_lock example_elector example_leader) example_elect"
  "rnr_start busy_leader = leader_start" "rnr_view busy_leader = ld_runner"
  "rnr_ctx busy_leader s d = (d = (case ld_main s of Electing e \<Rightarrow> e = Retired | _ \<Rightarrow> False))"
  by (simp_all add: leader_runner_def)

lemma lead_steps_outer:
  assumes "(runner_step cap reading rs)\<^sup>*\<^sup>* (ld_runner s) u" and "ld_leading s"
  shows "(\<lambda>x y. leader_step cap reading rs r launch elect x y \<and> ld_main y = ld_main s)\<^sup>*\<^sup>* s (s\<lparr>ld_runner := u\<rparr>)"
  using assms(1)
proof (induction rule: rtranclp_induct)
  case (step u v)
  have "leader_step cap reading rs r launch elect (s\<lparr>ld_runner := u\<rparr>) ((s\<lparr>ld_runner := u\<rparr>)\<lparr>ld_runner := v\<rparr>)"
    using step.hyps(2) assms(2) by (intro lead) simp_all
  with step.IH show ?case by (simp add: rtranclp.rtrancl_into_rtrancl)
qed simp

lemma busy_lost:
  "\<exists>s. busy_program busy_leader s \<and> ru_runs (pg_view busy_leader s) = [0] \<and> pg_crash s = None \<and>
     ld_main (pg_runner s) = Electing Retired"
proof -
  let ?rs = "map controller_runnable [busy_controller]"
  let ?step = "program_step busy_leader 1 True (\<lambda>_ _. False) [busy_controller]"
  define l0 :: "(election, (busy_queue, string) kube_world) leader_state" where "l0 = \<lparr>ld_main = Building, ld_leading = False, ld_sending = [], ld_runner = busy_runner\<rparr>"
  define l1 where "l1 = l0\<lparr>ld_main := Electing Candidate, ld_runner := (ld_runner l0)\<lparr>ru_world := ld_world l0\<rparr>\<rparr>"
  define l2 where "l2 = l1\<lparr>ld_main := Electing Leader, ld_leading := True\<rparr>"
  obtain u where u: "(runner_step 1 True ?rs)\<^sup>*\<^sup>* busy_runner u" "\<forall>j < length ?rs. ru_inits u ! j = InitDone" "ru_runs u = []"
    by (rule busy_initialized)
  define l3 where "l3 = l2\<lparr>ld_runner := u\<rparr>"
  define l4 where "l4 = l3\<lparr>ld_runner := u\<lparr>ru_runs := ru_runs u @ [length (ru_runs u)]\<rparr>\<rparr>"
  define w where "w = snd (OnStoppedLeading example_leader (ld_world l4))"
  define l5 where "l5 = l4\<lparr>ld_main := Electing Retired,
    ld_sending := ld_sending l4 @ [fst (OnStoppedLeading example_leader (ld_world l4))],
    ld_runner := (ld_runner l4)\<lparr>ru_world := w\<rparr>\<rparr>"
  let ?L = "leader_step 1 True ?rs example_leader (LeaderRunner_Run example_lock example_elector example_leader) example_elect"
  define s where "s = (\<lambda>(l :: (election, (busy_queue, string) kube_world) leader_state) d. \<lparr>pg_runner = l, pg_done = d, pg_crash = None, pg_lives = [busy_live]\<rparr>)"
  have out: "?step (s l d) (s l' d')" if "?L l l'" "d' = (case ld_main l' of Electing e \<Rightarrow> e = Retired | _ \<Rightarrow> False)"
    "if d then d' else True" "ru_runs (ld_runner l) = [] \<or> wqs (ld_world l') = wqs (ld_world l)" for l l' d d'
    using outer [of "s l d" busy_leader 1 True "[busy_controller]" l' d' "\<lambda>_ _. False"] that by (simp add: s_def)
  have "program_start busy_leader [busy_controller] (s l0 False)"
    using busy_runner_start busy_lives by (simp add: program_start_def s_def leader_start_def l0_def)
  then have "busy_program busy_leader (s l0 False)" unfolding program_run_def by (rule reach_start)
  moreover have "?L l0 l1" unfolding l1_def
    by (rule leader_step.build) (simp_all add: l0_def LeaderRunner_Run_def example_lock_def example_elector_def Let_def)
  then have "?step (s l0 False) (s l1 False)" by (rule out) (simp_all add: l0_def l1_def busy_runner_def)
  ultimately have "busy_program busy_leader (s l1 False)" unfolding program_run_def by (rule reach_step)
  moreover have "?L l1 l2" unfolding l2_def
    by (rule leader_step.started [where e = Candidate]) (simp_all add: l1_def example_elect_def)
  then have "?step (s l1 False) (s l2 False)" by (rule out) (simp_all add: l2_def l1_def l0_def busy_runner_def)
  ultimately have "busy_program busy_leader (s l2 False)" unfolding program_run_def by (rule reach_step)
  moreover have "?step\<^sup>*\<^sup>* (s l2 False) ((s l2 False)\<lparr>pg_runner := l3\<rparr>)"
  proof (rule leader_program.outer_steps)
    have "(runner_step 1 True ?rs)\<^sup>*\<^sup>* (ld_runner l2) u" "ld_leading l2" using u(1) by (simp_all add: l2_def l1_def l0_def)
    then have "(\<lambda>x y. ?L x y \<and> ld_main y = ld_main l2)\<^sup>*\<^sup>* l2 l3" unfolding l3_def by (rule lead_steps_outer)
    moreover have "(\<lambda>x y. ?L x y \<and> ld_main y = ld_main l2) \<le>
        (\<lambda>x y. rnr_step busy_leader 1 True ?rs x y \<and> rnr_ctx busy_leader y (pg_done (s l2 False)))"
      by (auto simp: s_def l2_def)
    ultimately have "(\<lambda>x y. rnr_step busy_leader 1 True ?rs x y \<and> rnr_ctx busy_leader y (pg_done (s l2 False)))\<^sup>*\<^sup>* l2 l3"
      using rtranclp_mono by blast
    then show "(\<lambda>x y. rnr_step busy_leader 1 True ?rs x y \<and> rnr_ctx busy_leader y (pg_done (s l2 False)))\<^sup>*\<^sup>*
        (pg_runner (s l2 False)) l3" by (simp add: s_def)
  qed (use u(3) in \<open>simp_all add: s_def l3_def\<close>)
  ultimately have "busy_program busy_leader (s l3 False)" unfolding program_run_def by (simp add: reach_steps s_def)
  moreover have "runner_step 1 True ?rs u (u\<lparr>ru_runs := ru_runs u @ [length (ru_runs u)]\<rparr>)"
    using u by (intro runner_step.run) simp_all
  then have "?L l3 l4" unfolding l4_def by (intro lead) (simp_all add: l3_def l2_def)
  then have "?step (s l3 False) (s l4 False)" by (rule out) (simp_all add: l4_def l3_def l2_def u(3))
  ultimately have "busy_program busy_leader (s l4 False)" unfolding program_run_def by (rule reach_step)
  moreover have "?L l4 l5" unfolding l5_def
    by (rule leader_step.stopped [where e = Leader]) (simp_all add: l4_def l3_def l2_def example_elect_def w_def)
  then have "?step (s l4 False) (s l5 True)"
    by (rule out) (simp_all add: l5_def w_def OnStoppedLeading_def alloc_def)
  ultimately have "busy_program busy_leader (s l5 True)" unfolding program_run_def by (rule reach_step)
  then show ?thesis using u(3) by (intro exI [of _ "s l5 True"]) (simp add: s_def l5_def l4_def)
qed

theorem lost_leader_shuts_down_witness:
  "\<exists>s t. busy_program busy_leader s \<and> ld_main (pg_runner s) = Electing Retired \<and>
     (program_step busy_leader 1 True (\<lambda>_ _. False) [busy_controller])\<^sup>*\<^sup>* s t \<and> ended [busy_controller] 0 t"
proof -
  obtain s where s: "busy_program busy_leader s" "ru_runs (pg_view busy_leader s) = [0]" "pg_crash s = None"
    "ld_main (pg_runner s) = Electing Retired" using busy_lost by blast
  from lost_leader_shuts_down [OF busy_closes busy_controllers_apart busy_queues_kept busy_never_panics refl s(1,3,4),
      where phase = "\<lambda>e. e"] s(2)
  obtain t where "(program_step busy_leader 1 True (\<lambda>_ _. False) [busy_controller])\<^sup>*\<^sup>* s t" "ended [busy_controller] 0 t"
    by auto
  with s show ?thesis by blast
qed

end
