(* ===== verification/Spec2Isabelle.thy ===== *)
theory Spec2Isabelle
  imports Error_Checks Programs
begin

text \<open>
  go-kube is a Go library for Kubernetes controllers. This development models its two
  packages, \<open>errors\<close> and \<open>controller\<close>, file by file, and proves what makes the
  parts correct.

  How the program works. A \<open>Controller\<close> owns an informer of client-go and, per handler
  added to it, a work queue, a \<open>ResourceEventHandler\<close> and a \<open>Processor\<close>. The informer
  calls the event handler with adds, updates and deletes; filters decide whether the key of
  the resource is put into the queue, possibly delayed. The processor's workers take keys
  from the queue, look the resource up in the informer's cache and call the user's handler;
  a failed item is requeued until its retries are used up. A \<open>Runner\<close> initializes all
  controllers and then starts them, directly or when the leader election is won. Queues and
  processors report to a \<open>Recorder\<close> that turns events into Prometheus metrics.

  The theories, in the order of the calls:

  \<^item> \<open>Go_Prelude\<close>: time, durations with Go's saturating differences, calls that may panic,
    the runtime state (clock, allocator), reachable states of goroutines and their
    invariants (locale \<open>step_invariant\<close>).
  \<^item> \<open>Go_Errors\<close> (\<open>errors/errors.go\<close>): error values with identity, \<open>fmt.Errorf\<close> (the scan of
    the format in full, so what an error wraps is exact for every format),
    \<open>errors.Is\<close>, \<open>errors.As\<close>, \<open>errors.Join\<close>, the type \<open>Error\<close> and its methods. \<open>Is\<close> and
    \<open>As\<close> are compared with a search in the tree of wrapped errors.
  \<^item> \<open>Kube_Objects\<close>: the values of type \<open>any\<close> the controller meets, reduced to what its
    code observes.
  \<^item> \<open>Filters\<close> and \<open>Self_Write_Tracker\<close> (\<open>controller/filter.go\<close>): filters are
    state-passing functions; the tracker is a map from keys to the last own write.
  \<^item> \<open>Owner_Index\<close> (\<open>controller/indexer.go\<close>): index functions and the view of the cache.
  \<^item> \<open>Retrievers\<close> (\<open>controller/retriever.go\<close>): adapters around list and watch.
  \<^item> \<open>Recorders\<close> (\<open>controller/recorder.go\<close>): metric calls as a log in the state, the
    registry as a list of collectors, the once-only client metrics.
  \<^item> \<open>Queues\<close> (\<open>controller/queue.go\<close>): the retry queue over client-go's queue, and the
    monitor queue as a record update of the queue it embeds. The retry budget is proved by
    a simulation with a failure counter per item; monitoring is transparent.
  \<^item> \<open>Handlers\<close> (\<open>controller/handler.go\<close>): the typed adapter, its log and stack traces.
  \<^item> \<open>Processors\<close> (\<open>controller/processor.go\<close> and \<open>Delay\<close> of \<open>controller.go\<close>): events
    to queue entries, queue entries to handler calls, with \<open>recover\<close> and the deferred
    calls written out. \<open>Process\<close> may run forever, so it is a partial function; on a queue
    that is shut down it is proved to return.
  \<^item> \<open>Error_Checks\<close> (\<open>errors/errors.go\<close>): the re-exported checkers of Kubernetes errors; they
    decide on what \<open>handle\<close> returns as they decide on the error of the user's handler.
  \<^item> \<open>Workers\<close> (\<open>Run\<close>, \<open>Process\<close> and \<open>process\<close> of \<open>controller/processor.go\<close>): the worker
    goroutines as a step relation, \<open>process\<close> cut into the pieces between which others run
    (\<open>Get\<close>, \<open>handle\<close> up to the return of the user's handler, the rest of \<open>handle\<close>, the end),
    with the event handlers, the shutdown and the rest of the program. They refine an
    abstract life cycle of items (\<open>item_spec\<close>), from which follow that no item is handled
    twice at once, that no event is lost and the retry budget of the whole pool; a measure
    shows that the pool winds down.
  \<^item> \<open>Controllers\<close> (\<open>controller/controller.go\<close>): construction, \<open>AddHandler\<close>, look-ups,
    \<open>Init\<close>, and \<open>Run\<close> (with \<open>Run\<close> of the processor) as a step relation.
  \<^item> \<open>Runners\<close> (\<open>controller/runner.go\<close>): the goroutines of \<open>runner\<close> as a step relation
    over the shared error channel, and the construction of the leader election. What every
    \<open>Runner\<close> promises is the locale \<open>runner_contract\<close>: it moves only through the order of
    \<open>runner\<close> (\<open>rnr_view\<close>), and \<open>rnr_ctx\<close> says which context it passes to the controllers.
  \<^item> \<open>Leadership\<close> (\<open>LeaderRunner\<close> of \<open>controller/runner.go\<close>): the leader runner as a step
    relation around that of \<open>runner\<close>, with the callbacks of the elector: nothing is
    initialized before the election is won, a won election starts everything, the end of
    the elector is reported. The context derived by the elector is done exactly in the
    states of the elector the parameter \<open>cancelled\<close> names.
  \<^item> \<open>Isolation\<close>: the queues of several handlers of a controller, followed through their
    allocation by \<open>AddHandler\<close>; one handler does not touch the queue of another.
  \<^item> \<open>Live_Controller\<close>: \<open>Run\<close> of a controller and the workers of all its processors in one
    step relation. Each pool in it is simulated by the pool of the theory \<open>Workers\<close>, so it
    refines the life cycle of items; handlers after the first never handle anything; an
    event that passes the filters stays pending until a worker takes it; after the
    cancellation everything can end.
  \<^item> \<open>Programs\<close>: a runner and the controllers it starts, over one state. For any runner that
    obeys \<open>runner_contract\<close> (the default runner and the leader runner do) each started
    controller runs as it would alone in \<open>Live_Controller\<close>, in a program that leaves its
    queues alone; a done context, and so the loss of the leadership, can end everything.

  State and code. A Go pointer is an address into a map of the state or, where only one
  component uses it, a record the operation returns updated. The state grows along the
  imports: clock and allocator, trackers, metrics, queues, logs. An interface
  (\<open>Tracker\<close>, \<open>Retriever\<close>, \<open>Recorder\<close>, \<open>Queue\<close>, \<open>Handler\<close>, \<open>Runnable\<close>, \<open>Runner\<close>) is a record
  of operations,
  with a locale for what its clients rely on, interpreted on every implementation in this
  repository. A panic is a value of \<open>outcome\<close>; a call that never returns is \<open>None\<close>.
  Contexts are not passed around: where cancellation matters it is a field of the state of
  a step relation. No fuel is used; integers are unbounded except the 64-bit hash of the
  jitter and the saturating durations.

  Foreign code (client-go's informer, cache, work queue, leader election and key functions,
  the error checkers of Kubernetes, the Prometheus registry, the Kubernetes client, user
  handlers) is an argument. What a
  theorem needs of it is a named hypothesis: \<open>requeue_laws\<close> (requeue counts of the rate
  limiter), \<open>workqueue_laws\<close> (what is waiting and being processed), \<open>drains\<close>,
  \<open>ignores_adds\<close>, \<open>winds_down\<close> and \<open>closes\<close> (a queue that is shut down), \<open>election_laws\<close> (the
  callbacks of an elector), \<open>foreign_kerrors\<close> (a checker decides on the first foreign error), \<open>registered\<close> and
  \<open>unregistered\<close> (look-ups in an index), \<open>leaves_queue\<close> and \<open>quiet_request\<close> (handlers and
  filters that do not use the queues themselves), \<open>allocates_only\<close> (addresses are not
  reused), \<open>apart\<close> (each handler has a queue of its own, which \<open>Isolation\<close> proves of a
  controller built by \<open>AddHandler\<close>), \<open>controllers_apart\<close> and \<open>queues_kept\<close> (no two controllers
  share a queue, and the rest of the program uses none of them). That the end of an elector
  cancels its context is a hypothesis of the one theorem that needs it. Each theorem with hypotheses is applied to a
  concrete instance in a theorem with the suffix \<open>_witness\<close>.

  Not modelled: data races and the memory model (operations under a lock are atomic; in the
  worker pool the look-up of the resource and the call of the user's handler are one step,
  and so are what follows the handler and the end of \<open>process\<close>), what the informer does with
  the context given to \<open>Init\<close> (a parameter, like the informer), text logging other than
  through the logger interfaces, the text \<open>fmt\<close> makes of verbs other than \<open>%w\<close>, \<open>%s\<close>, \<open>%v\<close>,
  \<open>%T\<close> and \<open>%%\<close> or of flags, widths and precisions, and the package documentation.
\<close>

section \<open>Properties across components\<close>

text \<open>
  C19. A controller does not react to its own write: with the filter of a self-write tracker
  on the handler, the update event that echoes a marked write within the tracker's time to
  live leaves the client-go queues, the clock and the logs alone, and is forgotten: the same
  event delivered again makes the one call on the queue it would make without the tracker.
\<close>

theorem self_write_not_enqueued:
  assumes "meta (object obj) = Some m'" and "tracker_key m' = tracker_key m"
    and "meta_version m' = meta_version m" and "key_of obj = (key, None)"
    and "time_since (now w + int pause) (now w) \<le> ttl (trackers w a)"
    and "r = NewResourceEventHandler h q d [Some (tr_Filter t)]"
    and "w1 = (tr_Mark t (Some m) w)\<lparr>now := now w + int pause\<rparr>"
    and "t = self_write_tracker a" and "delay = delay_for d key (is_resync (object prev) (object obj))"
  shows "\<exists>w2. OnUpdate key_of r prev obj w1 = (Ret (), w2) \<and>
    w2 = w1\<lparr>trackers := trackers w2\<rparr> \<and>
    OnUpdate key_of r prev obj w2 =
      (Ret (), if delay > 0 then q_AddAfter q key delay w2 else q_Add q key w2)"
proof -
  note r = assms(6) [unfolded assms(8) self_write_tracker_simps]
  note w1 = assms(7) [unfolded assms(8) self_write_tracker_simps]
  let ?t = "tracker_Mark (Some m) (now w) (trackers w a)"
  let ?t' = "?t\<lparr>entries := (entries ?t)(tracker_key m := None)\<rparr>"
  let ?w2 = "w1\<lparr>trackers := (trackers w1)(a := ?t')\<rparr>"
  have "tracker_Filter OpUpdate (object obj) (now w1) ?t = (False, ?t')"
    using assms(1,2,3,5) w1 by (simp add: tracker_Filter_def tracker_Mark_def)
  then have drop: "tracker_filter a OpUpdate (object prev) (object obj) w1 = (False, ?w2)"
    using w1 by (simp add: tracker_filter_def mark_def)
  have "tracker_Filter OpUpdate (object obj) (now w1) ?t' = (True, ?t')"
    using assms(1,2) by (simp add: tracker_Filter_def)
  then have pass: "tracker_filter a OpUpdate (object prev) (object obj) ?w2 = (True, ?w2)"
    by (simp add: tracker_filter_def)
  from assms(4,9) r drop pass show ?thesis
    by (intro exI [of _ ?w2])
      (simp add: OnUpdate_def enqueue_def NewResourceEventHandler_def combine_def Let_def)
qed

theorem self_write_not_enqueued_witness:
  "\<exists>w2. OnUpdate (\<lambda>_. (''a'', None))
       (NewResourceEventHandler (example_handler works) (built_queue example_wq example_rq None) (NewDelay 0 0)
         [Some (tr_Filter (self_write_tracker 7))])
       (example_pod ''a'' ''1'') (example_pod ''a'' ''2'')
       ((tr_Mark (self_write_tracker 7) (Some (example_meta ''a'' ''2'')) (example_kube [] False))\<lparr>now := now (example_kube [] False) + int 9\<rparr>)
       = (Ret (), w2) \<and> wqs w2 = wqs (example_kube [] False)"
proof -
  have "meta (object (example_pod ''a'' ''2'')) = Some (example_meta ''a'' ''2'')"
    by (simp add: meta_def example_pod_def)
  moreover have "time_since (now (example_kube [] False) + int 9) (now (example_kube [] False))
      \<le> ttl (trackers (example_kube [] False) 7)"
    by (simp add: example_kube_def example_tracker_def NewSelfWriteTracker_def time_since_def time_sub_def
        min_duration_def max_duration_def minute_def second_def)
  ultimately obtain w2 where w2: "OnUpdate (\<lambda>_. (''a'', None))
       (NewResourceEventHandler (example_handler works) (built_queue example_wq example_rq None) (NewDelay 0 0)
         [Some (tr_Filter (self_write_tracker 7))])
       (example_pod ''a'' ''1'') (example_pod ''a'' ''2'')
       ((tr_Mark (self_write_tracker 7) (Some (example_meta ''a'' ''2'')) (example_kube [] False))\<lparr>now := now (example_kube [] False) + int 9\<rparr>)
       = (Ret (), w2)"
    "w2 = (tr_Mark (self_write_tracker 7) (Some (example_meta ''a'' ''2'')) (example_kube [] False))
       \<lparr>now := now (example_kube [] False) + int 9, trackers := trackers w2\<rparr>"
    using self_write_not_enqueued [of "example_pod ''a'' ''2''" "example_meta ''a'' ''2''" "example_meta ''a'' ''2''"
        "\<lambda>_. (''a'', None)" "''a''" "example_kube [] False" 9 7, OF _ refl refl refl _ refl refl refl refl]
    by blast
  from arg_cong [OF w2(2), of wqs] have "wqs w2 = wqs (example_kube [] False)" by (simp add: mark_def)
  with w2(1) show ?thesis by blast
qed

end
